theory Spec2Isabelle
  imports
    Complex_Main
    "HOL-Library.Word"
    "HOL-Library.Log_Nat"
    "HOL-Library.While_Combinator"
begin

section \<open>The buffer cache of \<open>buffer_cache/alt.cc\<close>\<close>

text \<open>
  A shallow embedding of the transaction throttler, the current-page admission queue,
  the transaction graph and the flush planner of \<open>src/buffer_cache/alt.cc\<close>.

  Conventions.
  \<^item> Objects that the C++ code reaches through pointers live in stores (total functions
    from a pointer, a \<open>nat\<close>, to a record); a nullable pointer is an \<open>option\<close>.
  \<^item> \<open>guarantee(...)\<close> aborts the process in every build: a failed guarantee is an error
    value. \<open>rassert(...)\<close> is compiled out of release builds: the functions below are the
    release build, and the conditions of the \<open>rassert\<close>s appear as named predicates or as
    hypotheses of the theorems that need them.
  \<^item> Undefined behaviour of C++ (division by zero, a floating-point value that does not
    fit the integer it is converted to, signed overflow) is the result \<open>None\<close>.
  \<^item> A \<open>while\<close> loop whose termination depends on the shape of the heap is a
    \<open>while_option\<close>: \<open>None\<close> means that the loop runs forever.
\<close>

subsection \<open>Constants\<close>

definition MINIMUM_SOFT_UNWRITTEN_CHANGES_LIMIT :: int where
  "MINIMUM_SOFT_UNWRITTEN_CHANGES_LIMIT = 1"

definition SOFT_UNWRITTEN_CHANGES_LIMIT :: int where
  "SOFT_UNWRITTEN_CHANGES_LIMIT = 8000"

definition INDEX_CHANGES_LIMIT_FACTOR :: int where
  "INDEX_CHANGES_LIMIT_FACTOR = 5"

text \<open>The values an \<open>int64_t\<close> can hold.\<close>

definition int64_range :: "int \<Rightarrow> bool" where
  "int64_range i \<longleftrightarrow> - (2 ^ 63) \<le> i \<and> i < 2 ^ 63"

subsection \<open>The transaction throttler\<close>

text \<open>
  \<open>alt_txn_throttler_t\<close>: the minimum limit given to the constructor and the capacities
  of its two semaphores. The semaphore class is declared outside this file; only its
  capacity is modelled.
\<close>

record alt_txn_throttler_t =
  minimum_unwritten_changes_limit :: int
  unwritten_block_changes_semaphore :: int
  unwritten_index_changes_semaphore :: int

definition new_alt_txn_throttler :: "int \<Rightarrow> alt_txn_throttler_t" where
  "new_alt_txn_throttler minimum_limit =
     \<lparr> minimum_unwritten_changes_limit = minimum_limit,
       unwritten_block_changes_semaphore = SOFT_UNWRITTEN_CHANGES_LIMIT,
       unwritten_index_changes_semaphore =
         SOFT_UNWRITTEN_CHANGES_LIMIT * INDEX_CHANGES_LIMIT_FACTOR \<rparr>"

text \<open>
  The conversion of a \<open>uint64_t\<close> to \<open>double\<close> (IEEE 754 binary64, round to nearest, ties
  to even): a value below \<open>2 ^ 53\<close> is exact, a larger one keeps its 53 leading bits.
  The result is the (integral) value of the double.
\<close>

definition double_of_uint64 :: "nat \<Rightarrow> nat" where
  "double_of_uint64 q =
     (if q < 2 ^ 53 then q
      else
        let sh = floorlog 2 q - 53;
            lo = q mod 2 ^ sh;
            base = q - lo;
            half = 2 ^ (sh - 1)
        in if half < lo \<or> (lo = half \<and> odd (q div 2 ^ sh)) then base + 2 ^ sh else base)"

text \<open>
  \<open>d * SOFT_UNWRITTEN_CHANGES_MEMORY_FRACTION\<close> converted to \<open>int64_t\<close>, for a double of
  integral value \<open>d\<close>: halving a double is exact, the conversion truncates, and it is
  undefined when the value does not fit.
\<close>

definition int64_of_half :: "nat \<Rightarrow> int option" where
  "int64_of_half d = (if int64_range (int (d div 2)) then Some (int (d div 2)) else None)"

text \<open>\<open>alt_txn_throttler_t::inform_memory_limit_change\<close>.\<close>

definition inform_memory_limit_change ::
  "64 word \<Rightarrow> 32 word \<Rightarrow> alt_txn_throttler_t \<Rightarrow> alt_txn_throttler_t option" where
  "inform_memory_limit_change memory_limit max_block_size_ser_value th =
     (if max_block_size_ser_value = 0 then None
      else
        case int64_of_half
               (double_of_uint64 (unat memory_limit div unat max_block_size_ser_value)) of
          None \<Rightarrow> None
        | Some fraction \<Rightarrow>
            let throttler_limit = min SOFT_UNWRITTEN_CHANGES_LIMIT fraction;
                throttler_limit = max throttler_limit (minimum_unwritten_changes_limit th)
            in if int64_range (throttler_limit * INDEX_CHANGES_LIMIT_FACTOR)
               then Some (th\<lparr> unwritten_index_changes_semaphore :=
                                 throttler_limit * INDEX_CHANGES_LIMIT_FACTOR,
                               unwritten_block_changes_semaphore := throttler_limit \<rparr>)
               else None)"

text \<open>
  \<open>throttler_acq_t\<close>: the permit of one transaction. The class is declared in the header;
  a semaphore acquisition is modelled by the number of permits it holds (\<open>count()\<close>), and
  \<open>change_count\<close> sets that number.
\<close>

record throttler_acq_t =
  expected_change_count :: int
  pre_spawn_flush :: bool
  block_changes_semaphore_acq :: int
  index_changes_semaphore_acq :: int

text \<open>The condition of the \<open>rassert\<close> at the head of \<open>update_dirty_page_count\<close>.\<close>

definition counts_agree :: "throttler_acq_t \<Rightarrow> bool" where
  "counts_agree a \<longleftrightarrow> block_changes_semaphore_acq a = index_changes_semaphore_acq a"

definition update_dirty_page_count :: "int \<Rightarrow> throttler_acq_t \<Rightarrow> throttler_acq_t" where
  "update_dirty_page_count new_count a =
     (let new_count = max new_count (expected_change_count a)
      in if pre_spawn_flush a \<and> block_changes_semaphore_acq a < new_count
         then a\<lparr> block_changes_semaphore_acq := new_count,
                 index_changes_semaphore_acq := new_count \<rparr>
         else a)"

definition mark_dirty_pages_written :: "throttler_acq_t \<Rightarrow> throttler_acq_t" where
  "mark_dirty_pages_written a = a\<lparr> block_changes_semaphore_acq := 0 \<rparr>"

text \<open>
  Modelled from the spec: \<open>throttler_acq_t::set_pre_spawn_flush\<close>, defined in the header.
  "When entered, the TX's throttler permit grows to its current dirty-page count."
\<close>

definition set_pre_spawn_flush :: "int \<Rightarrow> throttler_acq_t \<Rightarrow> throttler_acq_t" where
  "set_pre_spawn_flush dirty_page_count a =
     update_dirty_page_count dirty_page_count (a\<lparr> pre_spawn_flush := True \<rparr>)"


subsection \<open>The objects of the page cache\<close>

text \<open>Pointers to the objects of each class, and block ids.\<close>

type_synonym block_id_t = nat
type_synonym txn_ptr = nat
type_synonym acq_ptr = nat
type_synonym cp_ptr = nat
type_synonym page_ptr = nat

text \<open>
  Modelled from the spec: \<open>block_version_t\<close> and \<open>repli_timestamp_t\<close>, declared in
  headers that are not part of this file. A block version is a 64-bit counter (the code
  prints its \<open>debug_value()\<close> with \<open>PRIu64\<close>), "unassigned = 0", and \<open>subsequent()\<close> is
  its successor. A recency is a 64-bit timestamp; "\<open>invalid\<close> marks deleted blocks;
  \<open>distant_past\<close> marks freshly-created blocks. \<open>superceding(a,b)\<close> returns the max."
\<close>

type_synonym block_version_t = "64 word"
type_synonym repli_timestamp_t = "64 word"

definition subsequent :: "block_version_t \<Rightarrow> block_version_t" where
  "subsequent v = v + 1"

definition distant_past :: repli_timestamp_t where
  "distant_past = 0"

definition invalid :: repli_timestamp_t where
  "invalid = - 1"

definition superceding_recency :: "repli_timestamp_t \<Rightarrow> repli_timestamp_t \<Rightarrow> repli_timestamp_t" where
  "superceding_recency a b = max a b"

datatype access_t = access_read | access_write

datatype mark_state_t = marked_not | marked_blue | marked_green | marked_red

text \<open>
  How an operation on the page cache fails: a \<open>guarantee\<close> that does not hold, a loop
  that runs forever, a null pointer that is dereferenced, an operation of the intrusive
  list on an acquirer that is not in the list, or a wait for a signal that has not been
  pulsed (nothing else runs during the call).
\<close>

datatype failure = Guarantee_failed | Diverges | Null_dereference | Not_in_list | Blocks

text \<open>
  \<open>page_t\<close> is implemented in another file; a page is modelled by what its accessors
  \<open>is_loading()\<close>, \<open>has_waiters()\<close>, \<open>is_loaded()\<close> and \<open>page_ptr_count()\<close> return.
\<close>

record page_t =
  is_loading :: bool
  has_waiters :: bool
  is_loaded :: bool
  page_ptr_count :: nat

text \<open>\<open>timestamped_page_ptr_t\<close>: \<open>has()\<close> holds when the page pointer is not null.\<close>

record timestamped_page_ptr_t =
  tpp_timestamp :: repli_timestamp_t
  tpp_page :: "page_ptr option"

record dirtied_page_t =
  dp_block_version :: block_version_t
  dp_block_id :: block_id_t
  dp_ptr :: timestamped_page_ptr_t

record touched_page_t =
  tp_block_version :: block_version_t
  tp_block_id :: block_id_t
  tp_tstamp :: repli_timestamp_t

record block_change_t =
  version :: block_version_t
  modified :: bool
  change_page :: "page_ptr option"
  tstamp :: repli_timestamp_t

text \<open>
  \<open>page_txn_t\<close>. The two bags \<open>pages_write_acquired_last_\<close> and \<open>pages_dirtied_last_\<close>
  are lists of current pages: \<open>add\<close> appends, \<open>remove\<close> removes the element.
\<close>

record page_txn_t =
  preceders :: "txn_ptr list"
  subseqers :: "txn_ptr list"
  live_acqs :: nat
  pages_write_acquired_last :: "cp_ptr list"
  pages_dirtied_last :: "cp_ptr list"
  snapshotted_dirtied_pages :: "dirtied_page_t list"
  touched_pages :: "touched_page_t list"
  throttler_acq :: throttler_acq_t
  began_waiting_for_flush :: bool
  spawned_flush :: bool
  mark :: mark_state_t

text \<open>
  \<open>current_page_acq_t\<close>. \<open>page_cache\<close> tells whether \<open>page_cache_\<close> is set, that is,
  whether \<open>init\<close> has run; \<open>read_cond\<close> and \<open>write_cond\<close> tell whether the two signals
  have been pulsed.
\<close>

record current_page_acq_t =
  page_cache :: bool
  the_txn :: "txn_ptr option"
  access :: access_t
  declared_snapshotted :: bool
  acq_block_id :: block_id_t
  current_page :: "cp_ptr option"
  dirtied_page :: bool
  touched_page :: bool
  block_version :: block_version_t
  read_cond :: bool
  write_cond :: bool
  snapshotted_page :: timestamped_page_ptr_t

text \<open>\<open>current_page_t\<close>; \<open>acquirers\<close> is the intrusive list, head first.\<close>

record current_page_t =
  block_id :: block_id_t
  page :: "page_ptr option"
  is_deleted :: bool
  last_write_acquirer :: "txn_ptr option"
  last_write_acquirer_version :: block_version_t
  last_dirtier :: "txn_ptr option"
  last_dirtier_recency :: repli_timestamp_t
  last_dirtier_version :: block_version_t
  num_keepalives :: nat
  acquirers :: "acq_ptr list"

text \<open>
  \<open>page_cache_t\<close>, with the stores of the objects it reaches. \<open>read_ahead_cb\<close> tells
  whether \<open>read_ahead_cb_\<close> is not null. \<open>next_cp\<close> and \<open>next_page\<close> are the addresses
  that the next \<open>new current_page_t\<close> and \<open>new page_t\<close> return. \<open>released_block_ids\<close>
  records the calls of \<open>free_list()->release_block_id\<close>.
\<close>

record page_cache_t =
  txn_store :: "txn_ptr \<Rightarrow> page_txn_t"
  acq_store :: "acq_ptr \<Rightarrow> current_page_acq_t"
  cp_store :: "cp_ptr \<Rightarrow> current_page_t"
  page_store :: "page_ptr \<Rightarrow> page_t"
  current_pages :: "block_id_t \<rightharpoonup> cp_ptr"
  read_ahead_cb :: bool
  recencies :: "block_id_t \<Rightarrow> repli_timestamp_t"
  next_cp :: cp_ptr
  next_page :: page_ptr
  released_block_ids :: "block_id_t list"

subsection \<open>Pages and page pointers\<close>

text \<open>
  Modelled from the spec: the constructors of \<open>page_t\<close> and the reference counting of
  \<open>page_ptr_t\<close>, which are implemented in another file. A page made from a buffer is
  loaded; a page made from a block id alone is yet to be loaded from the serializer.
  \<open>page_ptr_t::init\<close> adds a holder to the page, \<open>reset_page_ptr\<close> removes one.
\<close>

definition new_page_t :: "bool \<Rightarrow> page_cache_t \<Rightarrow> page_ptr \<times> page_cache_t" where
  "new_page_t has_buf pc =
     (next_page pc,
      pc\<lparr> page_store := (page_store pc)
             (next_page pc := \<lparr> is_loading = False, has_waiters = False,
                                is_loaded = has_buf, page_ptr_count = 0 \<rparr>),
          next_page := Suc (next_page pc) \<rparr>)"

definition page_ptr_init :: "page_ptr \<Rightarrow> page_cache_t \<Rightarrow> page_cache_t" where
  "page_ptr_init p pc =
     pc\<lparr> page_store := (page_store pc)
            (p := (page_store pc p)\<lparr> page_ptr_count := Suc (page_ptr_count (page_store pc p)) \<rparr>) \<rparr>"

definition reset_page_ptr :: "page_ptr option \<Rightarrow> page_cache_t \<Rightarrow> page_cache_t" where
  "reset_page_ptr po pc =
     (case po of
        None \<Rightarrow> pc
      | Some p \<Rightarrow>
          pc\<lparr> page_store := (page_store pc)
                 (p := (page_store pc p)\<lparr> page_ptr_count := page_ptr_count (page_store pc p) - 1 \<rparr>) \<rparr>)"

definition tpp_init ::
  "repli_timestamp_t \<Rightarrow> page_ptr option \<Rightarrow> page_cache_t \<Rightarrow> timestamped_page_ptr_t \<times> page_cache_t" where
  "tpp_init ts po pc =
     (\<lparr> tpp_timestamp = ts, tpp_page = po \<rparr>,
      case po of None \<Rightarrow> pc | Some p \<Rightarrow> page_ptr_init p pc)"

definition recency_for_block_id :: "page_cache_t \<Rightarrow> block_id_t \<Rightarrow> repli_timestamp_t" where
  "recency_for_block_id pc b = recencies pc b"

subsection \<open>Current pages: construction, eviction, read-ahead\<close>

text \<open>
  The three constructors of \<open>current_page_t\<close> differ in the page they start with
  (none, or a page made from a buffer); each increments the default block version.
  The fields that the constructors leave uninitialised are given the value 0.
\<close>

definition new_current_page_t :: "block_id_t \<Rightarrow> page_ptr option \<Rightarrow> current_page_t" where
  "new_current_page_t b po =
     \<lparr> block_id = b, page = po, is_deleted = False,
       last_write_acquirer = None,
       last_write_acquirer_version = subsequent 0,
       last_dirtier = None,
       last_dirtier_recency = 0,
       last_dirtier_version = 0,
       num_keepalives = 0,
       acquirers = [] \<rparr>"

text \<open>\<open>new current_page_t(block_id)\<close>.\<close>

definition alloc_current_page :: "block_id_t \<Rightarrow> page_cache_t \<Rightarrow> cp_ptr \<times> page_cache_t" where
  "alloc_current_page b pc =
     (next_cp pc,
      pc\<lparr> cp_store := (cp_store pc)(next_cp pc := new_current_page_t b None),
          next_cp := Suc (next_cp pc) \<rparr>)"

text \<open>\<open>new current_page_t(block_id, buf, page_cache)\<close> and the variant with a token.\<close>

definition alloc_current_page_buf :: "block_id_t \<Rightarrow> page_cache_t \<Rightarrow> cp_ptr \<times> page_cache_t" where
  "alloc_current_page_buf b pc =
     (let (p, pc1) = new_page_t True pc;
          pc2 = page_ptr_init p pc1
      in (next_cp pc2,
          pc2\<lparr> cp_store := (cp_store pc2)(next_cp pc2 := new_current_page_t b (Some p)),
               next_cp := Suc (next_cp pc2) \<rparr>))"

definition should_be_evicted :: "page_cache_t \<Rightarrow> current_page_t \<Rightarrow> bool" where
  "should_be_evicted pc cp =
     (if acquirers cp \<noteq> [] then False
      else if last_write_acquirer cp \<noteq> None then False
      else if last_dirtier cp \<noteq> None then False
      else if 0 < num_keepalives cp then False
      else case page cp of
             Some p \<Rightarrow>
               if is_loading (page_store pc p) \<or> has_waiters (page_store pc p)
                  \<or> is_loaded (page_store pc p) \<or> page_ptr_count (page_store pc p) \<noteq> 1
               then False else True
           | None \<Rightarrow> True)"

text \<open>
  \<open>current_page_t::reset\<close>. \<open>NULL_BLOCK_ID\<close> is a constant of another header: it is the
  parameter \<open>null_block_id\<close>.
\<close>

definition reset :: "block_id_t \<Rightarrow> cp_ptr \<Rightarrow> page_cache_t \<Rightarrow> page_cache_t" where
  "reset null_block_id c pc =
     (let cp = cp_store pc c;
          pc1 = reset_page_ptr (page cp) pc;
          cp1 = cp\<lparr> page := None, last_write_acquirer_version := 0 \<rparr>
      in if is_deleted cp1 \<and> block_id cp1 \<noteq> null_block_id
         then pc1\<lparr> cp_store := (cp_store pc1)(c := cp1\<lparr> block_id := null_block_id \<rparr>),
                   released_block_ids := released_block_ids pc1 @ [block_id cp1] \<rparr>
         else pc1\<lparr> cp_store := (cp_store pc1)(c := cp1) \<rparr>)"

definition consider_evicting_current_page ::
  "block_id_t \<Rightarrow> block_id_t \<Rightarrow> page_cache_t \<Rightarrow> page_cache_t" where
  "consider_evicting_current_page null_block_id b pc =
     (if read_ahead_cb pc then pc
      else case current_pages pc b of
             None \<Rightarrow> pc
           | Some page_ptr \<Rightarrow>
               if should_be_evicted pc (cp_store pc page_ptr)
               then reset null_block_id page_ptr
                      (pc\<lparr> current_pages := (current_pages pc)(b := None) \<rparr>)
               else pc)"

definition add_read_ahead_buf :: "block_id_t \<Rightarrow> page_cache_t \<Rightarrow> page_cache_t" where
  "add_read_ahead_buf b pc =
     (if \<not> read_ahead_cb pc then pc
      else if current_pages pc b \<noteq> None then pc
      else let (c, pc1) = alloc_current_page_buf b pc
           in pc1\<lparr> current_pages := (current_pages pc1)(b \<mapsto> c) \<rparr>)"

subsection \<open>Freshly constructed objects\<close>

text \<open>
  A default-constructed \<open>throttler_acq_t\<close> (the permit of a read transaction), the state
  that the constructor of \<open>page_txn_t\<close> establishes, a default-constructed
  \<open>current_page_acq_t\<close>, and a page cache in which nothing has been allocated yet.
  The constructor of \<open>page_txn_t\<close> is modelled without its \<open>cache_conn\<close>.
\<close>

definition default_throttler_acq_t :: throttler_acq_t where
  "default_throttler_acq_t =
     \<lparr> expected_change_count = 0, pre_spawn_flush = False,
       block_changes_semaphore_acq = 0, index_changes_semaphore_acq = 0 \<rparr>"

definition new_page_txn_t :: "throttler_acq_t \<Rightarrow> page_txn_t" where
  "new_page_txn_t acq =
     \<lparr> preceders = [], subseqers = [], live_acqs = 0,
       pages_write_acquired_last = [], pages_dirtied_last = [],
       snapshotted_dirtied_pages = [], touched_pages = [],
       throttler_acq = acq,
       began_waiting_for_flush = False, spawned_flush = False, mark = marked_not \<rparr>"

definition default_current_page_acq_t :: current_page_acq_t where
  "default_current_page_acq_t =
     \<lparr> page_cache = False, the_txn = None, access = access_read,
       declared_snapshotted = False, acq_block_id = 0, current_page = None,
       dirtied_page = False, touched_page = False, block_version = 0,
       read_cond = False, write_cond = False,
       snapshotted_page = \<lparr> tpp_timestamp = 0, tpp_page = None \<rparr> \<rparr>"

definition new_page_cache_t :: "bool \<Rightarrow> (block_id_t \<Rightarrow> repli_timestamp_t) \<Rightarrow> page_cache_t" where
  "new_page_cache_t start_read_ahead all_recencies =
     \<lparr> txn_store = (\<lambda>_. new_page_txn_t default_throttler_acq_t),
       acq_store = (\<lambda>_. default_current_page_acq_t),
       cp_store = (\<lambda>_. new_current_page_t 0 None),
       page_store = (\<lambda>_. \<lparr> is_loading = False, has_waiters = False,
                            is_loaded = False, page_ptr_count = 0 \<rparr>),
       current_pages = Map.empty,
       read_ahead_cb = start_read_ahead,
       recencies = all_recencies,
       next_cp = 0, next_page = 0, released_block_ids = [] \<rparr>"

subsection \<open>Change reconciliation\<close>

text \<open>
  \<open>page_cache_t::compute_changes\<close>. The \<open>std::unordered_map\<close> of changes is a map from
  block ids; \<open>insert\<close> fails on a block id that is already there, and the code then
  combines the two entries. The first loop runs \<open>insert_dirtied\<close> over the
  \<open>snapshotted_dirtied_pages_\<close> of every transaction, the second runs \<open>insert_touched\<close>
  over their \<open>touched_pages_\<close>.
\<close>

definition dirtied_change :: "dirtied_page_t \<Rightarrow> block_change_t" where
  "dirtied_change d =
     \<lparr> version = dp_block_version d,
       modified = True,
       change_page = (if tpp_page (dp_ptr d) \<noteq> None then tpp_page (dp_ptr d) else None),
       tstamp = (if tpp_page (dp_ptr d) \<noteq> None then tpp_timestamp (dp_ptr d) else invalid) \<rparr>"

definition insert_dirtied ::
  "dirtied_page_t \<Rightarrow> (block_id_t \<rightharpoonup> block_change_t) \<Rightarrow> (block_id_t \<rightharpoonup> block_change_t)" where
  "insert_dirtied d changes =
     (let change = dirtied_change d
      in case changes (dp_block_id d) of
           None \<Rightarrow> changes(dp_block_id d \<mapsto> change)
         | Some jt \<Rightarrow>
             if version jt < version change
             then changes(dp_block_id d \<mapsto> change)
             else changes)"

definition insert_touched ::
  "touched_page_t \<Rightarrow> (block_id_t \<rightharpoonup> block_change_t) \<Rightarrow> (block_id_t \<rightharpoonup> block_change_t)" where
  "insert_touched t changes =
     (case changes (tp_block_id t) of
        None \<Rightarrow>
          changes(tp_block_id t \<mapsto>
            \<lparr> version = tp_block_version t, modified = False,
              change_page = None, tstamp = tp_tstamp t \<rparr>)
      | Some jt \<Rightarrow>
          if version jt < tp_block_version t
          then changes(tp_block_id t \<mapsto>
                 jt\<lparr> tstamp := tp_tstamp t, version := tp_block_version t \<rparr>)
          else changes)"

definition compute_changes ::
  "(txn_ptr \<Rightarrow> page_txn_t) \<Rightarrow> txn_ptr list \<Rightarrow> (block_id_t \<rightharpoonup> block_change_t)" where
  "compute_changes h txns =
     (let changes = fold (\<lambda>txn. fold insert_dirtied (snapshotted_dirtied_pages (h txn)))
                      txns Map.empty
      in fold (\<lambda>txn. fold insert_touched (touched_pages (h txn))) txns changes)"

text \<open>
  The conditions of the two \<open>rassert\<close>s of the second loop, for a touched page that
  collides with the entry \<open>jt\<close>: the versions differ, and a touched page of greater
  version carries the superceding timestamp.
\<close>

definition touched_rasserts :: "block_change_t \<Rightarrow> touched_page_t \<Rightarrow> bool" where
  "touched_rasserts jt t \<longleftrightarrow>
     version jt \<noteq> tp_block_version t
     \<and> (version jt < tp_block_version t
          \<longrightarrow> tp_tstamp t = superceding_recency (tstamp jt) (tp_tstamp t))"

text \<open>
  The entries of the transactions \<open>txns\<close> for block \<open>b\<close>, in the order of the two loops.
\<close>

definition dirtied_entries ::
  "(txn_ptr \<Rightarrow> page_txn_t) \<Rightarrow> txn_ptr list \<Rightarrow> block_id_t \<Rightarrow> dirtied_page_t list" where
  "dirtied_entries h txns b =
     filter (\<lambda>d. dp_block_id d = b) (concat (map (\<lambda>txn. snapshotted_dirtied_pages (h txn)) txns))"

definition touched_entries ::
  "(txn_ptr \<Rightarrow> page_txn_t) \<Rightarrow> txn_ptr list \<Rightarrow> block_id_t \<Rightarrow> touched_page_t list" where
  "touched_entries h txns b =
     filter (\<lambda>t. tp_block_id t = b) (concat (map (\<lambda>txn. touched_pages (h txn)) txns))"

text \<open>
  The scenario of the specification: transaction 1 dirtied block 3 at version 5 with
  timestamp 10 (its page is page 0), transaction 2 touched block 3 at version 6 with
  timestamp \<open>ts\<close>.
\<close>

definition example_txns :: "repli_timestamp_t \<Rightarrow> txn_ptr \<Rightarrow> page_txn_t" where
  "example_txns ts =
     (\<lambda>_. new_page_txn_t default_throttler_acq_t)
       (1 := (new_page_txn_t default_throttler_acq_t)
          \<lparr> snapshotted_dirtied_pages :=
              [\<lparr> dp_block_version = 5, dp_block_id = 3,
                 dp_ptr = \<lparr> tpp_timestamp = 10, tpp_page = Some 0 \<rparr> \<rparr>] \<rparr>,
        2 := (new_page_txn_t default_throttler_acq_t)
          \<lparr> touched_pages :=
              [\<lparr> tp_block_version = 6, tp_block_id = 3, tp_tstamp = ts \<rparr>] \<rparr>)"

text \<open>
  A flush set with two dirtied entries and two touched entries for block 3: transaction 1
  dirtied it at version 5 (timestamp 10, page 0), transaction 2 dirtied it at version 7
  (timestamp 11, page 1) and touched it at version 6 (timestamp 12), transaction 3
  touched it at version 9 (timestamp 14) and touched block 4 at version 2.
\<close>

definition merge_example :: "txn_ptr \<Rightarrow> page_txn_t" where
  "merge_example =
     (\<lambda>_. new_page_txn_t default_throttler_acq_t)
       (1 := (new_page_txn_t default_throttler_acq_t)
          \<lparr> snapshotted_dirtied_pages :=
              [\<lparr> dp_block_version = 5, dp_block_id = 3,
                 dp_ptr = \<lparr> tpp_timestamp = 10, tpp_page = Some 0 \<rparr> \<rparr>] \<rparr>,
        2 := (new_page_txn_t default_throttler_acq_t)
          \<lparr> snapshotted_dirtied_pages :=
              [\<lparr> dp_block_version = 7, dp_block_id = 3,
                 dp_ptr = \<lparr> tpp_timestamp = 11, tpp_page = Some 1 \<rparr> \<rparr>],
            touched_pages :=
              [\<lparr> tp_block_version = 6, tp_block_id = 3, tp_tstamp = 12 \<rparr>] \<rparr>,
        3 := (new_page_txn_t default_throttler_acq_t)
          \<lparr> touched_pages :=
              [\<lparr> tp_block_version = 9, tp_block_id = 3, tp_tstamp = 14 \<rparr>,
               \<lparr> tp_block_version = 2, tp_block_id = 4, tp_tstamp = 13 \<rparr>] \<rparr>)"

subsection \<open>The transaction graph\<close>

text \<open>
  Modelled from the spec: \<open>page_txn_t::dirtied_page_count\<close>, defined in the header: the
  transaction's "current dirty-page count", the pages it dirtied last together with
  the snapshots it holds.
\<close>

definition dirtied_page_count :: "page_txn_t \<Rightarrow> int" where
  "dirtied_page_count t =
     int (length (pages_dirtied_last t) + length (snapshotted_dirtied_pages t))"

text \<open>\<open>p->throttler_acq_.set_pre_spawn_flush(p->dirtied_page_count())\<close>.\<close>

definition enter_pre_spawn_flush :: "page_txn_t \<Rightarrow> page_txn_t" where
  "enter_pre_spawn_flush t =
     t\<lparr> throttler_acq := set_pre_spawn_flush (dirtied_page_count t) (throttler_acq t) \<rparr>"

text \<open>
  \<open>page_txn_t::propagate_pre_spawn_flush\<close>, on the store of the transactions. The
  \<open>std::vector\<close> used as a stack grows at its end; \<open>None\<close> means that the loop does not
  end.
\<close>

definition propagate_visit ::
  "txn_ptr \<Rightarrow> (txn_ptr \<Rightarrow> page_txn_t) \<times> txn_ptr list
     \<Rightarrow> (txn_ptr \<Rightarrow> page_txn_t) \<times> txn_ptr list" where
  "propagate_visit p = (\<lambda>(h, stack).
     if \<not> pre_spawn_flush (throttler_acq (h p))
     then (h(p := enter_pre_spawn_flush (h p)), stack @ [p])
     else (h, stack))"

definition propagate_step ::
  "(txn_ptr \<Rightarrow> page_txn_t) \<times> txn_ptr list \<Rightarrow> (txn_ptr \<Rightarrow> page_txn_t) \<times> txn_ptr list" where
  "propagate_step = (\<lambda>(h, stack).
     let txn = last stack;
         stack = butlast stack
     in fold propagate_visit (preceders (h txn)) (h, stack))"

definition propagate_pre_spawn_flush ::
  "txn_ptr \<Rightarrow> (txn_ptr \<Rightarrow> page_txn_t) \<Rightarrow> (txn_ptr \<Rightarrow> page_txn_t) option" where
  "propagate_pre_spawn_flush base h =
     (if pre_spawn_flush (throttler_acq (h base)) then Some h
      else map_option fst
             (while_option (\<lambda>(h, stack). stack \<noteq> []) propagate_step
                (h(base := enter_pre_spawn_flush (h base)), [base])))"

text \<open>\<open>this_txn->connect_preceder(preceder)\<close>.\<close>

definition connect_preceder ::
  "txn_ptr \<Rightarrow> txn_ptr \<Rightarrow> (txn_ptr \<Rightarrow> page_txn_t) \<Rightarrow> (txn_ptr \<Rightarrow> page_txn_t) option" where
  "connect_preceder this_txn preceder h =
     (if preceder \<notin> set (preceders (h this_txn))
      then
        let h1 = h(this_txn := (h this_txn)
                     \<lparr> preceders := preceders (h this_txn) @ [preceder] \<rparr>);
            h2 = h1(preceder := (h1 preceder)
                      \<lparr> subseqers := subseqers (h1 preceder) @ [this_txn] \<rparr>)
        in if pre_spawn_flush (throttler_acq (h2 this_txn))
           then propagate_pre_spawn_flush preceder h2
           else Some h2
      else Some h)"

subsection \<open>Updating the stores\<close>

definition update_txn :: "txn_ptr \<Rightarrow> (page_txn_t \<Rightarrow> page_txn_t) \<Rightarrow> page_cache_t \<Rightarrow> page_cache_t" where
  "update_txn t f pc = pc\<lparr> txn_store := (txn_store pc)(t := f (txn_store pc t)) \<rparr>"

definition update_acq ::
  "acq_ptr \<Rightarrow> (current_page_acq_t \<Rightarrow> current_page_acq_t) \<Rightarrow> page_cache_t \<Rightarrow> page_cache_t" where
  "update_acq a f pc = pc\<lparr> acq_store := (acq_store pc)(a := f (acq_store pc a)) \<rparr>"

definition update_cp ::
  "cp_ptr \<Rightarrow> (current_page_t \<Rightarrow> current_page_t) \<Rightarrow> page_cache_t \<Rightarrow> page_cache_t" where
  "update_cp c f pc = pc\<lparr> cp_store := (cp_store pc)(c := f (cp_store pc c)) \<rparr>"

subsection \<open>The page of a current page\<close>

text \<open>
  \<open>current_page_t::convert_from_serializer_if_necessary(help)\<close> and
  \<open>current_page_t::the_page_for_read_or_deleted\<close>, which returns the page, or null for a
  deleted block.
\<close>

definition convert_from_serializer_if_necessary :: "cp_ptr \<Rightarrow> page_cache_t \<Rightarrow> page_cache_t" where
  "convert_from_serializer_if_necessary c pc =
     (if page (cp_store pc c) = None
      then let (p, pc1) = new_page_t False pc;
               pc2 = page_ptr_init p pc1
           in update_cp c (\<lambda>cp. cp\<lparr> page := Some p \<rparr>) pc2
      else pc)"

definition the_page_for_read_or_deleted ::
  "cp_ptr \<Rightarrow> page_cache_t \<Rightarrow> page_ptr option \<times> page_cache_t" where
  "the_page_for_read_or_deleted c pc =
     (if is_deleted (cp_store pc c) then (None, pc)
      else let pc1 = convert_from_serializer_if_necessary c pc
           in (page (cp_store pc1 c), pc1))"

subsection \<open>The dirtier handoff\<close>

text \<open>
  \<open>current_page_acq_t::dirty_the_page\<close> for the acquirer \<open>a\<close>. The acquirer's
  \<open>current_page_\<close> and \<open>the_txn_\<close> are dereferenced: the call fails when one is null.
\<close>

definition take_dirtier_snapshot ::
  "cp_ptr \<Rightarrow> block_id_t \<Rightarrow> txn_ptr \<Rightarrow> page_cache_t \<Rightarrow> page_cache_t" where
  "take_dirtier_snapshot c b prec pc =
     (let (pg, pc1) = the_page_for_read_or_deleted c pc;
          (tpp, pc2) = tpp_init (last_dirtier_recency (cp_store pc c)) pg pc1
      in update_txn prec
           (\<lambda>t. t\<lparr> snapshotted_dirtied_pages := snapshotted_dirtied_pages t
                      @ [\<lparr> dp_block_version = last_dirtier_version (cp_store pc2 c),
                           dp_block_id = b,
                           dp_ptr = tpp \<rparr>] \<rparr>)
           pc2)"

definition dirty_the_page :: "acq_ptr \<Rightarrow> page_cache_t \<Rightarrow> failure + page_cache_t" where
  "dirty_the_page a pc =
     (case (current_page (acq_store pc a), the_txn (acq_store pc a)) of
        (Some c, Some tx) \<Rightarrow>
          let pc = update_acq a (\<lambda>acq. acq\<lparr> dirtied_page := True \<rparr>) pc;
              prec = last_dirtier (cp_store pc c);
              handed =
                (if prec \<noteq> Some tx
                 then
                   let connected =
                         (case prec of
                            None \<Rightarrow> Some pc
                          | Some p \<Rightarrow>
                              let pc = update_txn p
                                         (\<lambda>t. t\<lparr> pages_dirtied_last :=
                                                    remove1 c (pages_dirtied_last t) \<rparr>) pc
                              in if pre_spawn_flush (throttler_acq (txn_store pc p))
                                 then Some (take_dirtier_snapshot c
                                              (acq_block_id (acq_store pc a)) p pc)
                                 else map_option (\<lambda>h. pc\<lparr> txn_store := h \<rparr>)
                                        (connect_preceder p tx (txn_store pc)))
                   in map_option
                        (\<lambda>pc.
                           let pc = update_txn tx
                                      (\<lambda>t. t\<lparr> pages_dirtied_last :=
                                                 pages_dirtied_last t @ [c] \<rparr>) pc;
                               pc = update_txn tx
                                      (\<lambda>t. t\<lparr> throttler_acq :=
                                                 update_dirty_page_count (dirtied_page_count t)
                                                   (throttler_acq t) \<rparr>) pc
                           in case prec of
                                None \<Rightarrow> pc
                              | Some p \<Rightarrow>
                                  update_txn p
                                    (\<lambda>t. t\<lparr> throttler_acq :=
                                               update_dirty_page_count (dirtied_page_count t)
                                                 (throttler_acq t) \<rparr>) pc)
                        connected
                 else Some pc)
          in (case handed of
                None \<Rightarrow> Inl Diverges
              | Some pc \<Rightarrow>
                  Inr (update_cp c
                         (\<lambda>cp. cp\<lparr> last_dirtier := Some tx,
                                    last_dirtier_recency :=
                                      recency_for_block_id pc (acq_block_id (acq_store pc a)),
                                    last_dirtier_version := block_version (acq_store pc a) \<rparr>)
                         pc))
      | _ \<Rightarrow> Inl Null_dereference)"

subsection \<open>Example states for the dirtier handoff\<close>

text \<open>
  Transaction 1 dirtied block 9 last, through the current page 0; \<open>flushing\<close> tells whether
  it is in pre-spawn-flush state. Transaction 3 write-acquired the page after it, without
  dirtying it. Transaction 2 came third and holds the write acquirer 0 of the page, at the
  head of the queue, with block version 4. The edges are those that \<open>add_acquirer\<close> made:
  1 precedes 3, and 3 precedes 2.
\<close>

definition handoff_example :: "bool \<Rightarrow> page_cache_t" where
  "handoff_example flushing =
     (new_page_cache_t False (\<lambda>_. distant_past))
       \<lparr> txn_store := (\<lambda>_. new_page_txn_t default_throttler_acq_t)
           (1 := (new_page_txn_t (default_throttler_acq_t
                    \<lparr> pre_spawn_flush := flushing,
                      block_changes_semaphore_acq := 1, index_changes_semaphore_acq := 1 \<rparr>))
                   \<lparr> pages_dirtied_last := [0], subseqers := [3] \<rparr>,
            3 := (new_page_txn_t default_throttler_acq_t)
                   \<lparr> preceders := [1], subseqers := [2] \<rparr>,
            2 := (new_page_txn_t default_throttler_acq_t)
                   \<lparr> live_acqs := 1, pages_write_acquired_last := [0], preceders := [3] \<rparr>),
         acq_store := (\<lambda>_. default_current_page_acq_t)
           (0 := default_current_page_acq_t
                   \<lparr> page_cache := True, the_txn := Some 2, access := access_write,
                     acq_block_id := 9, current_page := Some 0,
                     block_version := 4, read_cond := True, write_cond := True \<rparr>),
         cp_store := (\<lambda>_. new_current_page_t 0 None)
           (0 := (new_current_page_t 9 None)
                   \<lparr> last_write_acquirer := Some 2, last_write_acquirer_version := 4,
                     last_dirtier := Some 1, last_dirtier_recency := 5,
                     last_dirtier_version := 2, acquirers := [0] \<rparr>),
         current_pages := [9 \<mapsto> 0],
         next_cp := 1 \<rparr>"

text \<open>
  What a transaction holds once an operation has returned: its preceders, its subseqers
  and its snapshots of dirtied pages (nothing when the operation failed).
\<close>

definition preceders_after :: "failure + page_cache_t \<Rightarrow> txn_ptr \<Rightarrow> txn_ptr list option" where
  "preceders_after r t =
     (case r of Inl _ \<Rightarrow> None | Inr pc \<Rightarrow> Some (preceders (txn_store pc t)))"

definition subseqers_after :: "failure + page_cache_t \<Rightarrow> txn_ptr \<Rightarrow> txn_ptr list option" where
  "subseqers_after r t =
     (case r of Inl _ \<Rightarrow> None | Inr pc \<Rightarrow> Some (subseqers (txn_store pc t)))"

definition snapshots_after :: "failure + page_cache_t \<Rightarrow> txn_ptr \<Rightarrow> dirtied_page_t list option" where
  "snapshots_after r t =
     (case r of Inl _ \<Rightarrow> None | Inr pc \<Rightarrow> Some (snapshotted_dirtied_pages (txn_store pc t)))"

subsection \<open>The acquirer queue\<close>

text \<open>
  The intrusive list \<open>acquirers_\<close> is a list of acquirer pointers. An acquirer is found
  in it by its position, \<open>next\<close> is the following position, \<open>prev(acq) == nullptr\<close> holds
  at position 0, and \<open>remove\<close> deletes the position.
\<close>

definition list_index :: "'a list \<Rightarrow> 'a \<Rightarrow> nat" where
  "list_index q a = length (takeWhile (\<lambda>x. x \<noteq> a) q)"

definition remove_nth :: "nat \<Rightarrow> 'a list \<Rightarrow> 'a list" where
  "remove_nth i q = take i q @ drop (Suc i) q"

definition pulse_read_available :: "acq_ptr \<Rightarrow> page_cache_t \<Rightarrow> page_cache_t" where
  "pulse_read_available a = update_acq a (\<lambda>acq. acq\<lparr> read_cond := True \<rparr>)"

definition pulse_write_available :: "acq_ptr \<Rightarrow> page_cache_t \<Rightarrow> page_cache_t" where
  "pulse_write_available a = update_acq a (\<lambda>acq. acq\<lparr> write_cond := True \<rparr>)"

text \<open>
  The body of the branch for a snapshotted reader in \<open>pulse_pulsables\<close>: the acquirer at
  position \<open>i\<close> takes its snapshot and leaves the queue.
\<close>

definition snapshot_and_remove ::
  "repli_timestamp_t \<Rightarrow> cp_ptr \<Rightarrow> nat \<Rightarrow> page_cache_t \<Rightarrow> page_cache_t" where
  "snapshot_and_remove current_recency c i pc =
     (let cur = acquirers (cp_store pc c) ! i;
          (pg, pc1) = the_page_for_read_or_deleted c pc;
          (tpp, pc2) = tpp_init current_recency pg pc1;
          pc3 = update_acq cur (\<lambda>acq. acq\<lparr> snapshotted_page := tpp \<rparr>) pc2
      in update_cp c (\<lambda>cp. cp\<lparr> acquirers := remove_nth i (acquirers cp) \<rparr>) pc3)"

lemma acquirers_snapshot_and_remove:
  "acquirers (cp_store (snapshot_and_remove r c i pc) c) = remove_nth i (acquirers (cp_store pc c))"
  by (simp add: snapshot_and_remove_def the_page_for_read_or_deleted_def tpp_init_def
      convert_from_serializer_if_necessary_def new_page_t_def page_ptr_init_def
      update_acq_def update_cp_def Let_def split: option.splits prod.splits)

lemma acquirers_pulse_read_available:
  "acquirers (cp_store (pulse_read_available a pc) c) = acquirers (cp_store pc c)"
  by (simp add: pulse_read_available_def update_acq_def)

text \<open>The \<open>while (cur != nullptr)\<close> loop of \<open>pulse_pulsables\<close>, with \<open>cur\<close> at position \<open>i\<close>.\<close>

function pulse_loop ::
  "repli_timestamp_t \<Rightarrow> cp_ptr \<Rightarrow> nat \<Rightarrow> page_cache_t \<Rightarrow> failure + page_cache_t" where
  "pulse_loop current_recency c i pc =
     (if length (acquirers (cp_store pc c)) \<le> i then Inr pc
      else
        let cur = acquirers (cp_store pc c) ! i;
            pc1 = pulse_read_available cur pc
        in if access (acq_store pc1 cur) = access_read
           then if declared_snapshotted (acq_store pc1 cur)
                then pulse_loop current_recency c i (snapshot_and_remove current_recency c i pc1)
                else pulse_loop current_recency c (Suc i) pc1
           else if i = 0
                then if is_deleted (cp_store pc1 c) then Inl Guarantee_failed
                     else Inr (pulse_write_available cur pc1)
                else Inr pc1)"
  by pat_completeness auto
termination
  by (relation "measure (\<lambda>(r, c, i, pc). length (acquirers (cp_store pc c)) - i)")
    (auto simp add: acquirers_snapshot_and_remove acquirers_pulse_read_available remove_nth_def)

declare pulse_loop.simps [simp del]

text \<open>\<open>current_page_t::pulse_pulsables\<close>.\<close>

definition pulse_pulsables :: "cp_ptr \<Rightarrow> acq_ptr \<Rightarrow> page_cache_t \<Rightarrow> failure + page_cache_t" where
  "pulse_pulsables c acq pc =
     (let q = acquirers (cp_store pc c);
          i = list_index q acq
      in if length q \<le> i then Inl Not_in_list
         else if \<not> (i = 0 \<or> (access (acq_store pc (q ! (i - 1))) = access_read
                               \<and> read_cond (acq_store pc (q ! (i - 1)))))
         then Inr pc
         else if access (acq_store pc acq) = access_read \<and> read_cond (acq_store pc acq)
                 \<and> \<not> declared_snapshotted (acq_store pc acq)
                 \<and> (length q \<le> Suc i \<or> read_cond (acq_store pc (q ! Suc i)))
         then Inr pc
         else pulse_loop (recency_for_block_id pc (acq_block_id (acq_store pc acq))) c i pc)"

text \<open>\<open>current_page_t::add_acquirer\<close>.\<close>

definition add_acquirer :: "cp_ptr \<Rightarrow> acq_ptr \<Rightarrow> page_cache_t \<Rightarrow> failure + page_cache_t" where
  "add_acquirer c acq pc =
     (let prev_version = last_write_acquirer_version (cp_store pc c);
          versioned =
            (if access (acq_store pc acq) = access_write
             then
               let v = subsequent prev_version;
                   pc = update_acq acq (\<lambda>a. a\<lparr> block_version := v \<rparr>) pc;
                   pc = update_cp c (\<lambda>cp. cp\<lparr> last_write_acquirer_version := v \<rparr>) pc
               in if last_write_acquirer (cp_store pc c) \<noteq> the_txn (acq_store pc acq)
                  then
                    (case the_txn (acq_store pc acq) of
                       None \<Rightarrow> Inl Null_dereference
                     | Some acq_txn \<Rightarrow>
                         let connected =
                               (case last_write_acquirer (cp_store pc c) of
                                  None \<Rightarrow> Some pc
                                | Some prec \<Rightarrow>
                                    let pc = update_txn prec
                                               (\<lambda>t. t\<lparr> pages_write_acquired_last :=
                                                          remove1 c (pages_write_acquired_last t) \<rparr>)
                                               pc
                                    in map_option (\<lambda>h. pc\<lparr> txn_store := h \<rparr>)
                                         (connect_preceder acq_txn prec (txn_store pc)))
                         in (case connected of
                               None \<Rightarrow> Inl Diverges
                             | Some pc \<Rightarrow>
                                 let pc = update_txn acq_txn
                                            (\<lambda>t. t\<lparr> pages_write_acquired_last :=
                                                       pages_write_acquired_last t @ [c] \<rparr>)
                                            pc
                                 in Inr (update_cp c
                                           (\<lambda>cp. cp\<lparr> last_write_acquirer := Some acq_txn \<rparr>)
                                           pc)))
                  else Inr pc
             else Inr (update_acq acq (\<lambda>a. a\<lparr> block_version := prev_version \<rparr>) pc))
      in case versioned of
           Inl e \<Rightarrow> Inl e
         | Inr pc \<Rightarrow>
             pulse_pulsables c acq
               (update_cp c (\<lambda>cp. cp\<lparr> acquirers := acquirers cp @ [acq] \<rparr>) pc))"

text \<open>\<open>current_page_t::remove_acquirer\<close>.\<close>

definition remove_acquirer :: "cp_ptr \<Rightarrow> acq_ptr \<Rightarrow> page_cache_t \<Rightarrow> failure + page_cache_t" where
  "remove_acquirer c acq pc =
     (let q = acquirers (cp_store pc c);
          i = list_index q acq
      in if length q \<le> i then Inl Not_in_list
         else
           let next_acq = (if Suc i < length q then Some (q ! Suc i) else None);
               pc = update_cp c (\<lambda>cp. cp\<lparr> acquirers := remove_nth i (acquirers cp) \<rparr>) pc
           in case next_acq of
                None \<Rightarrow> Inr pc
              | Some n \<Rightarrow> pulse_pulsables c n pc)"

definition add_keepalive :: "cp_ptr \<Rightarrow> page_cache_t \<Rightarrow> page_cache_t" where
  "add_keepalive c = update_cp c (\<lambda>cp. cp\<lparr> num_keepalives := Suc (num_keepalives cp) \<rparr>)"

definition remove_keepalive :: "cp_ptr \<Rightarrow> page_cache_t \<Rightarrow> failure + page_cache_t" where
  "remove_keepalive c pc =
     (if 0 < num_keepalives (cp_store pc c)
      then Inr (update_cp c (\<lambda>cp. cp\<lparr> num_keepalives := num_keepalives cp - 1 \<rparr>) pc)
      else Inl Guarantee_failed)"

subsection \<open>The life of an acquirer\<close>

text \<open>
  \<open>page_cache_t::page_for_block_id\<close> and \<open>page_cache_t::page_for_new_chosen_block_id\<close>
  with \<open>internal_page_for_new_chosen\<close>. The free list is not modelled.
  \<open>is_aux_block_id\<close> is a function of another header: it is the parameter \<open>is_aux\<close>.
\<close>

definition page_for_block_id :: "block_id_t \<Rightarrow> page_cache_t \<Rightarrow> cp_ptr \<times> page_cache_t" where
  "page_for_block_id b pc =
     (case current_pages pc b of
        None \<Rightarrow>
          let (c, pc1) = alloc_current_page b pc
          in (c, pc1\<lparr> current_pages := (current_pages pc1)(b \<mapsto> c) \<rparr>)
      | Some c \<Rightarrow> (c, pc))"

definition set_recency_for_block_id ::
  "block_id_t \<Rightarrow> repli_timestamp_t \<Rightarrow> page_cache_t \<Rightarrow> page_cache_t" where
  "set_recency_for_block_id b r pc = pc\<lparr> recencies := (recencies pc)(b := r) \<rparr>"

definition page_for_new_chosen_block_id ::
  "(block_id_t \<Rightarrow> bool) \<Rightarrow> block_id_t \<Rightarrow> page_cache_t \<Rightarrow> failure + cp_ptr \<times> page_cache_t" where
  "page_for_new_chosen_block_id is_aux b pc =
     (let pc = (if \<not> is_aux b then set_recency_for_block_id b distant_past pc else pc);
          (c, pc1) = alloc_current_page_buf b pc
      in if current_pages pc1 b = None
         then Inr (c, pc1\<lparr> current_pages := (current_pages pc1)(b \<mapsto> c) \<rparr>)
         else Inl Guarantee_failed)"

text \<open>
  \<open>current_page_acq_t::init(page_cache, block_id, read_access_t)\<close> and
  \<open>current_page_acq_t::init(txn, block_id, access, create)\<close>.
\<close>

definition init_fields ::
  "txn_ptr option \<Rightarrow> access_t \<Rightarrow> block_id_t \<Rightarrow> current_page_acq_t \<Rightarrow> current_page_acq_t" where
  "init_fields txn acc b acq =
     acq\<lparr> page_cache := True, the_txn := txn, access := acc,
          declared_snapshotted := False, acq_block_id := b,
          dirtied_page := False, touched_page := False \<rparr>"

definition init_read :: "acq_ptr \<Rightarrow> block_id_t \<Rightarrow> page_cache_t \<Rightarrow> failure + page_cache_t" where
  "init_read a b pc =
     (if page_cache (acq_store pc a) then Inl Guarantee_failed
      else
        let pc = update_acq a (init_fields None access_read b) pc;
            (c, pc) = page_for_block_id b pc;
            pc = update_acq a (\<lambda>acq. acq\<lparr> current_page := Some c \<rparr>) pc
        in add_acquirer c a pc)"

definition init ::
  "(block_id_t \<Rightarrow> bool) \<Rightarrow> acq_ptr \<Rightarrow> txn_ptr \<Rightarrow> block_id_t \<Rightarrow> access_t \<Rightarrow> bool \<Rightarrow> page_cache_t
     \<Rightarrow> failure + page_cache_t" where
  "init is_aux a txn b acc create pc =
     (if acc = access_read then init_read a b pc
      else if page_cache (acq_store pc a) then Inl Guarantee_failed
      else
        let pc = update_acq a (init_fields (Some txn) acc b) pc
        in case (if create then page_for_new_chosen_block_id is_aux b pc
                 else Inr (page_for_block_id b pc)) of
             Inl e \<Rightarrow> Inl e
           | Inr (c, pc) \<Rightarrow>
               let pc = update_acq a (\<lambda>acq. acq\<lparr> current_page := Some c \<rparr>) pc;
                   pc = update_txn txn (\<lambda>t. t\<lparr> live_acqs := Suc (live_acqs t) \<rparr>) pc
               in add_acquirer c a pc)"

text \<open>
  \<open>page_txn_t::remove_acquirer\<close>, called by the destructor of a write acquirer.
  \<open>acq->recency()\<close> waits for the write signal of the acquirer.
\<close>

definition txn_remove_acquirer :: "txn_ptr \<Rightarrow> acq_ptr \<Rightarrow> page_cache_t \<Rightarrow> failure + page_cache_t" where
  "txn_remove_acquirer txn a pc =
     (let acq = acq_store pc a
      in if access acq \<noteq> access_write then Inl Guarantee_failed
         else
           let pc = update_txn txn (\<lambda>t. t\<lparr> live_acqs := live_acqs t - 1 \<rparr>) pc
           in if dirtied_page acq then Inr pc
              else if touched_page acq
              then if \<not> write_cond acq then Inl Blocks
                   else Inr (update_txn txn
                          (\<lambda>t. t\<lparr> touched_pages := touched_pages t
                                     @ [\<lparr> tp_block_version = block_version acq,
                                          tp_block_id = acq_block_id acq,
                                          tp_tstamp =
                                            (if tpp_page (snapshotted_page acq) \<noteq> None
                                             then tpp_timestamp (snapshotted_page acq)
                                             else recency_for_block_id pc (acq_block_id acq)) \<rparr>] \<rparr>)
                          pc)
              else Inr pc)"

text \<open>Sequencing of two operations: the second runs when the first has not failed.\<close>

definition and_then :: "failure + 'a \<Rightarrow> ('a \<Rightarrow> failure + 'b) \<Rightarrow> failure + 'b" where
  "and_then r f = (case r of Inl e \<Rightarrow> Inl e | Inr x \<Rightarrow> f x)"

text \<open>
  \<open>current_page_acq_t::~current_page_acq_t\<close>. \<open>release_snapshot\<close> is
  \<open>snapshotted_page_.reset_page_ptr(page_cache_)\<close>.
\<close>

definition release_snapshot :: "acq_ptr \<Rightarrow> page_cache_t \<Rightarrow> page_cache_t" where
  "release_snapshot a pc =
     update_acq a
       (\<lambda>acq. acq\<lparr> snapshotted_page := (snapshotted_page acq)\<lparr> tpp_page := None \<rparr> \<rparr>)
       (reset_page_ptr (tpp_page (snapshotted_page (acq_store pc a))) pc)"

text \<open>
  The three conditional steps of the destructor: the transaction forgets the acquirer,
  the acquirer leaves the queue if it is still in it, and a snapshotted acquirer gives
  up its snapshot and its keepalive.
\<close>

definition destroy_txn_part :: "acq_ptr \<Rightarrow> page_cache_t \<Rightarrow> failure + page_cache_t" where
  "destroy_txn_part a pc =
     (case the_txn (acq_store pc a) of
        None \<Rightarrow> Inr pc
      | Some txn \<Rightarrow> txn_remove_acquirer txn a pc)"

definition destroy_queue_part :: "cp_ptr \<Rightarrow> acq_ptr \<Rightarrow> page_cache_t \<Rightarrow> failure + page_cache_t" where
  "destroy_queue_part c a pc =
     (if a \<in> set (acquirers (cp_store pc c)) then remove_acquirer c a pc else Inr pc)"

definition destroy_snapshot_part :: "cp_ptr \<Rightarrow> acq_ptr \<Rightarrow> page_cache_t \<Rightarrow> failure + page_cache_t" where
  "destroy_snapshot_part c a pc =
     (if declared_snapshotted (acq_store pc a)
      then remove_keepalive c (release_snapshot a pc)
      else Inr pc)"

definition destroy :: "block_id_t \<Rightarrow> acq_ptr \<Rightarrow> page_cache_t \<Rightarrow> failure + page_cache_t" where
  "destroy null_block_id a pc =
     (if \<not> page_cache (acq_store pc a) then Inr pc
      else
        and_then (destroy_txn_part a pc)
          (\<lambda>pc.
             case current_page (acq_store pc a) of
               None \<Rightarrow> Inl Null_dereference
             | Some c \<Rightarrow>
                 and_then (destroy_queue_part c a pc)
                   (\<lambda>pc.
                      and_then (destroy_snapshot_part c a pc)
                        (\<lambda>pc.
                           Inr (consider_evicting_current_page null_block_id
                                  (acq_block_id (acq_store pc a)) pc)))))"

text \<open>\<open>current_page_acq_t::declare_readonly\<close> and \<open>declare_snapshotted\<close>.\<close>

definition declare_readonly :: "acq_ptr \<Rightarrow> page_cache_t \<Rightarrow> failure + page_cache_t" where
  "declare_readonly a pc =
     (let pc = update_acq a (\<lambda>acq. acq\<lparr> access := access_read \<rparr>) pc
      in case current_page (acq_store pc a) of
           None \<Rightarrow> Inr pc
         | Some c \<Rightarrow> pulse_pulsables c a pc)"

definition declare_snapshotted :: "acq_ptr \<Rightarrow> page_cache_t \<Rightarrow> failure + page_cache_t" where
  "declare_snapshotted a pc =
     (if \<not> declared_snapshotted (acq_store pc a)
      then
        let pc = update_acq a (\<lambda>acq. acq\<lparr> declared_snapshotted := True \<rparr>) pc
        in case current_page (acq_store pc a) of
             None \<Rightarrow> Inl Null_dereference
           | Some c \<Rightarrow> pulse_pulsables c a (add_keepalive c pc)
      else Inr pc)"

subsection \<open>Sequences of calls\<close>

text \<open>
  The calls that a client makes on acquirers, and a sequence of such calls run from a
  state of the page cache; the run stops at the first call that fails. The record
  \<open>header_t\<close> holds the two names that come from other headers.
\<close>

record header_t =
  NULL_BLOCK_ID :: block_id_t
  is_aux_block_id :: "block_id_t \<Rightarrow> bool"

datatype acq_call =
    Init acq_ptr txn_ptr block_id_t access_t bool
  | Init_read acq_ptr block_id_t
  | Destroy acq_ptr
  | Declare_readonly acq_ptr
  | Declare_snapshotted acq_ptr

fun call :: "header_t \<Rightarrow> acq_call \<Rightarrow> page_cache_t \<Rightarrow> failure + page_cache_t" where
  "call hdr (Init a txn b acc create) pc = init (is_aux_block_id hdr) a txn b acc create pc"
| "call hdr (Init_read a b) pc = init_read a b pc"
| "call hdr (Destroy a) pc = destroy (NULL_BLOCK_ID hdr) a pc"
| "call hdr (Declare_readonly a) pc = declare_readonly a pc"
| "call hdr (Declare_snapshotted a) pc = declare_snapshotted a pc"

fun run :: "header_t \<Rightarrow> acq_call list \<Rightarrow> page_cache_t \<Rightarrow> failure + page_cache_t" where
  "run hdr [] pc = Inr pc"
| "run hdr (x # xs) pc = and_then (call hdr x pc) (run hdr xs)"

subsection \<open>The invariant of the acquirer queues\<close>

text \<open>
  \<open>no_read_behind_write pc c\<close>: in the queue of the current page \<open>c\<close>, no acquirer that
  stands behind an acquirer with write access has had its read signal pulsed.
  \<open>fifo_inv\<close> adds what makes this an invariant of the calls on acquirers: the queues hold
  no acquirer twice, the acquirers in the queue of \<open>c\<close> have been initialised for \<open>c\<close>, and
  the read signal of an acquirer that has not been initialised is not pulsed.
\<close>

definition no_read_behind_write :: "page_cache_t \<Rightarrow> cp_ptr \<Rightarrow> bool" where
  "no_read_behind_write pc c \<longleftrightarrow>
     (\<forall>i j. i < j \<and> j < length (acquirers (cp_store pc c))
            \<and> access (acq_store pc (acquirers (cp_store pc c) ! i)) = access_write
        \<longrightarrow> \<not> read_cond (acq_store pc (acquirers (cp_store pc c) ! j)))"

definition fifo_inv :: "page_cache_t \<Rightarrow> bool" where
  "fifo_inv pc \<longleftrightarrow>
     (\<forall>c. distinct (acquirers (cp_store pc c))
          \<and> no_read_behind_write pc c
          \<and> (\<forall>a \<in> set (acquirers (cp_store pc c)).
                page_cache (acq_store pc a) \<and> current_page (acq_store pc a) = Some c))
     \<and> (\<forall>a. \<not> page_cache (acq_store pc a) \<longrightarrow> \<not> read_cond (acq_store pc a))"

text \<open>
  Two states of the page cache in which the queues are the same and the acquirers have
  the same access, read signal, initialisation and current page.
\<close>

definition same_queues :: "page_cache_t \<Rightarrow> page_cache_t \<Rightarrow> bool" where
  "same_queues pc pc' \<longleftrightarrow>
     (\<forall>c. acquirers (cp_store pc' c) = acquirers (cp_store pc c))
     \<and> (\<forall>a. access (acq_store pc' a) = access (acq_store pc a)
            \<and> read_cond (acq_store pc' a) = read_cond (acq_store pc a)
            \<and> page_cache (acq_store pc' a) = page_cache (acq_store pc a)
            \<and> current_page (acq_store pc' a) = current_page (acq_store pc a))"

text \<open>
  \<open>stands_before q x y\<close>: in the queue \<open>q\<close>, the acquirer \<open>x\<close> stands before the acquirer
  \<open>y\<close>. \<open>quiet pc pc'\<close>: from \<open>pc\<close> to \<open>pc'\<close> no read signal has been pulsed or reset, the
  initialised acquirers are still initialised, none of them has joined a queue or gained
  write access, and the acquirers that are still in a queue stand in the same order.
\<close>

definition stands_before :: "'a list \<Rightarrow> 'a \<Rightarrow> 'a \<Rightarrow> bool" where
  "stands_before q x y \<longleftrightarrow> (\<exists>i j. i < j \<and> j < length q \<and> q ! i = x \<and> q ! j = y)"

definition quiet :: "page_cache_t \<Rightarrow> page_cache_t \<Rightarrow> bool" where
  "quiet pc pc' \<longleftrightarrow>
     (\<forall>x. read_cond (acq_store pc' x) = read_cond (acq_store pc x))
     \<and> (\<forall>x. page_cache (acq_store pc x) \<longrightarrow> page_cache (acq_store pc' x))
     \<and> (\<forall>c x. x \<in> set (acquirers (cp_store pc' c)) \<and> page_cache (acq_store pc x)
            \<longrightarrow> x \<in> set (acquirers (cp_store pc c)))
     \<and> (\<forall>x. page_cache (acq_store pc x) \<and> access (acq_store pc' x) = access_write
            \<longrightarrow> access (acq_store pc x) = access_write)
     \<and> (\<forall>c x y. stands_before (acquirers (cp_store pc c)) x y
                 \<and> x \<in> set (acquirers (cp_store pc' c))
                 \<and> y \<in> set (acquirers (cp_store pc' c))
            \<longrightarrow> stands_before (acquirers (cp_store pc' c)) x y)"

text \<open>
  \<open>phases pc pc'\<close>: the state \<open>pc'\<close> comes from \<open>pc\<close> by a quiet part, then at most one
  call of \<open>pulse_pulsables\<close>, made in a state in which the invariant holds, then a part
  that leaves the queues and the acquirers alone.
\<close>

definition phases :: "page_cache_t \<Rightarrow> page_cache_t \<Rightarrow> bool" where
  "phases pc pc' \<longleftrightarrow>
     (\<exists>pcq pcp. quiet pc pcq \<and> fifo_inv pcq
        \<and> (pcp = pcq \<or> (\<exists>c b. pulse_pulsables c b pcq = Inr pcp))
        \<and> same_queues pcp pc')"

text \<open>
  \<open>order_kept pc pc'\<close>: if no queue of \<open>pc\<close> holds an acquirer twice, then neither does a
  queue of \<open>pc'\<close>, the queues of \<open>pc'\<close> hold acquirers of the queues of \<open>pc\<close> only, and
  these stand in the same order.
\<close>

definition order_kept :: "page_cache_t \<Rightarrow> page_cache_t \<Rightarrow> bool" where
  "order_kept pc pc' \<longleftrightarrow>
     ((\<forall>c. distinct (acquirers (cp_store pc c))) \<longrightarrow>
        (\<forall>c. distinct (acquirers (cp_store pc' c)))
        \<and> (\<forall>c. set (acquirers (cp_store pc' c)) \<subseteq> set (acquirers (cp_store pc c)))
        \<and> (\<forall>c x y. stands_before (acquirers (cp_store pc c)) x y
                    \<and> x \<in> set (acquirers (cp_store pc' c))
                    \<and> y \<in> set (acquirers (cp_store pc' c))
               \<longrightarrow> stands_before (acquirers (cp_store pc' c)) x y))"

text \<open>
  \<open>waits_behind pc c a1 a2\<close>: what holds of two acquirers once \<open>a1\<close> has stood before \<open>a2\<close>
  in the queue of \<open>c\<close> with write access. Either it still does; or \<open>a1\<close> is no longer in
  the queue with write access; or \<open>a2\<close> has left the queues with its read signal not
  pulsed.
\<close>

definition waits_behind :: "page_cache_t \<Rightarrow> cp_ptr \<Rightarrow> acq_ptr \<Rightarrow> acq_ptr \<Rightarrow> bool" where
  "waits_behind pc c a1 a2 \<longleftrightarrow>
     fifo_inv pc \<and> page_cache (acq_store pc a1) \<and> page_cache (acq_store pc a2)
     \<and> ((stands_before (acquirers (cp_store pc c)) a1 a2
           \<and> access (acq_store pc a1) = access_write)
         \<or> \<not> (a1 \<in> set (acquirers (cp_store pc c))
                \<and> access (acq_store pc a1) = access_write)
         \<or> (\<not> read_cond (acq_store pc a2)
              \<and> (\<forall>c'. a2 \<notin> set (acquirers (cp_store pc c')))))"

text \<open>
  A header for the examples: the null block id is the greatest 64-bit number, and the
  auxiliary block ids are those from \<open>2 ^ 63\<close> on.
\<close>

definition example_header :: header_t where
  "example_header = \<lparr> NULL_BLOCK_ID = 2 ^ 64 - 1, is_aux_block_id = (\<lambda>b. 2 ^ 63 \<le> b) \<rparr>"

text \<open>
  The scenario of the specification: on a new page cache, transaction 5 acquires block 7
  for writing through the acquirer 1, then the acquirer 2 acquires block 7 for reading.
\<close>

definition write_then_read :: "acq_call list" where
  "write_then_read = [Init 1 5 7 access_write False, Init_read 2 7]"

subsection \<open>The current-page table and the block versions\<close>

text \<open>
  \<open>table_ok\<close>: a current page of the table has been allocated, and it is the current
  page of the block it is filed under.
\<close>

definition table_ok :: "page_cache_t \<Rightarrow> bool" where
  "table_ok pc \<longleftrightarrow>
     (\<forall>b c. current_pages pc b = Some c \<longrightarrow> c < next_cp pc \<and> block_id (cp_store pc c) = b)"

text \<open>
  Two states with the same table, the same versions and block ids of the current pages,
  and the same version, current page and initialisation of every acquirer.
\<close>

definition same_versions :: "page_cache_t \<Rightarrow> page_cache_t \<Rightarrow> bool" where
  "same_versions pc pc' \<longleftrightarrow>
     current_pages pc' = current_pages pc \<and> next_cp pc' = next_cp pc
     \<and> (\<forall>c. last_write_acquirer_version (cp_store pc' c)
              = last_write_acquirer_version (cp_store pc c)
            \<and> block_id (cp_store pc' c) = block_id (cp_store pc c))
     \<and> (\<forall>a. block_version (acq_store pc' a) = block_version (acq_store pc a)
            \<and> current_page (acq_store pc' a) = current_page (acq_store pc a)
            \<and> page_cache (acq_store pc' a) = page_cache (acq_store pc a))"

text \<open>
  What \<open>n\<close> calls may do, from a state \<open>pc\<close> to a state \<open>pc'\<close>, to the table and the
  versions: the table stays well formed; a current page allocated in \<open>pc\<close> that is in the
  table of \<open>pc'\<close> was in the table of \<open>pc\<close> for the same block, and its version has been
  advanced at most \<open>n\<close> times; an acquirer initialised in \<open>pc\<close> keeps its version and its
  current page. The acquirers in \<open>X\<close> are exempted (an acquirer that is being initialised).
\<close>

definition versions_steps :: "acq_ptr set \<Rightarrow> nat \<Rightarrow> page_cache_t \<Rightarrow> page_cache_t \<Rightarrow> bool" where
  "versions_steps X n pc pc' \<longleftrightarrow>
     table_ok pc' \<and> next_cp pc \<le> next_cp pc'
     \<and> (\<forall>b c. c < next_cp pc \<and> current_pages pc' b = Some c \<longrightarrow>
            current_pages pc b = Some c
            \<and> (\<exists>k\<le>n. last_write_acquirer_version (cp_store pc' c)
                        = last_write_acquirer_version (cp_store pc c) + of_nat k))
     \<and> (\<forall>a. a \<notin> X \<and> page_cache (acq_store pc a) \<longrightarrow>
            page_cache (acq_store pc' a)
            \<and> block_version (acq_store pc' a) = block_version (acq_store pc a)
            \<and> current_page (acq_store pc' a) = current_page (acq_store pc a))"

subsection \<open>The flushable set\<close>

text \<open>
  \<open>page_cache_t::maximal_flushable_txn_set\<close>, on the store of the transactions. The two
  vectors \<open>blue\<close> and \<open>colored\<close> grow at their end, and \<open>blue\<close> is used as a stack.
  \<open>visit_preceder\<close> and \<open>visit_subseqer\<close> are the bodies of the two \<open>for\<close> loops,
  \<open>flush_step\<close> is the body of the \<open>while\<close> loop, and \<open>collect\<close> is the body of the last
  loop, which resets the marks and keeps the green transactions. \<open>None\<close> means that the
  \<open>while\<close> loop does not end.
\<close>

definition set_mark ::
  "txn_ptr \<Rightarrow> mark_state_t \<Rightarrow> (txn_ptr \<Rightarrow> page_txn_t) \<Rightarrow> (txn_ptr \<Rightarrow> page_txn_t)" where
  "set_mark t m h = h(t := (h t)\<lparr> mark := m \<rparr>)"

definition visit_preceder ::
  "txn_ptr \<Rightarrow> (txn_ptr \<Rightarrow> page_txn_t) \<times> txn_ptr list \<times> txn_ptr list \<times> bool
     \<Rightarrow> (txn_ptr \<Rightarrow> page_txn_t) \<times> txn_ptr list \<times> txn_ptr list \<times> bool" where
  "visit_preceder prec = (\<lambda>(h, blue, colored, poisoned).
     if \<not> began_waiting_for_flush (h prec) \<or> mark (h prec) = marked_red
     then (h, blue, colored, True)
     else if mark (h prec) = marked_not
     then (set_mark prec marked_blue h, blue @ [prec], colored @ [prec], poisoned)
     else (h, blue, colored, poisoned))"

definition visit_subseqer ::
  "bool \<Rightarrow> txn_ptr \<Rightarrow> (txn_ptr \<Rightarrow> page_txn_t) \<times> txn_ptr list \<times> txn_ptr list
     \<Rightarrow> (txn_ptr \<Rightarrow> page_txn_t) \<times> txn_ptr list \<times> txn_ptr list" where
  "visit_subseqer poisoned subs = (\<lambda>(h, blue, colored).
     if \<not> began_waiting_for_flush (h subs) then (h, blue, colored)
     else if mark (h subs) = marked_not
     then if \<not> poisoned
          then (set_mark subs marked_blue h, blue @ [subs], colored @ [subs])
          else (h, blue, colored)
     else if mark (h subs) = marked_green
     then if poisoned
          then (set_mark subs marked_blue h, blue @ [subs], colored)
          else (h, blue, colored)
     else (h, blue, colored))"

definition flush_step ::
  "(txn_ptr \<Rightarrow> page_txn_t) \<times> txn_ptr list \<times> txn_ptr list
     \<Rightarrow> (txn_ptr \<Rightarrow> page_txn_t) \<times> txn_ptr list \<times> txn_ptr list" where
  "flush_step = (\<lambda>(h, blue, colored).
     let txn = last blue;
         blue = butlast blue;
         (h, blue, colored, poisoned) =
           fold visit_preceder (preceders (h txn)) (h, blue, colored, False);
         h = set_mark txn (if poisoned then marked_red else marked_green) h
     in fold (visit_subseqer poisoned) (subseqers (h txn)) (h, blue, colored))"

definition collect ::
  "txn_ptr \<Rightarrow> (txn_ptr \<Rightarrow> page_txn_t) \<times> txn_ptr list
     \<Rightarrow> (txn_ptr \<Rightarrow> page_txn_t) \<times> txn_ptr list" where
  "collect t = (\<lambda>(h, kept).
     (set_mark t marked_not h, if mark (h t) = marked_green then kept @ [t] else kept))"

definition maximal_flushable_txn_set ::
  "txn_ptr \<Rightarrow> (txn_ptr \<Rightarrow> page_txn_t) \<Rightarrow> (txn_ptr list \<times> (txn_ptr \<Rightarrow> page_txn_t)) option" where
  "maximal_flushable_txn_set base h =
     map_option (\<lambda>(h, blue, colored). let (h, kept) = fold collect colored (h, []) in (kept, h))
       (while_option (\<lambda>(h, blue, colored). blue \<noteq> []) flush_step
          (set_mark base marked_blue h, [base], [base]))"

subsection \<open>Flushable sets of the transaction graph\<close>

text \<open>
  \<open>closed_ready h S\<close>: every transaction of \<open>S\<close> has begun waiting for its flush and has
  all its preceders in \<open>S\<close>. \<open>linked h S base t\<close>: the transaction \<open>t\<close> is reached from
  \<open>base\<close> by a path inside \<open>S\<close>, along edges of the graph in either direction.
  \<open>graph_ok\<close>: finitely many transactions have an edge, and the preceders and the
  subseqers mirror each other.
\<close>

definition closed_ready :: "(txn_ptr \<Rightarrow> page_txn_t) \<Rightarrow> txn_ptr set \<Rightarrow> bool" where
  "closed_ready h S \<longleftrightarrow>
     (\<forall>t \<in> S. began_waiting_for_flush (h t) \<and> set (preceders (h t)) \<subseteq> S)"

inductive linked :: "(txn_ptr \<Rightarrow> page_txn_t) \<Rightarrow> txn_ptr set \<Rightarrow> txn_ptr \<Rightarrow> txn_ptr \<Rightarrow> bool"
  for h S base where
    linked_base: "base \<in> S \<Longrightarrow> linked h S base base"
  | linked_step: "linked h S base x \<Longrightarrow> y \<in> S \<Longrightarrow>
                  y \<in> set (preceders (h x)) \<or> y \<in> set (subseqers (h x)) \<Longrightarrow>
                  linked h S base y"

definition graph_ok :: "(txn_ptr \<Rightarrow> page_txn_t) \<Rightarrow> bool" where
  "graph_ok h \<longleftrightarrow>
     finite {t. preceders (h t) \<noteq> [] \<or> subseqers (h t) \<noteq> []}
     \<and> (\<forall>p s. s \<in> set (subseqers (h p)) \<longleftrightarrow> p \<in> set (preceders (h s)))"

text \<open>
  A transaction is blocked when it, or one of its preceders, direct or not, has not
  begun waiting for its flush.
\<close>

inductive blocked :: "(txn_ptr \<Rightarrow> page_txn_t) \<Rightarrow> txn_ptr \<Rightarrow> bool" for h where
    blocked_self: "\<not> began_waiting_for_flush (h t) \<Longrightarrow> blocked h t"
  | blocked_preceder: "p \<in> set (preceders (h t)) \<Longrightarrow> blocked h p \<Longrightarrow> blocked h t"

text \<open>
  The invariant of the \<open>while\<close> loop, for the graph of the store \<open>g\<close>: the stores differ
  in the marks only; \<open>blue\<close> holds the transactions marked blue and \<open>colored\<close> those with
  a mark, each once, \<open>base\<close> among them; a marked transaction has begun waiting and has an edge or is
  \<open>base\<close>; the preceders of a green transaction have begun waiting and are blue or
  green, and its subseqers that have begun waiting are marked; a red transaction is
  blocked.
\<close>

definition same_graph :: "(txn_ptr \<Rightarrow> page_txn_t) \<Rightarrow> (txn_ptr \<Rightarrow> page_txn_t) \<Rightarrow> bool" where
  "same_graph g h \<longleftrightarrow> (\<forall>t. (h t)\<lparr> mark := marked_not \<rparr> = (g t)\<lparr> mark := marked_not \<rparr>)"

definition flush_nodes :: "(txn_ptr \<Rightarrow> page_txn_t) \<Rightarrow> txn_ptr \<Rightarrow> txn_ptr set" where
  "flush_nodes g base = insert base {t. preceders (g t) \<noteq> [] \<or> subseqers (g t) \<noteq> []}"

definition flush_inv ::
  "(txn_ptr \<Rightarrow> page_txn_t) \<Rightarrow> txn_ptr
     \<Rightarrow> (txn_ptr \<Rightarrow> page_txn_t) \<times> txn_ptr list \<times> txn_ptr list \<Rightarrow> bool" where
  "flush_inv g base = (\<lambda>(h, blue, colored).
     same_graph g h \<and> base \<in> set colored
     \<and> distinct blue \<and> (\<forall>t. mark (h t) = marked_blue \<longleftrightarrow> t \<in> set blue)
     \<and> distinct colored \<and> (\<forall>t. mark (h t) \<noteq> marked_not \<longleftrightarrow> t \<in> set colored)
     \<and> (\<forall>t. mark (h t) \<noteq> marked_not \<longrightarrow>
            began_waiting_for_flush (g t) \<and> t \<in> flush_nodes g base)
     \<and> (\<forall>t. mark (h t) = marked_green \<longrightarrow>
            (\<forall>p \<in> set (preceders (g t)).
               began_waiting_for_flush (g p)
               \<and> (mark (h p) = marked_blue \<or> mark (h p) = marked_green))
            \<and> (\<forall>s \<in> set (subseqers (g t)).
                 began_waiting_for_flush (g s) \<longrightarrow> mark (h s) \<noteq> marked_not))
     \<and> (\<forall>t. mark (h t) = marked_red \<longrightarrow> blocked g t))"

text \<open>
  The measure of the \<open>while\<close> loop. A mark goes from not to blue, from blue to green or
  red, and from green to blue only when a preceder has become red.
\<close>

definition weight :: "(txn_ptr \<Rightarrow> txn_ptr set) \<Rightarrow> (txn_ptr \<Rightarrow> mark_state_t) \<Rightarrow> txn_ptr \<Rightarrow> nat" where
  "weight P m t =
     (case m t of
        marked_not \<Rightarrow> 4
      | marked_blue \<Rightarrow> (if \<exists>p \<in> P t. m p = marked_red then 1 else 3)
      | marked_green \<Rightarrow> 2
      | marked_red \<Rightarrow> 0)"

definition flush_measure ::
  "(txn_ptr \<Rightarrow> page_txn_t) \<Rightarrow> txn_ptr
     \<Rightarrow> (txn_ptr \<Rightarrow> page_txn_t) \<times> txn_ptr list \<times> txn_ptr list \<Rightarrow> nat" where
  "flush_measure g base = (\<lambda>(h, blue, colored).
     \<Sum>t \<in> flush_nodes g base. weight (\<lambda>t. set (preceders (g t))) (\<lambda>t. mark (h t)) t)"

text \<open>Marking a list of transactions blue.\<close>

definition mark_blue ::
  "txn_ptr list \<Rightarrow> (txn_ptr \<Rightarrow> page_txn_t) \<Rightarrow> (txn_ptr \<Rightarrow> page_txn_t)" where
  "mark_blue xs h = (\<lambda>t. if t \<in> set xs then (h t)\<lparr> mark := marked_blue \<rparr> else h t)"

text \<open>
  Example stores: two transactions that have begun waiting and have no edge; and a
  transaction 1 with the preceder 2, both waiting, beside a transaction 4 whose preceder
  3 has not begun waiting.
\<close>

definition waiting_txn :: "txn_ptr list \<Rightarrow> txn_ptr list \<Rightarrow> page_txn_t" where
  "waiting_txn ps ss =
     (new_page_txn_t default_throttler_acq_t)
       \<lparr> preceders := ps, subseqers := ss, began_waiting_for_flush := True \<rparr>"

definition two_waiting :: "txn_ptr \<Rightarrow> page_txn_t" where
  "two_waiting = (\<lambda>_. new_page_txn_t default_throttler_acq_t)
     (1 := waiting_txn [] [], 2 := waiting_txn [] [])"

definition flush_example :: "txn_ptr \<Rightarrow> page_txn_t" where
  "flush_example = (\<lambda>_. new_page_txn_t default_throttler_acq_t)
     (1 := waiting_txn [2] [], 2 := waiting_txn [] [1],
      3 := (new_page_txn_t default_throttler_acq_t)\<lparr> subseqers := [4] \<rparr>,
      4 := waiting_txn [3] [])"

subsection \<open>The formula of the specification for the throttler limit\<close>

text \<open>
  The block-changes capacity as the specification words it, over the reals:
  \<open>max(floor, min(8000, \<lfloor>mem / bs\<rfloor> \<cdot> 0.5))\<close>. It is used only to compare the
  specification with \<open>inform_memory_limit_change\<close>.
\<close>

definition spec_block_capacity :: "nat \<Rightarrow> nat \<Rightarrow> real \<Rightarrow> real" where
  "spec_block_capacity mem bs floor_limit =
     max floor_limit (min 8000 (real (mem div bs) * 0.5))"

subsection \<open>Example states\<close>

text \<open>
  A page cache whose read-ahead has ended, holding one current page, for block 7, with
  the acquirer queue \<open>qs\<close> and no page body.
\<close>

definition example_cache :: "acq_ptr list \<Rightarrow> page_cache_t" where
  "example_cache qs =
     (new_page_cache_t False (\<lambda>_. distant_past))
       \<lparr> cp_store := (\<lambda>_. new_current_page_t 0 None)
                       (0 := (new_current_page_t 7 None)\<lparr> acquirers := qs \<rparr>),
         current_pages := [7 \<mapsto> 0],
         next_cp := 1 \<rparr>"


section \<open>The throttler\<close>

subsection \<open>The memory limit\<close>

lemma double_of_uint64_small: "q < 2 ^ 53 \<Longrightarrow> double_of_uint64 q = q"
  by (simp add: double_of_uint64_def)

lemma floorlog_le_64: "q < 2 ^ 64 \<Longrightarrow> floorlog 2 q \<le> 64"
  by (simp add: floorlog_le_iff)

lemma floorlog_ge_54: "(2::nat) ^ 53 \<le> q \<Longrightarrow> 54 \<le> floorlog 2 q"
  using floorlog_ge_SucI [of 2 53 q] by simp

text \<open>A large quotient stays large when it is rounded to a double.\<close>

lemma double_of_uint64_large_lower:
  assumes "(2::nat) ^ 53 \<le> q"
  shows "2 ^ 52 \<le> double_of_uint64 q"
proof -
  define sh where "sh = floorlog 2 q - 53"
  have bits: "54 \<le> floorlog 2 q" using assms by (rule floorlog_ge_54)
  have qpos: "0 < q" using assms by (metis gr0I not_less_eq_eq power_eq_0_iff zero_neq_numeral le_zero_eq)
  have lb: "(2::nat) ^ (floorlog 2 q - 1) \<le> q"
    using floorlog_bounds [of q 2] qpos by simp
  have split: "floorlog 2 q - 1 = 52 + sh" using bits by (simp add: sh_def)
  have "(2::nat) ^ 52 * 2 ^ sh \<le> q" using lb unfolding split power_add by simp
  then have "2 ^ 52 \<le> q div 2 ^ sh"
    by (simp add: less_eq_div_iff_mult_less_eq)
  then have "2 ^ 52 * 2 ^ sh \<le> (q div 2 ^ sh) * 2 ^ sh" by simp
  moreover have "(q div 2 ^ sh) * 2 ^ sh = q - q mod 2 ^ sh"
    by (simp add: minus_mod_eq_div_mult)
  moreover have "(2::nat) ^ 52 \<le> 2 ^ 52 * 2 ^ sh" by simp
  ultimately have base: "2 ^ 52 \<le> q - q mod 2 ^ sh" by linarith
  show ?thesis
    using assms base by (auto simp add: double_of_uint64_def Let_def sh_def [symmetric])
qed

text \<open>
  Rounding reaches \<open>2 ^ 64\<close>, whose half does not fit an \<open>int64_t\<close>, only from
  \<open>2 ^ 64 - 1024\<close> on.
\<close>

lemma double_of_uint64_large_upper:
  assumes "(2::nat) ^ 53 \<le> q" and "q < 2 ^ 64 - 1024"
  shows "double_of_uint64 q < 2 ^ 64"
proof -
  define sh where "sh = floorlog 2 q - 53"
  have bits: "54 \<le> floorlog 2 q" using assms(1) by (rule floorlog_ge_54)
  have bits64: "floorlog 2 q \<le> 64" using assms(2) by (intro floorlog_le_64) simp
  have sh11: "sh \<le> 11" using bits64 by (simp add: sh_def)
  have sh1: "1 \<le> sh" using bits by (simp add: sh_def)
  define k where "k = q div 2 ^ sh"
  define lo where "lo = q mod 2 ^ sh"
  have q: "q = k * 2 ^ sh + lo" unfolding k_def lo_def by (rule div_mult_mod_eq [symmetric])
  have base: "q - lo = k * 2 ^ sh" using q by simp
  show ?thesis
  proof (cases "2 ^ (sh - 1) \<le> lo")
    case False
    then have "double_of_uint64 q = q - lo"
      using assms(1) by (auto simp add: double_of_uint64_def Let_def sh_def [symmetric] lo_def [symmetric])
    then show ?thesis using assms(2) by simp
  next
    case True
    have le: "double_of_uint64 q \<le> (k + 1) * 2 ^ sh"
      using assms(1) base
      by (auto simp add: double_of_uint64_def Let_def sh_def [symmetric] lo_def [symmetric])
    have p: "(2::nat) ^ sh = 2 * 2 ^ (sh - 1)" using sh1 by (cases sh) simp_all
    have "(2::nat) ^ (sh - 1) \<le> 2 ^ 10" using sh11 by (intro power_increasing) simp_all
    then have half: "(2::nat) ^ (sh - 1) \<le> 1024" by simp
    have "k * 2 ^ sh + 2 ^ (sh - 1) \<le> q" using q True by simp
    then have "k * 2 ^ sh + 2 * 2 ^ (sh - 1) \<le> q + 1024" using half by linarith
    then have "(k + 1) * 2 ^ sh \<le> q + 1024" using p by (simp add: algebra_simps)
    then show ?thesis using le assms(2) by simp
  qed
qed

text \<open>
  C9, as the code computes it. For a block size that is not 0, a quotient
  \<open>\<lfloor>mem / bs\<rfloor>\<close> below \<open>2 ^ 64 - 1024\<close> and a minimum limit whose fivefold fits an
  \<open>int64_t\<close>, \<open>inform_memory_limit_change\<close> returns, the block-changes capacity is
  \<open>max(minimum, min(8000, h))\<close> where \<open>h\<close> is \<open>\<lfloor>mem / bs\<rfloor> \<cdot> 0.5\<close> truncated to an integer
  (the conversion of the product to \<open>int64_t\<close>), and the index-changes capacity is exactly
  five times the block-changes capacity.
\<close>

theorem inform_memory_limit_change_capacities:
  assumes bs: "bs \<noteq> 0"
    and q: "unat mem div unat bs < 2 ^ 64 - 1024"
    and m: "minimum_unwritten_changes_limit th * 5 < 2 ^ 63"
  shows "\<exists>th'. inform_memory_limit_change mem bs th = Some th'
           \<and> unwritten_block_changes_semaphore th' =
               max (minimum_unwritten_changes_limit th)
                   (min 8000 (int (unat mem div unat bs div 2)))
           \<and> unwritten_index_changes_semaphore th' = 5 * unwritten_block_changes_semaphore th'"
proof -
  define qq where "qq = unat mem div unat bs"
  define d where "d = double_of_uint64 qq"
  have d64: "d < 2 ^ 64"
  proof (cases "qq < 2 ^ 53")
    case True then show ?thesis by (simp add: d_def double_of_uint64_small)
  next
    case False then show ?thesis
      using double_of_uint64_large_upper [of qq] q by (simp add: d_def qq_def)
  qed
  have half: "int64_of_half d = Some (int (d div 2))"
    using d64 by (simp add: int64_of_half_def int64_range_def)
  have mn: "min 8000 (int (d div 2)) = min 8000 (int (qq div 2))"
  proof (cases "qq < 2 ^ 53")
    case True then show ?thesis by (simp add: d_def double_of_uint64_small)
  next
    case False
    then have "2 ^ 52 \<le> d" "2 ^ 53 \<le> qq"
      using double_of_uint64_large_lower [of qq] by (simp_all add: d_def)
    then show ?thesis by simp
  qed
  define lim where "lim = max (minimum_unwritten_changes_limit th) (min 8000 (int (qq div 2)))"
  have "0 \<le> lim" "lim \<le> max 8000 (minimum_unwritten_changes_limit th)"
    by (auto simp add: lim_def)
  then have rng: "int64_range (lim * 5)" using m by (auto simp add: int64_range_def)
  show ?thesis
    using bs half mn rng
    by (simp add: inform_memory_limit_change_def qq_def [symmetric] d_def [symmetric]
        lim_def [symmetric] Let_def SOFT_UNWRITTEN_CHANGES_LIMIT_def
        INDEX_CHANGES_LIMIT_FACTOR_def max.commute)
qed

text \<open>
  The theorem at a memory limit of 3 blocks of size 1, with the minimum limit 1 that
  \<open>cache_t\<close> passes: the capacities become 1 and 5.
\<close>

theorem inform_memory_limit_change_capacities_witness:
  "(1 :: 32 word) \<noteq> 0
   \<and> unat (3 :: 64 word) div unat (1 :: 32 word) < 2 ^ 64 - 1024
   \<and> minimum_unwritten_changes_limit
        (new_alt_txn_throttler MINIMUM_SOFT_UNWRITTEN_CHANGES_LIMIT) * 5 < 2 ^ 63
   \<and> map_option unwritten_block_changes_semaphore
        (inform_memory_limit_change 3 1
           (new_alt_txn_throttler MINIMUM_SOFT_UNWRITTEN_CHANGES_LIMIT)) = Some 1
   \<and> map_option unwritten_index_changes_semaphore
        (inform_memory_limit_change 3 1
           (new_alt_txn_throttler MINIMUM_SOFT_UNWRITTEN_CHANGES_LIMIT)) = Some 5"
  using inform_memory_limit_change_capacities
    [of 1 3 "new_alt_txn_throttler MINIMUM_SOFT_UNWRITTEN_CHANGES_LIMIT"]
  by (auto simp add: new_alt_txn_throttler_def MINIMUM_SOFT_UNWRITTEN_CHANGES_LIMIT_def)

text \<open>
  C9 as the specification states it fails where the quotient is odd: for a memory limit
  of 3 blocks the formula gives the capacity \<open>3/2\<close>, and the code sets the capacity 1.
\<close>

theorem inform_memory_limit_change_counterexample:
  "map_option unwritten_block_changes_semaphore
     (inform_memory_limit_change 3 1
        (new_alt_txn_throttler MINIMUM_SOFT_UNWRITTEN_CHANGES_LIMIT)) = Some 1
   \<and> spec_block_capacity 3 1 (real_of_int MINIMUM_SOFT_UNWRITTEN_CHANGES_LIMIT) = 3 / 2
   \<and> real_of_int 1 \<noteq> spec_block_capacity 3 1 (real_of_int MINIMUM_SOFT_UNWRITTEN_CHANGES_LIMIT)"
  by (simp add: inform_memory_limit_change_def double_of_uint64_def int64_of_half_def
      int64_range_def new_alt_txn_throttler_def MINIMUM_SOFT_UNWRITTEN_CHANGES_LIMIT_def
      SOFT_UNWRITTEN_CHANGES_LIMIT_def INDEX_CHANGES_LIMIT_FACTOR_def spec_block_capacity_def)

subsection \<open>The permit of a transaction\<close>

text \<open>
  C10. For a permit whose block and index holdings are equal (the \<open>rassert\<close> of
  \<open>update_dirty_page_count\<close>), \<open>update_dirty_page_count n\<close> decreases neither holding
  and keeps them equal; when the permit is in pre-spawn-flush state and
  \<open>max(n, expected_change_count)\<close> exceeds the holding, both holdings become that value,
  and otherwise the permit is unchanged. \<open>mark_dirty_pages_written\<close> sets the block
  holding to 0 and leaves the index holding as it is.
\<close>

theorem update_dirty_page_count_never_decreases:
  assumes "counts_agree a"
  shows "block_changes_semaphore_acq a \<le> block_changes_semaphore_acq (update_dirty_page_count n a)
       \<and> index_changes_semaphore_acq a \<le> index_changes_semaphore_acq (update_dirty_page_count n a)
       \<and> counts_agree (update_dirty_page_count n a)
       \<and> (if pre_spawn_flush a \<and> block_changes_semaphore_acq a < max n (expected_change_count a)
          then block_changes_semaphore_acq (update_dirty_page_count n a) = max n (expected_change_count a)
             \<and> index_changes_semaphore_acq (update_dirty_page_count n a) = max n (expected_change_count a)
          else update_dirty_page_count n a = a)
       \<and> block_changes_semaphore_acq (mark_dirty_pages_written a) = 0
       \<and> index_changes_semaphore_acq (mark_dirty_pages_written a) = index_changes_semaphore_acq a"
  using assms
  by (simp add: counts_agree_def update_dirty_page_count_def mark_dirty_pages_written_def Let_def)

text \<open>A permit holding 2 and 2 in pre-spawn-flush state grows to 5 and 5.\<close>

theorem update_dirty_page_count_never_decreases_witness:
  "counts_agree \<lparr> expected_change_count = 2, pre_spawn_flush = True,
       block_changes_semaphore_acq = 2, index_changes_semaphore_acq = 2 \<rparr>
   \<and> block_changes_semaphore_acq (update_dirty_page_count 5 \<lparr> expected_change_count = 2,
       pre_spawn_flush = True, block_changes_semaphore_acq = 2,
       index_changes_semaphore_acq = 2 \<rparr>) = 5
   \<and> index_changes_semaphore_acq (update_dirty_page_count 5 \<lparr> expected_change_count = 2,
       pre_spawn_flush = True, block_changes_semaphore_acq = 2,
       index_changes_semaphore_acq = 2 \<rparr>) = 5"
  using update_dirty_page_count_never_decreases [of "\<lparr> expected_change_count = 2,
       pre_spawn_flush = True, block_changes_semaphore_acq = 2,
       index_changes_semaphore_acq = 2 \<rparr>" 5]
  by (simp add: counts_agree_def)

section \<open>Eviction and read-ahead\<close>

text \<open>
  C7. \<open>should_be_evicted\<close> is false, and \<open>consider_evicting_current_page\<close> leaves the
  page cache as it is, whenever the current page has an acquirer, a last write acquirer,
  a last dirtier, a positive keepalive count, or a page body that is loading, loaded,
  has waiters or has more than one holder. Conversely, when
  \<open>consider_evicting_current_page\<close> erases a current page from the table, none of these
  held for it.
\<close>

theorem should_be_evicted_safe:
  "(acquirers cp \<noteq> [] \<or> last_write_acquirer cp \<noteq> None \<or> last_dirtier cp \<noteq> None
      \<or> 0 < num_keepalives cp
      \<or> (\<exists>p. page cp = Some p \<and>
            (is_loading (page_store pc p) \<or> is_loaded (page_store pc p)
             \<or> has_waiters (page_store pc p) \<or> 1 < page_ptr_count (page_store pc p)))
     \<longrightarrow> \<not> should_be_evicted pc cp
         \<and> (current_pages pc b = Some c \<and> cp_store pc c = cp
              \<longrightarrow> consider_evicting_current_page null_block_id b pc = pc))
   \<and> (current_pages pc b = Some c
        \<and> current_pages (consider_evicting_current_page null_block_id b pc) b \<noteq> Some c
     \<longrightarrow> acquirers (cp_store pc c) = [] \<and> last_write_acquirer (cp_store pc c) = None
         \<and> last_dirtier (cp_store pc c) = None \<and> num_keepalives (cp_store pc c) = 0
         \<and> (\<forall>p. page (cp_store pc c) = Some p \<longrightarrow>
               \<not> is_loading (page_store pc p) \<and> \<not> is_loaded (page_store pc p)
               \<and> \<not> has_waiters (page_store pc p) \<and> page_ptr_count (page_store pc p) = 1))"
proof -
  have a: "current_pages pc b = Some c \<Longrightarrow> \<not> should_be_evicted pc (cp_store pc c)
      \<Longrightarrow> consider_evicting_current_page null_block_id b pc = pc"
    by (simp add: consider_evicting_current_page_def)
  have b: "current_pages pc b = Some c
      \<Longrightarrow> current_pages (consider_evicting_current_page null_block_id b pc) b \<noteq> Some c
      \<Longrightarrow> should_be_evicted pc (cp_store pc c)"
    by (simp add: consider_evicting_current_page_def split: if_splits)
  have c: "should_be_evicted pc cp \<Longrightarrow>
      acquirers cp = [] \<and> last_write_acquirer cp = None
         \<and> last_dirtier cp = None \<and> num_keepalives cp = 0
         \<and> (\<forall>p. page cp = Some p \<longrightarrow>
               \<not> is_loading (page_store pc p) \<and> \<not> is_loaded (page_store pc p)
               \<and> \<not> has_waiters (page_store pc p) \<and> page_ptr_count (page_store pc p) = 1)" for cp
    by (simp add: should_be_evicted_def split: if_splits option.splits)
  show ?thesis using a b c [of cp] c [of "cp_store pc c"] by fastforce
qed

text \<open>
  The current page of block 7 stays while acquirer 3 is in its queue, and is erased once
  the queue is empty.
\<close>

theorem should_be_evicted_safe_witness:
  "acquirers (cp_store (example_cache [3]) 0) \<noteq> []
   \<and> current_pages (example_cache [3]) 7 = Some 0
   \<and> \<not> should_be_evicted (example_cache [3]) (cp_store (example_cache [3]) 0)
   \<and> consider_evicting_current_page 999 7 (example_cache [3]) = example_cache [3]
   \<and> current_pages (example_cache []) 7 = Some 0
   \<and> current_pages (consider_evicting_current_page 999 7 (example_cache [])) 7 \<noteq> Some 0
   \<and> acquirers (cp_store (example_cache []) 0) = []"
proof -
  have h1: "acquirers (cp_store (example_cache [3]) 0) \<noteq> []"
    and h2: "current_pages (example_cache [3]) 7 = Some 0"
    and h3: "current_pages (example_cache []) 7 = Some 0"
    by (simp_all add: example_cache_def)
  have h4: "current_pages (consider_evicting_current_page 999 7 (example_cache [])) 7 \<noteq> Some 0"
    by (simp add: example_cache_def consider_evicting_current_page_def should_be_evicted_def
        new_page_cache_t_def new_current_page_t_def reset_def reset_page_ptr_def Let_def)
  show ?thesis
    using h1 h2 h3 h4
      should_be_evicted_safe [of "cp_store (example_cache [3]) 0" "example_cache [3]" 7 0 999]
      should_be_evicted_safe [of "cp_store (example_cache []) 0" "example_cache []" 7 0 999]
    by blast
qed

text \<open>
  C8. When the read-ahead callback is still registered and no current page exists for
  block \<open>b\<close>, \<open>add_read_ahead_buf\<close> installs a new current page for \<open>b\<close>, holding a loaded
  page; otherwise it leaves the page cache, and with it the current-page table, as it is.
\<close>

theorem add_read_ahead_buf_accepts:
  "(if read_ahead_cb pc \<and> current_pages pc b = None
    then current_pages (add_read_ahead_buf b pc) = (current_pages pc)(b \<mapsto> next_cp pc)
       \<and> cp_store (add_read_ahead_buf b pc) (next_cp pc)
           = new_current_page_t b (Some (next_page pc))
       \<and> is_loaded (page_store (add_read_ahead_buf b pc) (next_page pc))
    else add_read_ahead_buf b pc = pc)"
  by (simp add: add_read_ahead_buf_def alloc_current_page_buf_def new_page_t_def
      page_ptr_init_def Let_def)

text \<open>
  A buffer for block 4 is installed in a new page cache with read-ahead; a buffer for
  block 7 is dropped by a page cache that has a current page for it.
\<close>

theorem add_read_ahead_buf_accepts_witness:
  "read_ahead_cb (new_page_cache_t True (\<lambda>_. distant_past))
   \<and> current_pages (new_page_cache_t True (\<lambda>_. distant_past)) 4 = None
   \<and> current_pages (add_read_ahead_buf 4 (new_page_cache_t True (\<lambda>_. distant_past))) 4 = Some 0
   \<and> \<not> (read_ahead_cb (example_cache []) \<and> current_pages (example_cache []) 7 = None)
   \<and> add_read_ahead_buf 7 (example_cache []) = example_cache []"
  using add_read_ahead_buf_accepts [of "new_page_cache_t True (\<lambda>_. distant_past)" 4]
    add_read_ahead_buf_accepts [of "example_cache []" 7]
  by (simp add: new_page_cache_t_def example_cache_def)

section \<open>Change reconciliation\<close>

lemma fold_fold_concat:
  "fold (\<lambda>x. fold f (g x)) xs m = fold f (concat (map g xs)) m"
  by (induction xs arbitrary: m) simp_all

lemma insert_dirtied_other:
  "dp_block_id d \<noteq> b \<Longrightarrow> insert_dirtied d m b = m b"
  by (simp add: insert_dirtied_def Let_def split: option.splits)

lemma insert_touched_other:
  "tp_block_id t \<noteq> b \<Longrightarrow> insert_touched t m b = m b"
  by (simp add: insert_touched_def split: option.splits)

lemma insert_dirtied_same:
  "dp_block_id d = b \<Longrightarrow>
   insert_dirtied d m b =
     (case m b of None \<Rightarrow> Some (dirtied_change d)
      | Some jt \<Rightarrow> if version jt < version (dirtied_change d)
                   then Some (dirtied_change d) else Some jt)"
  by (simp add: insert_dirtied_def Let_def split: option.splits)

lemma insert_touched_same:
  "tp_block_id t = b \<Longrightarrow>
   insert_touched t m b =
     (case m b of
        None \<Rightarrow> Some \<lparr> version = tp_block_version t, modified = False,
                       change_page = None, tstamp = tp_tstamp t \<rparr>
      | Some jt \<Rightarrow> if version jt < tp_block_version t
                   then Some (jt\<lparr> tstamp := tp_tstamp t, version := tp_block_version t \<rparr>)
                   else Some jt)"
  by (simp add: insert_touched_def split: option.splits)

lemma dirtied_change_fields:
  "dirtied_change d =
     \<lparr> version = dp_block_version d, modified = True,
       change_page = tpp_page (dp_ptr d),
       tstamp = (if tpp_page (dp_ptr d) \<noteq> None then tpp_timestamp (dp_ptr d) else invalid) \<rparr>"
  by (simp add: dirtied_change_def)

text \<open>
  The first loop: among the dirtied entries of a block, an entry of the greatest version
  gives the record.
\<close>

lemma dirtied_phase:
  fixes ds :: "dirtied_page_t list" and b :: block_id_t
  defines "D \<equiv> \<lambda>ds. filter (\<lambda>d. dp_block_id d = b) ds"
  shows "(D ds = [] \<longrightarrow> fold insert_dirtied ds Map.empty b = None)
       \<and> (D ds \<noteq> [] \<longrightarrow>
            (\<exists>d \<in> set (D ds). (\<forall>d' \<in> set (D ds). dp_block_version d' \<le> dp_block_version d)
                \<and> fold insert_dirtied ds Map.empty b = Some (dirtied_change d)))"
proof (induction ds rule: rev_induct)
  case Nil
  show ?case by (simp add: D_def)
next
  case (snoc x ds)
  define old where "old = fold insert_dirtied ds Map.empty b"
  have new: "fold insert_dirtied (ds @ [x]) Map.empty b
      = insert_dirtied x (fold insert_dirtied ds Map.empty) b" by simp
  show ?case
  proof (cases "dp_block_id x = b")
    case False
    have "D (ds @ [x]) = D ds" using False by (simp add: D_def)
    moreover have "fold insert_dirtied (ds @ [x]) Map.empty b = old"
      using False by (simp add: insert_dirtied_other old_def)
    ultimately show ?thesis using snoc by (simp add: old_def)
  next
    case True
    have Dsnoc: "D (ds @ [x]) = D ds @ [x]" using True by (simp add: D_def)
    show ?thesis
    proof (cases "D ds = []")
      case True
      then have "old = None" using snoc by (simp add: old_def)
      then have "fold insert_dirtied (ds @ [x]) Map.empty b = Some (dirtied_change x)"
        using \<open>dp_block_id x = b\<close> unfolding new
        by (simp add: insert_dirtied_same old_def [symmetric])
      then show ?thesis using True by (simp add: Dsnoc)
    next
      case False
      then obtain d where d: "d \<in> set (D ds)"
        "\<And>d'. d' \<in> set (D ds) \<Longrightarrow> dp_block_version d' \<le> dp_block_version d"
        "old = Some (dirtied_change d)"
        using snoc unfolding old_def by blast
      have vd: "version (dirtied_change d) = dp_block_version d"
        "version (dirtied_change x) = dp_block_version x"
        by (simp_all add: dirtied_change_def)
      show ?thesis
      proof (cases "dp_block_version d < dp_block_version x")
        case True
        have r: "fold insert_dirtied (ds @ [x]) Map.empty b = Some (dirtied_change x)"
          using \<open>dp_block_id x = b\<close> d(3) True unfolding new
          by (simp add: insert_dirtied_same old_def [symmetric] vd)
        have "\<And>d'. d' \<in> set (D ds @ [x]) \<Longrightarrow> dp_block_version d' \<le> dp_block_version x"
          using d(2) True by fastforce
        then have "x \<in> set (D (ds @ [x]))
            \<and> (\<forall>d' \<in> set (D (ds @ [x])). dp_block_version d' \<le> dp_block_version x)
            \<and> fold insert_dirtied (ds @ [x]) Map.empty b = Some (dirtied_change x)"
          using r by (simp add: Dsnoc)
        then show ?thesis unfolding Dsnoc by blast
      next
        case False
        have r: "fold insert_dirtied (ds @ [x]) Map.empty b = Some (dirtied_change d)"
          using \<open>dp_block_id x = b\<close> d(3) False unfolding new
          by (simp add: insert_dirtied_same old_def [symmetric] vd)
        have "\<And>d'. d' \<in> set (D ds @ [x]) \<Longrightarrow> dp_block_version d' \<le> dp_block_version d"
          using d(2) False by fastforce
        then have "d \<in> set (D (ds @ [x]))
            \<and> (\<forall>d' \<in> set (D (ds @ [x])). dp_block_version d' \<le> dp_block_version d)
            \<and> fold insert_dirtied (ds @ [x]) Map.empty b = Some (dirtied_change d)"
          using r d(1) by (simp add: Dsnoc)
        then show ?thesis unfolding Dsnoc by blast
      qed
    qed
  qed
qed

text \<open>
  The second loop on a block that has a record \<open>c\<close>: a touched entry of a version greater
  than that of \<open>c\<close> gives its version and its timestamp to the record, and nothing else.
\<close>

lemma touched_phase_some:
  fixes ts :: "touched_page_t list" and b :: block_id_t
  defines "T \<equiv> \<lambda>ts. filter (\<lambda>t. tp_block_id t = b) ts"
  assumes m0: "m0 b = Some c"
  shows "((\<forall>t \<in> set (T ts). tp_block_version t \<le> version c)
            \<and> fold insert_touched ts m0 b = Some c)
       \<or> (\<exists>t \<in> set (T ts). version c < tp_block_version t
              \<and> (\<forall>t' \<in> set (T ts). tp_block_version t' \<le> tp_block_version t)
              \<and> fold insert_touched ts m0 b
                  = Some (c\<lparr> tstamp := tp_tstamp t, version := tp_block_version t \<rparr>))"
proof (induction ts rule: rev_induct)
  case Nil
  show ?case using m0 by (simp add: T_def)
next
  case (snoc x ts)
  define old where "old = fold insert_touched ts m0 b"
  have new: "fold insert_touched (ts @ [x]) m0 b
      = insert_touched x (fold insert_touched ts m0) b" by simp
  show ?case
  proof (cases "tp_block_id x = b")
    case False
    have "T (ts @ [x]) = T ts" using False by (simp add: T_def)
    moreover have "fold insert_touched (ts @ [x]) m0 b = old"
      using False by (simp add: insert_touched_other old_def)
    ultimately show ?thesis using snoc by (simp add: old_def)
  next
    case True
    have Tsnoc: "T (ts @ [x]) = T ts @ [x]" using True by (simp add: T_def)
    from snoc consider
      (keep) "\<forall>t \<in> set (T ts). tp_block_version t \<le> version c" "old = Some c"
      | (took) t where "t \<in> set (T ts)" "version c < tp_block_version t"
          "\<forall>t' \<in> set (T ts). tp_block_version t' \<le> tp_block_version t"
          "old = Some (c\<lparr> tstamp := tp_tstamp t, version := tp_block_version t \<rparr>)"
      unfolding old_def by blast
    then show ?thesis
    proof cases
      case keep
      show ?thesis
      proof (cases "version c < tp_block_version x")
        case True
        have r: "fold insert_touched (ts @ [x]) m0 b
            = Some (c\<lparr> tstamp := tp_tstamp x, version := tp_block_version x \<rparr>)"
          using \<open>tp_block_id x = b\<close> keep(2) True unfolding new
          by (simp add: insert_touched_same old_def [symmetric])
        have "\<forall>t' \<in> set (T ts @ [x]). tp_block_version t' \<le> tp_block_version x"
          using keep(1) True by fastforce
        then have "x \<in> set (T (ts @ [x])) \<and> version c < tp_block_version x
              \<and> (\<forall>t' \<in> set (T (ts @ [x])). tp_block_version t' \<le> tp_block_version x)
              \<and> fold insert_touched (ts @ [x]) m0 b
                  = Some (c\<lparr> tstamp := tp_tstamp x, version := tp_block_version x \<rparr>)"
          using r True by (simp add: Tsnoc)
        then show ?thesis by blast
      next
        case False
        have r: "fold insert_touched (ts @ [x]) m0 b = Some c"
          using \<open>tp_block_id x = b\<close> keep(2) False unfolding new
          by (simp add: insert_touched_same old_def [symmetric])
        have "\<forall>t \<in> set (T ts @ [x]). tp_block_version t \<le> version c"
          using keep(1) False by fastforce
        then show ?thesis using r by (simp add: Tsnoc)
      qed
    next
      case took
      show ?thesis
      proof (cases "tp_block_version t < tp_block_version x")
        case True
        have r: "fold insert_touched (ts @ [x]) m0 b
            = Some (c\<lparr> tstamp := tp_tstamp x, version := tp_block_version x \<rparr>)"
          using \<open>tp_block_id x = b\<close> took(4) True unfolding new
          by (simp add: insert_touched_same old_def [symmetric])
        have "\<forall>t' \<in> set (T ts @ [x]). tp_block_version t' \<le> tp_block_version x"
          using took(3) True by fastforce
        moreover have "version c < tp_block_version x" using took(2) True by simp
        ultimately have "x \<in> set (T (ts @ [x])) \<and> version c < tp_block_version x
              \<and> (\<forall>t' \<in> set (T (ts @ [x])). tp_block_version t' \<le> tp_block_version x)
              \<and> fold insert_touched (ts @ [x]) m0 b
                  = Some (c\<lparr> tstamp := tp_tstamp x, version := tp_block_version x \<rparr>)"
          using r by (simp add: Tsnoc)
        then show ?thesis by blast
      next
        case False
        have r: "fold insert_touched (ts @ [x]) m0 b
            = Some (c\<lparr> tstamp := tp_tstamp t, version := tp_block_version t \<rparr>)"
          using \<open>tp_block_id x = b\<close> took(4) False unfolding new
          by (simp add: insert_touched_same old_def [symmetric])
        have "\<forall>t' \<in> set (T ts @ [x]). tp_block_version t' \<le> tp_block_version t"
          using took(3) False by fastforce
        then have "t \<in> set (T (ts @ [x])) \<and> version c < tp_block_version t
              \<and> (\<forall>t' \<in> set (T (ts @ [x])). tp_block_version t' \<le> tp_block_version t)
              \<and> fold insert_touched (ts @ [x]) m0 b
                  = Some (c\<lparr> tstamp := tp_tstamp t, version := tp_block_version t \<rparr>)"
          using r took(1,2) by (simp add: Tsnoc)
        then show ?thesis by blast
      qed
    qed
  qed
qed

text \<open>The second loop on a block that has no record yet.\<close>

lemma touched_phase_none:
  fixes ts :: "touched_page_t list" and b :: block_id_t
  defines "T \<equiv> \<lambda>ts. filter (\<lambda>t. tp_block_id t = b) ts"
  assumes m0: "m0 b = None"
  shows "(T ts = [] \<longrightarrow> fold insert_touched ts m0 b = None)
       \<and> (T ts \<noteq> [] \<longrightarrow>
            (\<exists>t \<in> set (T ts). (\<forall>t' \<in> set (T ts). tp_block_version t' \<le> tp_block_version t)
               \<and> fold insert_touched ts m0 b
                   = Some \<lparr> version = tp_block_version t, modified = False,
                            change_page = None, tstamp = tp_tstamp t \<rparr>))"
proof (induction ts rule: rev_induct)
  case Nil
  show ?case using m0 by (simp add: T_def)
next
  case (snoc x ts)
  define old where "old = fold insert_touched ts m0 b"
  have new: "fold insert_touched (ts @ [x]) m0 b
      = insert_touched x (fold insert_touched ts m0) b" by simp
  show ?case
  proof (cases "tp_block_id x = b")
    case False
    have "T (ts @ [x]) = T ts" using False by (simp add: T_def)
    moreover have "fold insert_touched (ts @ [x]) m0 b = old"
      using False by (simp add: insert_touched_other old_def)
    ultimately show ?thesis using snoc by (simp add: old_def)
  next
    case True
    have Tsnoc: "T (ts @ [x]) = T ts @ [x]" using True by (simp add: T_def)
    show ?thesis
    proof (cases "T ts = []")
      case True
      then have "old = None" using snoc by (simp add: old_def)
      then have "fold insert_touched (ts @ [x]) m0 b
          = Some \<lparr> version = tp_block_version x, modified = False,
                   change_page = None, tstamp = tp_tstamp x \<rparr>"
        using \<open>tp_block_id x = b\<close> unfolding new
        by (simp add: insert_touched_same old_def [symmetric])
      then show ?thesis using True by (simp add: Tsnoc)
    next
      case False
      then obtain t where t: "t \<in> set (T ts)"
        "\<forall>t' \<in> set (T ts). tp_block_version t' \<le> tp_block_version t"
        "old = Some \<lparr> version = tp_block_version t, modified = False,
                      change_page = None, tstamp = tp_tstamp t \<rparr>"
        using snoc unfolding old_def by blast
      show ?thesis
      proof (cases "tp_block_version t < tp_block_version x")
        case True
        have r: "fold insert_touched (ts @ [x]) m0 b
            = Some \<lparr> version = tp_block_version x, modified = False,
                     change_page = None, tstamp = tp_tstamp x \<rparr>"
          using \<open>tp_block_id x = b\<close> t(3) True unfolding new
          by (simp add: insert_touched_same old_def [symmetric])
        have "\<forall>t' \<in> set (T ts @ [x]). tp_block_version t' \<le> tp_block_version x"
          using t(2) True by fastforce
        then have "x \<in> set (T (ts @ [x]))
            \<and> (\<forall>t' \<in> set (T (ts @ [x])). tp_block_version t' \<le> tp_block_version x)
            \<and> fold insert_touched (ts @ [x]) m0 b
                = Some \<lparr> version = tp_block_version x, modified = False,
                         change_page = None, tstamp = tp_tstamp x \<rparr>"
          using r by (simp add: Tsnoc)
        then show ?thesis unfolding Tsnoc by blast
      next
        case False
        have r: "fold insert_touched (ts @ [x]) m0 b
            = Some \<lparr> version = tp_block_version t, modified = False,
                     change_page = None, tstamp = tp_tstamp t \<rparr>"
          using \<open>tp_block_id x = b\<close> t(3) False unfolding new
          by (simp add: insert_touched_same old_def [symmetric])
        have "\<forall>t' \<in> set (T ts @ [x]). tp_block_version t' \<le> tp_block_version t"
          using t(2) False by fastforce
        then have "t \<in> set (T (ts @ [x]))
            \<and> (\<forall>t' \<in> set (T (ts @ [x])). tp_block_version t' \<le> tp_block_version t)
            \<and> fold insert_touched (ts @ [x]) m0 b
                = Some \<lparr> version = tp_block_version t, modified = False,
                         change_page = None, tstamp = tp_tstamp t \<rparr>"
          using r t(1) by (simp add: Tsnoc)
        then show ?thesis unfolding Tsnoc by blast
      qed
    qed
  qed
qed

text \<open>
  C3, as the code merges. For every block \<open>b\<close>, with the dirtied entries and the touched
  entries of the flush set for \<open>b\<close>:
  \<^item> when there is none, \<open>compute_changes\<close> has no record for \<open>b\<close>;
  \<^item> among colliding dirtied entries the greater version wins: the record is made from
    a dirtied entry \<open>d\<close> of the greatest version, with \<open>modified = true\<close>, the page of \<open>d\<close>
    and the timestamp of \<open>d\<close>;
  \<^item> a touched entry wins against that record in the version and the timestamp only:
    when a touched entry has a greater version than \<open>d\<close>, the record takes the version
    and the timestamp of a touched entry \<open>t\<close> of the greatest version and keeps
    \<open>modified = true\<close> and the page of \<open>d\<close>; otherwise the record of \<open>d\<close> is unchanged;
  \<^item> a block that was touched only has the version and the timestamp of a touched
    entry of the greatest version, \<open>modified = false\<close> and no page.
\<close>

theorem compute_changes_merge:
  "(dirtied_entries h txns b = [] \<and> touched_entries h txns b = [] \<longrightarrow>
      compute_changes h txns b = None)
   \<and> (dirtied_entries h txns b \<noteq> [] \<longrightarrow>
        (\<exists>d \<in> set (dirtied_entries h txns b).
           (\<forall>d' \<in> set (dirtied_entries h txns b). dp_block_version d' \<le> dp_block_version d)
           \<and> (if \<exists>t \<in> set (touched_entries h txns b). dp_block_version d < tp_block_version t
              then \<exists>t \<in> set (touched_entries h txns b).
                     (\<forall>t' \<in> set (touched_entries h txns b).
                         tp_block_version t' \<le> tp_block_version t)
                     \<and> compute_changes h txns b
                         = Some \<lparr> version = tp_block_version t, modified = True,
                                  change_page = tpp_page (dp_ptr d),
                                  tstamp = tp_tstamp t \<rparr>
              else compute_changes h txns b
                     = Some \<lparr> version = dp_block_version d, modified = True,
                              change_page = tpp_page (dp_ptr d),
                              tstamp = (if tpp_page (dp_ptr d) \<noteq> None
                                        then tpp_timestamp (dp_ptr d) else invalid) \<rparr>)))
   \<and> (dirtied_entries h txns b = [] \<and> touched_entries h txns b \<noteq> [] \<longrightarrow>
        (\<exists>t \<in> set (touched_entries h txns b).
           (\<forall>t' \<in> set (touched_entries h txns b). tp_block_version t' \<le> tp_block_version t)
           \<and> compute_changes h txns b
               = Some \<lparr> version = tp_block_version t, modified = False,
                        change_page = None, tstamp = tp_tstamp t \<rparr>))"
proof -
  define ds where "ds = concat (map (\<lambda>txn. snapshotted_dirtied_pages (h txn)) txns)"
  define ts where "ts = concat (map (\<lambda>txn. touched_pages (h txn)) txns)"
  define m0 where "m0 = fold insert_dirtied ds Map.empty"
  define D where "D = filter (\<lambda>d. dp_block_id d = b) ds"
  define T where "T = filter (\<lambda>t. tp_block_id t = b) ts"
  have cc: "compute_changes h txns = fold insert_touched ts m0"
    by (simp add: compute_changes_def fold_fold_concat ds_def ts_def m0_def Let_def)
  have de: "dirtied_entries h txns b = D" by (simp add: dirtied_entries_def D_def ds_def)
  have te: "touched_entries h txns b = T" by (simp add: touched_entries_def T_def ts_def)
  note d = dirtied_phase [of b ds, folded D_def m0_def]
  show ?thesis
    unfolding de te cc
  proof (intro conjI impI)
    assume "D = [] \<and> T = []"
    then have "m0 b = None" "T = []" using d by simp_all
    then show "fold insert_touched ts m0 b = None"
      using touched_phase_none [of m0 b ts, folded T_def] by simp
  next
    assume "D = [] \<and> T \<noteq> []"
    then have "m0 b = None" "T \<noteq> []" using d by simp_all
    then show "\<exists>t \<in> set T. (\<forall>t' \<in> set T. tp_block_version t' \<le> tp_block_version t)
           \<and> fold insert_touched ts m0 b
               = Some \<lparr> version = tp_block_version t, modified = False,
                        change_page = None, tstamp = tp_tstamp t \<rparr>"
      using touched_phase_none [of m0 b ts, folded T_def] by simp
  next
    assume "D \<noteq> []"
    then obtain x where x: "x \<in> set D"
      "\<forall>d' \<in> set D. dp_block_version d' \<le> dp_block_version x"
      "m0 b = Some (dirtied_change x)"
      using d by blast
    have v: "version (dirtied_change x) = dp_block_version x" by (simp add: dirtied_change_def)
    note t = touched_phase_some [of m0 b "dirtied_change x" ts, OF x(3), folded T_def, unfolded v]
    have "if \<exists>t \<in> set T. dp_block_version x < tp_block_version t
              then \<exists>t \<in> set T.
                     (\<forall>t' \<in> set T. tp_block_version t' \<le> tp_block_version t)
                     \<and> fold insert_touched ts m0 b
                         = Some \<lparr> version = tp_block_version t, modified = True,
                                  change_page = tpp_page (dp_ptr x),
                                  tstamp = tp_tstamp t \<rparr>
              else fold insert_touched ts m0 b
                     = Some \<lparr> version = dp_block_version x, modified = True,
                              change_page = tpp_page (dp_ptr x),
                              tstamp = (if tpp_page (dp_ptr x) \<noteq> None
                                        then tpp_timestamp (dp_ptr x) else invalid) \<rparr>"
    proof (cases "\<exists>t \<in> set T. dp_block_version x < tp_block_version t")
      case True
      then have "\<not> (\<forall>t \<in> set T. tp_block_version t \<le> dp_block_version x)" by fastforce
      then obtain t where "t \<in> set T"
        "\<forall>t' \<in> set T. tp_block_version t' \<le> tp_block_version t"
        "fold insert_touched ts m0 b
           = Some ((dirtied_change x)\<lparr> tstamp := tp_tstamp t, version := tp_block_version t \<rparr>)"
        using t by blast
      moreover have "(dirtied_change x)\<lparr> tstamp := tp_tstamp t, version := tp_block_version t \<rparr>
          = \<lparr> version = tp_block_version t, modified = True,
              change_page = tpp_page (dp_ptr x), tstamp = tp_tstamp t \<rparr>"
        by (simp add: dirtied_change_fields)
      ultimately show ?thesis using True by auto
    next
      case False
      then have "fold insert_touched ts m0 b = Some (dirtied_change x)" using t by fastforce
      then show ?thesis using False by (simp add: dirtied_change_fields)
    qed
    then show "\<exists>d \<in> set D. (\<forall>d' \<in> set D. dp_block_version d' \<le> dp_block_version d)
           \<and> (if \<exists>t \<in> set T. dp_block_version d < tp_block_version t
              then \<exists>t \<in> set T.
                     (\<forall>t' \<in> set T. tp_block_version t' \<le> tp_block_version t)
                     \<and> fold insert_touched ts m0 b
                         = Some \<lparr> version = tp_block_version t, modified = True,
                                  change_page = tpp_page (dp_ptr d),
                                  tstamp = tp_tstamp t \<rparr>
              else fold insert_touched ts m0 b
                     = Some \<lparr> version = dp_block_version d, modified = True,
                              change_page = tpp_page (dp_ptr d),
                              tstamp = (if tpp_page (dp_ptr d) \<noteq> None
                                        then tpp_timestamp (dp_ptr d) else invalid) \<rparr>)"
      using x(1,2) by blast
  qed
qed

lemma merge_example_entries:
  "dirtied_entries merge_example [1, 2, 3] 3
     = [\<lparr> dp_block_version = 5, dp_block_id = 3,
          dp_ptr = \<lparr> tpp_timestamp = 10, tpp_page = Some 0 \<rparr> \<rparr>,
        \<lparr> dp_block_version = 7, dp_block_id = 3,
          dp_ptr = \<lparr> tpp_timestamp = 11, tpp_page = Some 1 \<rparr> \<rparr>]"
  "touched_entries merge_example [1, 2, 3] 3
     = [\<lparr> tp_block_version = 6, tp_block_id = 3, tp_tstamp = 12 \<rparr>,
        \<lparr> tp_block_version = 9, tp_block_id = 3, tp_tstamp = 14 \<rparr>]"
  "dirtied_entries merge_example [1, 2, 3] 4 = []"
  "touched_entries merge_example [1, 2, 3] 4
     = [\<lparr> tp_block_version = 2, tp_block_id = 4, tp_tstamp = 13 \<rparr>]"
  by (simp_all add: dirtied_entries_def touched_entries_def merge_example_def new_page_txn_t_def)

text \<open>
  On the flush set \<open>merge_example\<close>: the record of block 3 has the page of the dirtied
  entry of version 7, and the version and the timestamp of the touched entry of version
  9; the record of block 4, which was touched only, has no page.
\<close>

theorem compute_changes_merge_witness:
  "compute_changes merge_example [1, 2, 3] 3
     = Some \<lparr> version = 9, modified = True, change_page = Some 1, tstamp = 14 \<rparr>
   \<and> compute_changes merge_example [1, 2, 3] 4
     = Some \<lparr> version = 2, modified = False, change_page = None, tstamp = 13 \<rparr>"
proof
  show "compute_changes merge_example [1, 2, 3] 3
     = Some \<lparr> version = 9, modified = True, change_page = Some 1, tstamp = 14 \<rparr>"
    using compute_changes_merge [of merge_example "[1, 2, 3]" 3]
    unfolding merge_example_entries by auto
  show "compute_changes merge_example [1, 2, 3] 4
     = Some \<lparr> version = 2, modified = False, change_page = None, tstamp = 13 \<rparr>"
    using compute_changes_merge [of merge_example "[1, 2, 3]" 4]
    unfolding merge_example_entries by auto
qed

text \<open>
  C3 as stated fails where a dirtied entry and a touched entry of greater version
  collide. With transaction 1 dirtying block 3 at version 5 with timestamp 10 and
  transaction 2 touching it at version 6 with timestamp 12, an input on which both
  \<open>rassert\<close>s of the second loop hold, the touched entry does not win: the merged
  record is still marked modified and still has the page of the dirtied entry, and its
  timestamp is the touched entry's own.
\<close>

theorem compute_changes_merge_counterexample:
  "compute_changes (example_txns 12) [1, 2] 3
     = Some \<lparr> version = 6, modified = True, change_page = Some 0, tstamp = 12 \<rparr>
   \<and> compute_changes (example_txns 12) [1, 2] 3
     \<noteq> Some \<lparr> version = 6, modified = False, change_page = None, tstamp = 12 \<rparr>
   \<and> touched_rasserts
          (dirtied_change \<lparr> dp_block_version = 5, dp_block_id = 3,
                            dp_ptr = \<lparr> tpp_timestamp = 10, tpp_page = Some 0 \<rparr> \<rparr>)
          \<lparr> tp_block_version = 6, tp_block_id = 3, tp_tstamp = 12 \<rparr>"
  by (simp add: compute_changes_def example_txns_def new_page_txn_t_def
      insert_dirtied_def insert_touched_def dirtied_change_def Let_def
      touched_rasserts_def superceding_recency_def)

section \<open>The dirtier handoff\<close>

lemma connect_preceder_plain:
  "\<not> pre_spawn_flush (throttler_acq (h this_txn)) \<Longrightarrow> this_txn \<noteq> preceder \<Longrightarrow>
   connect_preceder this_txn preceder h =
     Some (if preceder \<in> set (preceders (h this_txn)) then h
           else h(this_txn := (h this_txn)\<lparr> preceders := preceders (h this_txn) @ [preceder] \<rparr>,
                  preceder := (h preceder)\<lparr> subseqers := subseqers (h preceder) @ [this_txn] \<rparr>))"
  by (simp add: connect_preceder_def Let_def)

text \<open>
  C2, as the code connects. When the acquirer \<open>a\<close> of transaction \<open>tx\<close> dirties a current
  page whose last dirtier \<open>prec\<close> is another transaction that is not in pre-spawn-flush
  state, \<open>dirty_the_page\<close> returns and has called \<open>prec->connect_preceder(tx)\<close>: \<open>tx\<close> is a
  preceder of \<open>prec\<close> (appended to its preceders, with \<open>prec\<close> appended to the subseqers
  of \<open>tx\<close>, unless it was a preceder already). The preceders of \<open>tx\<close> and the subseqers of
  \<open>prec\<close> are as before, and so are the edges of every other transaction.
\<close>

theorem dirty_the_page_connects_preceder:
  assumes cp: "current_page (acq_store pc a) = Some c"
    and tx: "the_txn (acq_store pc a) = Some tx"
    and ld: "last_dirtier (cp_store pc c) = Some prec"
    and ne: "prec \<noteq> tx"
    and nf: "\<not> pre_spawn_flush (throttler_acq (txn_store pc prec))"
  shows "\<exists>pc'. dirty_the_page a pc = Inr pc'
      \<and> tx \<in> set (preceders (txn_store pc' prec))
      \<and> preceders (txn_store pc' prec) =
            (if tx \<in> set (preceders (txn_store pc prec)) then preceders (txn_store pc prec)
             else preceders (txn_store pc prec) @ [tx])
      \<and> subseqers (txn_store pc' tx) =
            (if tx \<in> set (preceders (txn_store pc prec)) then subseqers (txn_store pc tx)
             else subseqers (txn_store pc tx) @ [prec])
      \<and> preceders (txn_store pc' tx) = preceders (txn_store pc tx)
      \<and> subseqers (txn_store pc' prec) = subseqers (txn_store pc prec)
      \<and> (\<forall>t. t \<noteq> tx \<and> t \<noteq> prec \<longrightarrow>
            preceders (txn_store pc' t) = preceders (txn_store pc t)
            \<and> subseqers (txn_store pc' t) = subseqers (txn_store pc t))"
  using assms
  by (auto simp add: dirty_the_page_def Let_def update_acq_def update_txn_def update_cp_def
      connect_preceder_plain)

text \<open>
  The handoff from transaction 1 to transaction 2 on block 9: 2 becomes the preceder
  of 1.
\<close>

theorem dirty_the_page_connects_preceder_witness:
  "current_page (acq_store (handoff_example False) 0) = Some 0
   \<and> the_txn (acq_store (handoff_example False) 0) = Some 2
   \<and> last_dirtier (cp_store (handoff_example False) 0) = Some 1
   \<and> (1 :: nat) \<noteq> 2
   \<and> \<not> pre_spawn_flush (throttler_acq (txn_store (handoff_example False) 1))
   \<and> preceders_after (dirty_the_page 0 (handoff_example False)) 1 = Some [2]"
proof -
  have h: "current_page (acq_store (handoff_example False) 0) = Some 0"
    "the_txn (acq_store (handoff_example False) 0) = Some 2"
    "last_dirtier (cp_store (handoff_example False) 0) = Some 1"
    "(1 :: nat) \<noteq> 2"
    "\<not> pre_spawn_flush (throttler_acq (txn_store (handoff_example False) 1))"
    "preceders (txn_store (handoff_example False) 1) = []"
    by (simp_all add: handoff_example_def new_page_cache_t_def new_page_txn_t_def
        default_current_page_acq_t_def default_throttler_acq_t_def new_current_page_t_def)
  show ?thesis
    using dirty_the_page_connects_preceder [OF h(1-5)] h
    by (auto simp add: preceders_after_def)
qed

text \<open>
  C2 as stated fails: the handoff does not call \<open>tx.connect_preceder(prec)\<close>. In the
  example, transaction 1 (\<open>prec\<close>) does not become a preceder of transaction 2 (\<open>tx\<close>),
  whose only preceder stays transaction 3; it is transaction 2 that becomes the preceder
  of transaction 1.
\<close>

theorem dirty_the_page_connects_preceder_counterexample:
  "last_dirtier (cp_store (handoff_example False) 0) = Some 1
   \<and> the_txn (acq_store (handoff_example False) 0) = Some 2
   \<and> \<not> pre_spawn_flush (throttler_acq (txn_store (handoff_example False) 1))
   \<and> preceders_after (dirty_the_page 0 (handoff_example False)) 2 = Some [3]
   \<and> preceders_after (dirty_the_page 0 (handoff_example False)) 1 = Some [2]
   \<and> subseqers_after (dirty_the_page 0 (handoff_example False)) 2 = Some [1]"
  by (simp add: preceders_after_def subseqers_after_def
      handoff_example_def dirty_the_page_def Let_def update_acq_def update_txn_def
      update_cp_def connect_preceder_def new_page_cache_t_def new_page_txn_t_def
      default_current_page_acq_t_def default_throttler_acq_t_def new_current_page_t_def)

text \<open>
  C5. When the acquirer \<open>a\<close> of transaction \<open>tx\<close> dirties a current page whose last
  dirtier \<open>prec\<close> is another transaction that is in pre-spawn-flush state,
  \<open>dirty_the_page\<close> returns, it has appended to the snapshots of \<open>prec\<close> the snapshot made
  of the page's last dirtier version, the block id, the page body (null for a deleted
  block; the page of the current page, created if there was none) and the last dirtier
  recency, and the preceders and subseqers of every transaction are as before.
\<close>

theorem dirty_the_page_snapshots:
  assumes cp: "current_page (acq_store pc a) = Some c"
    and tx: "the_txn (acq_store pc a) = Some tx"
    and ld: "last_dirtier (cp_store pc c) = Some prec"
    and ne: "prec \<noteq> tx"
    and fl: "pre_spawn_flush (throttler_acq (txn_store pc prec))"
  shows "\<exists>pc'. dirty_the_page a pc = Inr pc'
      \<and> snapshotted_dirtied_pages (txn_store pc' prec) =
           snapshotted_dirtied_pages (txn_store pc prec)
           @ [\<lparr> dp_block_version = last_dirtier_version (cp_store pc c),
                dp_block_id = acq_block_id (acq_store pc a),
                dp_ptr = \<lparr> tpp_timestamp = last_dirtier_recency (cp_store pc c),
                           tpp_page = (if is_deleted (cp_store pc c) then None
                                       else case page (cp_store pc c) of
                                              Some p \<Rightarrow> Some p
                                            | None \<Rightarrow> Some (next_page pc)) \<rparr> \<rparr>]
      \<and> (\<forall>t. preceders (txn_store pc' t) = preceders (txn_store pc t)
            \<and> subseqers (txn_store pc' t) = subseqers (txn_store pc t))"
  using assms
  by (auto simp add: dirty_the_page_def Let_def update_acq_def update_txn_def update_cp_def
      take_dirtier_snapshot_def the_page_for_read_or_deleted_def tpp_init_def
      convert_from_serializer_if_necessary_def new_page_t_def page_ptr_init_def
      split: option.splits)

text \<open>
  The handoff from transaction 1, in pre-spawn-flush state, to transaction 2 on block 9:
  transaction 1 receives the snapshot of version 2 with recency 5, on a page created for
  it.
\<close>

theorem dirty_the_page_snapshots_witness:
  "current_page (acq_store (handoff_example True) 0) = Some 0
   \<and> the_txn (acq_store (handoff_example True) 0) = Some 2
   \<and> last_dirtier (cp_store (handoff_example True) 0) = Some 1
   \<and> (1 :: nat) \<noteq> 2
   \<and> pre_spawn_flush (throttler_acq (txn_store (handoff_example True) 1))
   \<and> snapshots_after (dirty_the_page 0 (handoff_example True)) 1
       = Some [\<lparr> dp_block_version = 2, dp_block_id = 9,
                  dp_ptr = \<lparr> tpp_timestamp = 5, tpp_page = Some 0 \<rparr> \<rparr>]
   \<and> preceders_after (dirty_the_page 0 (handoff_example True)) 1 = Some []
   \<and> preceders_after (dirty_the_page 0 (handoff_example True)) 2 = Some [3]"
proof -
  have h: "current_page (acq_store (handoff_example True) 0) = Some 0"
    "the_txn (acq_store (handoff_example True) 0) = Some 2"
    "last_dirtier (cp_store (handoff_example True) 0) = Some 1"
    "(1 :: nat) \<noteq> 2"
    "pre_spawn_flush (throttler_acq (txn_store (handoff_example True) 1))"
    by (simp_all add: handoff_example_def new_page_cache_t_def new_page_txn_t_def
        default_current_page_acq_t_def default_throttler_acq_t_def new_current_page_t_def)
  have v: "snapshotted_dirtied_pages (txn_store (handoff_example True) 1) = []"
    "last_dirtier_version (cp_store (handoff_example True) 0) = 2"
    "acq_block_id (acq_store (handoff_example True) 0) = 9"
    "last_dirtier_recency (cp_store (handoff_example True) 0) = 5"
    "\<not> is_deleted (cp_store (handoff_example True) 0)"
    "page (cp_store (handoff_example True) 0) = None"
    "next_page (handoff_example True) = 0"
    "preceders (txn_store (handoff_example True) 1) = []"
    "preceders (txn_store (handoff_example True) 2) = [3]"
    by (simp_all add: handoff_example_def new_page_cache_t_def new_page_txn_t_def
        default_current_page_acq_t_def default_throttler_acq_t_def new_current_page_t_def)
  show ?thesis
    using dirty_the_page_snapshots [OF h] h v
    by (auto simp add: snapshots_after_def preceders_after_def)
qed

section \<open>Admission to the queue of a current page\<close>

subsection \<open>Positions in a queue\<close>

lemma list_index_less_iff: "list_index q a < length q \<longleftrightarrow> a \<in> set q"
  by (induction q) (auto simp add: list_index_def)

lemma nth_list_index: "a \<in> set q \<Longrightarrow> q ! list_index q a = a"
  by (induction q) (auto simp add: list_index_def)

lemma list_index_nth: "distinct q \<Longrightarrow> i < length q \<Longrightarrow> list_index q (q ! i) = i"
proof (induction q arbitrary: i)
  case Nil then show ?case by simp
next
  case (Cons x q)
  show ?case
  proof (cases i)
    case 0 then show ?thesis by (simp add: list_index_def)
  next
    case (Suc k)
    then have "k < length q" "q ! k \<in> set q" using Cons.prems by auto
    then have "x \<noteq> q ! k" using Cons.prems by auto
    then show ?thesis using Suc Cons.IH [of k] Cons.prems by (simp add: list_index_def)
  qed
qed

lemma length_remove_nth: "i < length q \<Longrightarrow> length (remove_nth i q) = length q - 1"
  by (simp add: remove_nth_def)

lemma nth_remove_nth:
  "k < length q - 1 \<Longrightarrow> remove_nth i q ! k = (if k < i then q ! k else q ! Suc k)"
  by (auto simp add: remove_nth_def nth_append min_def)

lemma set_remove_nth: "set (remove_nth i q) \<subseteq> set q"
proof -
  have "set (take i q) \<subseteq> set q" by (rule set_take_subset)
  moreover have "set (drop (Suc i) q) \<subseteq> set q" by (rule set_drop_subset)
  ultimately show ?thesis by (simp add: remove_nth_def)
qed

lemma distinct_remove_nth: "distinct q \<Longrightarrow> distinct (remove_nth i q)"
proof -
  assume d: "distinct q"
  have "set (take i q) \<inter> set (drop (Suc i) q) = {}"
    using d by (intro set_take_disj_set_drop_if_distinct) simp_all
  then show ?thesis using d by (simp add: remove_nth_def)
qed

lemma same_queues_fifo_inv: "same_queues pc pc' \<Longrightarrow> fifo_inv pc \<Longrightarrow> fifo_inv pc'"
  unfolding same_queues_def fifo_inv_def no_read_behind_write_def by metis

lemma same_queues_refl: "same_queues pc pc"
  by (simp add: same_queues_def)

lemma same_queues_trans: "same_queues pc pc1 \<Longrightarrow> same_queues pc1 pc2 \<Longrightarrow> same_queues pc pc2"
  by (simp add: same_queues_def)

lemma fifo_invD:
  assumes "fifo_inv pc"
  shows "distinct (acquirers (cp_store pc c))"
    and "no_read_behind_write pc c"
    and "a \<in> set (acquirers (cp_store pc c)) \<Longrightarrow> page_cache (acq_store pc a)"
    and "a \<in> set (acquirers (cp_store pc c)) \<Longrightarrow> current_page (acq_store pc a) = Some c"
    and "\<not> page_cache (acq_store pc a) \<Longrightarrow> \<not> read_cond (acq_store pc a)"
  using assms by (auto simp add: fifo_inv_def)

lemma fifo_invI:
  assumes "\<And>c. distinct (acquirers (cp_store pc c))"
    and "\<And>c. no_read_behind_write pc c"
    and "\<And>c a. a \<in> set (acquirers (cp_store pc c)) \<Longrightarrow>
           page_cache (acq_store pc a) \<and> current_page (acq_store pc a) = Some c"
    and "\<And>a. \<not> page_cache (acq_store pc a) \<Longrightarrow> \<not> read_cond (acq_store pc a)"
  shows "fifo_inv pc"
  using assms by (auto simp add: fifo_inv_def)

lemma no_read_behind_write_cong:
  assumes "acquirers (cp_store pc' c) = acquirers (cp_store pc c)"
    and "\<And>a. access (acq_store pc' a) = access (acq_store pc a)"
    and "\<And>a. read_cond (acq_store pc' a) = read_cond (acq_store pc a)"
  shows "no_read_behind_write pc' c = no_read_behind_write pc c"
  by (simp add: no_read_behind_write_def assms)

text \<open>Pulsing the read signal at position \<open>i\<close> when only readers stand before it.\<close>

lemma fifo_inv_pulse_read_available:
  assumes inv: "fifo_inv pc" and i: "i < length (acquirers (cp_store pc c))"
    and readers: "\<forall>k<i. access (acq_store pc (acquirers (cp_store pc c) ! k)) = access_read"
  shows "fifo_inv (pulse_read_available (acquirers (cp_store pc c) ! i) pc)"
proof -
  define cur where "cur = acquirers (cp_store pc c) ! i"
  define pc1 where "pc1 = pulse_read_available cur pc"
  have q: "acquirers (cp_store pc1 c') = acquirers (cp_store pc c')" for c'
    by (simp add: pc1_def pulse_read_available_def update_acq_def)
  have acc: "access (acq_store pc1 a) = access (acq_store pc a)"
    and pcache: "page_cache (acq_store pc1 a) = page_cache (acq_store pc a)"
    and cpage: "current_page (acq_store pc1 a) = current_page (acq_store pc a)"
    and rc: "read_cond (acq_store pc1 a) = (a = cur \<or> read_cond (acq_store pc a))" for a
    by (simp_all add: pc1_def pulse_read_available_def update_acq_def)
  have cur_in: "cur \<in> set (acquirers (cp_store pc c))" using i by (simp add: cur_def)
  have cur_c: "page_cache (acq_store pc cur)" "current_page (acq_store pc cur) = Some c"
    using inv cur_in by (auto simp add: fifo_inv_def)
  have nrbw: "no_read_behind_write pc1 c'" for c'
    unfolding no_read_behind_write_def q acc rc
  proof (intro allI impI)
    fix k j
    assume h: "k < j \<and> j < length (acquirers (cp_store pc c'))
        \<and> access (acq_store pc (acquirers (cp_store pc c') ! k)) = access_write"
    have old: "\<not> read_cond (acq_store pc (acquirers (cp_store pc c') ! j))"
      using inv h by (auto simp add: fifo_inv_def no_read_behind_write_def)
    have "acquirers (cp_store pc c') ! j \<noteq> cur"
    proof
      assume e: "acquirers (cp_store pc c') ! j = cur"
      have "cur \<in> set (acquirers (cp_store pc c'))" using h e by (metis nth_mem)
      then have "current_page (acq_store pc cur) = Some c'" using inv by (auto simp add: fifo_inv_def)
      then have cc: "c' = c" using cur_c by simp
      have "distinct (acquirers (cp_store pc c))" using inv by (simp add: fifo_inv_def)
      then have "j = i" using e h i unfolding cc cur_def by (simp add: nth_eq_iff_index_eq)
      then show False using readers h unfolding cc by auto
    qed
    then show "\<not> (acquirers (cp_store pc c') ! j = cur
        \<or> read_cond (acq_store pc (acquirers (cp_store pc c') ! j)))"
      using old by simp
  qed
  have "fifo_inv pc1"
    unfolding fifo_inv_def
    using inv nrbw cur_c by (auto simp add: q acc pcache cpage rc fifo_inv_def)
  then show ?thesis by (simp add: pc1_def cur_def)
qed

text \<open>Taking the acquirer at position \<open>i\<close> out of the queue of \<open>c\<close>.\<close>

lemma fifo_inv_removed:
  assumes inv: "fifo_inv pc" and i: "i < length (acquirers (cp_store pc c))"
    and qc: "acquirers (cp_store pc' c) = remove_nth i (acquirers (cp_store pc c))"
    and qo: "\<And>c'. c' \<noteq> c \<Longrightarrow> acquirers (cp_store pc' c') = acquirers (cp_store pc c')"
    and acc: "\<And>a. access (acq_store pc' a) = access (acq_store pc a)"
    and rc: "\<And>a. read_cond (acq_store pc' a) = read_cond (acq_store pc a)"
    and pcache: "\<And>a. page_cache (acq_store pc' a) = page_cache (acq_store pc a)"
    and cpage: "\<And>a. current_page (acq_store pc' a) = current_page (acq_store pc a)"
  shows "fifo_inv pc'"
proof -
  define q where "q = acquirers (cp_store pc c)"
  have d: "distinct q" and n: "no_read_behind_write pc c"
    and m: "\<And>a. a \<in> set q \<Longrightarrow> page_cache (acq_store pc a) \<and> current_page (acq_store pc a) = Some c"
    using inv by (auto simp add: fifo_inv_def q_def)
  have len: "length (remove_nth i q) = length q - 1" using i by (simp add: length_remove_nth q_def)
  have n': "no_read_behind_write pc' c"
    unfolding no_read_behind_write_def qc acc rc q_def [symmetric]
  proof (intro allI impI)
    fix k j
    assume h: "k < j \<and> j < length (remove_nth i q)
        \<and> access (acq_store pc (remove_nth i q ! k)) = access_write"
    define k' where "k' = (if k < i then k else Suc k)"
    define j' where "j' = (if j < i then j else Suc j)"
    have kj: "k' < j'" "j' < length q" using h len by (auto simp add: k'_def j'_def)
    have "remove_nth i q ! k = q ! k'" "remove_nth i q ! j = q ! j'"
      using h len by (simp_all add: nth_remove_nth k'_def j'_def)
    then show "\<not> read_cond (acq_store pc (remove_nth i q ! j))"
      using n h kj unfolding no_read_behind_write_def q_def [symmetric] by metis
  qed
  have c_ok: "distinct (acquirers (cp_store pc' c)) \<and> no_read_behind_write pc' c
      \<and> (\<forall>a \<in> set (acquirers (cp_store pc' c)).
            page_cache (acq_store pc' a) \<and> current_page (acq_store pc' a) = Some c)"
    using d n' m set_remove_nth [of i q]
    by (auto simp add: qc q_def [symmetric] distinct_remove_nth pcache cpage)
  have o_ok: "distinct (acquirers (cp_store pc' c')) \<and> no_read_behind_write pc' c'
      \<and> (\<forall>a \<in> set (acquirers (cp_store pc' c')).
            page_cache (acq_store pc' a) \<and> current_page (acq_store pc' a) = Some c')"
    if "c' \<noteq> c" for c'
    using fifo_invD(1,2) [OF inv, of c'] fifo_invD(3,4) [OF inv, of _ c']
      no_read_behind_write_cong [of pc' c' pc, OF qo [OF that] acc rc]
    by (simp add: qo [OF that] pcache cpage)
  show ?thesis
  proof (rule fifo_invI)
    fix c' a
    show "distinct (acquirers (cp_store pc' c'))" using c_ok o_ok by (cases "c' = c") auto
    show "no_read_behind_write pc' c'" using c_ok o_ok by (cases "c' = c") auto
    show "a \<in> set (acquirers (cp_store pc' c')) \<Longrightarrow>
         page_cache (acq_store pc' a) \<and> current_page (acq_store pc' a) = Some c'"
      using c_ok o_ok by (cases "c' = c") auto
    show "\<not> page_cache (acq_store pc' a) \<Longrightarrow> \<not> read_cond (acq_store pc' a)"
      using fifo_invD(5) [OF inv, of a] by (simp add: rc pcache)
  qed
qed

lemma fifo_inv_snapshot_and_remove:
  assumes "fifo_inv pc" and "i < length (acquirers (cp_store pc c))"
  shows "fifo_inv (snapshot_and_remove r c i pc)"
  using assms
  by (rule fifo_inv_removed)
    (simp_all add: snapshot_and_remove_def the_page_for_read_or_deleted_def tpp_init_def
      convert_from_serializer_if_necessary_def new_page_t_def page_ptr_init_def
      update_acq_def update_cp_def Let_def split: option.splits prod.splits)

lemma same_queues_pulse_write_available: "same_queues pc (pulse_write_available a pc)"
  by (simp add: same_queues_def pulse_write_available_def update_acq_def)

text \<open>The loop of \<open>pulse_pulsables\<close> keeps the invariant when only readers stand before \<open>i\<close>.\<close>

lemma pulse_loop_fifo_inv:
  "pulse_loop r c i pc = Inr pc' \<Longrightarrow> fifo_inv pc \<Longrightarrow>
   \<forall>k<i. access (acq_store pc (acquirers (cp_store pc c) ! k)) = access_read \<Longrightarrow>
   fifo_inv pc'"
proof (induction r c i pc rule: pulse_loop.induct)
  case (1 r c i pc)
  define q where "q = acquirers (cp_store pc c)"
  show ?case
  proof (cases "length q \<le> i")
    case True
    then have "pc' = pc" using "1.prems"(1) by (simp add: pulse_loop.simps [of r c i pc] q_def)
    then show ?thesis using "1.prems"(2) by simp
  next
    case False
    define cur where "cur = q ! i"
    define pc1 where "pc1 = pulse_read_available cur pc"
    have i: "i < length q" using False by simp
    have nl: "\<not> length (acquirers (cp_store pc c)) \<le> i" using False by (simp add: q_def)
    have inv1: "fifo_inv pc1"
      unfolding pc1_def cur_def q_def
      using "1.prems"(2) i "1.prems"(3) unfolding q_def by (rule fifo_inv_pulse_read_available)
    have q1: "acquirers (cp_store pc1 c) = q"
      by (simp add: pc1_def q_def pulse_read_available_def update_acq_def)
    have acc1: "access (acq_store pc1 a) = access (acq_store pc a)" for a
      by (simp add: pc1_def pulse_read_available_def update_acq_def)
    have readers1: "\<forall>k<i. access (acq_store pc1 (acquirers (cp_store pc1 c) ! k)) = access_read"
      using "1.prems"(3) by (simp add: q1 acc1 q_def)
    show ?thesis
    proof (cases "access (acq_store pc1 cur) = access_read")
      case True
      note rd = True
      show ?thesis
      proof (cases "declared_snapshotted (acq_store pc1 cur)")
        case True
        define pc2 where "pc2 = snapshot_and_remove r c i pc1"
        have run: "pulse_loop r c i pc2 = Inr pc'"
          using "1.prems"(1) False rd True
          by (simp add: pulse_loop.simps [of r c i pc] q_def [symmetric] cur_def [symmetric]
              pc1_def [symmetric] pc2_def Let_def)
        have inv2: "fifo_inv pc2"
          unfolding pc2_def using inv1 i by (intro fifo_inv_snapshot_and_remove) (simp_all add: q1)
        have q2: "acquirers (cp_store pc2 c) = remove_nth i q"
          by (simp add: pc2_def acquirers_snapshot_and_remove q1)
        have acc2: "access (acq_store pc2 a) = access (acq_store pc1 a)" for a
          by (simp add: pc2_def snapshot_and_remove_def the_page_for_read_or_deleted_def tpp_init_def
              convert_from_serializer_if_necessary_def new_page_t_def page_ptr_init_def
              update_acq_def update_cp_def Let_def split: option.splits prod.splits)
        have readers2: "\<forall>k<i. access (acq_store pc2 (acquirers (cp_store pc2 c) ! k)) = access_read"
          using readers1 i by (simp add: q2 acc2 q1 nth_remove_nth)
        show ?thesis
          using "1.IH"(1) [OF nl cur_def [unfolded q_def] pc1_def rd True
              run [unfolded pc2_def] inv2 [unfolded pc2_def] readers2 [unfolded pc2_def]] .
      next
        case False
        note ns = False
        have run: "pulse_loop r c (Suc i) pc1 = Inr pc'"
          using "1.prems"(1) \<open>\<not> length q \<le> i\<close> rd False
          by (simp add: pulse_loop.simps [of r c i pc] q_def [symmetric] cur_def [symmetric]
              pc1_def [symmetric] Let_def)
        have readers': "\<forall>k<Suc i. access (acq_store pc1 (acquirers (cp_store pc1 c) ! k)) = access_read"
          using readers1 rd by (auto simp add: q1 cur_def less_Suc_eq)
        show ?thesis
          using "1.IH"(2) [OF nl cur_def [unfolded q_def] pc1_def rd ns
              run inv1 readers'] .
      qed
    next
      case False
      have "pc' = pc1 \<or> pc' = pulse_write_available cur pc1"
        using "1.prems"(1) \<open>\<not> length q \<le> i\<close> False
        by (auto simp add: pulse_loop.simps [of r c i pc] q_def [symmetric] cur_def [symmetric]
            pc1_def [symmetric] Let_def split: if_splits)
      then show ?thesis
        using inv1 same_queues_fifo_inv [OF same_queues_pulse_write_available, of pc1 cur] by auto
    qed
  qed
qed

lemma pulse_pulsables_fifo_inv:
  assumes run: "pulse_pulsables c a pc = Inr pc'" and inv: "fifo_inv pc"
  shows "fifo_inv pc'"
proof -
  define q where "q = acquirers (cp_store pc c)"
  define i where "i = list_index q a"
  show ?thesis
  proof (cases "pc' = pc")
    case True then show ?thesis using inv by simp
  next
    case False
    have i: "i < length q"
      and prev: "i = 0 \<or> (access (acq_store pc (q ! (i - 1))) = access_read
                    \<and> read_cond (acq_store pc (q ! (i - 1))))"
      and loop: "pulse_loop (recency_for_block_id pc (acq_block_id (acq_store pc a))) c i pc = Inr pc'"
      using run False
      by (auto simp add: pulse_pulsables_def Let_def q_def [symmetric] i_def [symmetric]
          split: if_splits)
    have readers: "\<forall>k<i. access (acq_store pc (acquirers (cp_store pc c) ! k)) = access_read"
    proof (intro allI impI)
      fix k assume k: "k < i"
      then have i0: "i \<noteq> 0" by simp
      then have p: "access (acq_store pc (q ! (i - 1))) = access_read"
        "read_cond (acq_store pc (q ! (i - 1)))" using prev by simp_all
      show "access (acq_store pc (acquirers (cp_store pc c) ! k)) = access_read"
      proof (cases "k = i - 1")
        case True then show ?thesis using p by (simp add: q_def)
      next
        case False
        then have "k < i - 1" "i - 1 < length q" using k i by simp_all
        then have "access (acq_store pc (q ! k)) \<noteq> access_write"
          using fifo_invD(2) [OF inv, of c] p(2)
          unfolding no_read_behind_write_def q_def [symmetric] by blast
        then show ?thesis by (cases "access (acq_store pc (q ! k))") (simp_all add: q_def)
      qed
    qed
    show ?thesis using loop inv readers by (rule pulse_loop_fifo_inv)
  qed
qed

text \<open>Appending an initialised acquirer whose read signal is not pulsed.\<close>

lemma fifo_inv_appended:
  assumes inv: "fifo_inv pc"
    and fresh: "\<And>c'. a \<notin> set (acquirers (cp_store pc c'))"
    and qc: "acquirers (cp_store pc' c) = acquirers (cp_store pc c) @ [a]"
    and qo: "\<And>c'. c' \<noteq> c \<Longrightarrow> acquirers (cp_store pc' c') = acquirers (cp_store pc c')"
    and acc: "\<And>b. b \<noteq> a \<Longrightarrow> access (acq_store pc' b) = access (acq_store pc b)"
    and rc: "\<And>b. read_cond (acq_store pc' b) = read_cond (acq_store pc b)"
    and pcache: "\<And>b. b \<noteq> a \<Longrightarrow> page_cache (acq_store pc' b) = page_cache (acq_store pc b)"
    and cpage: "\<And>b. b \<noteq> a \<Longrightarrow> current_page (acq_store pc' b) = current_page (acq_store pc b)"
    and a: "page_cache (acq_store pc' a)" "current_page (acq_store pc' a) = Some c"
      "\<not> read_cond (acq_store pc a)"
  shows "fifo_inv pc'"
proof (rule fifo_invI)
  fix c'
  define q where "q = acquirers (cp_store pc c')"
  have mem: "\<And>b. b \<in> set q \<Longrightarrow> b \<noteq> a" using fresh [of c'] by (auto simp add: q_def)
  show "distinct (acquirers (cp_store pc' c'))"
    using fifo_invD(1) [OF inv, of c'] fresh [of c'] qc qo [of c'] by (cases "c' = c") auto
  show "no_read_behind_write pc' c'"
  proof (cases "c' = c")
    case False
    have "\<And>k. k < length q \<Longrightarrow> access (acq_store pc' (q ! k)) = access (acq_store pc (q ! k))"
      using mem acc by (metis nth_mem)
    then show ?thesis
      using fifo_invD(2) [OF inv, of c'] qo [OF False]
      unfolding no_read_behind_write_def rc q_def [symmetric] by auto
  next
    case True
    show ?thesis
      unfolding no_read_behind_write_def True qc rc
    proof (intro allI impI)
      fix k j
      assume h: "k < j \<and> j < length (acquirers (cp_store pc c) @ [a])
          \<and> access (acq_store pc' ((acquirers (cp_store pc c) @ [a]) ! k)) = access_write"
      show "\<not> read_cond (acq_store pc ((acquirers (cp_store pc c) @ [a]) ! j))"
      proof (cases "j < length (acquirers (cp_store pc c))")
        case False
        then have "(acquirers (cp_store pc c) @ [a]) ! j = a" using h by (simp add: nth_append)
        then show ?thesis using a(3) by simp
      next
        case True
        have kq: "k < length (acquirers (cp_store pc c))" using h True by simp
        then have "acquirers (cp_store pc c) ! k \<noteq> a" using fresh [of c] by (metis nth_mem)
        then have "access (acq_store pc (acquirers (cp_store pc c) ! k)) = access_write"
          using h kq acc by (simp add: nth_append)
        moreover have "\<not> read_cond (acq_store pc (acquirers (cp_store pc c) ! j))"
          if "access (acq_store pc (acquirers (cp_store pc c) ! k)) = access_write"
          using fifo_invD(2) [OF inv, of c] h True that
          unfolding no_read_behind_write_def by blast
        ultimately show ?thesis using True by (simp add: nth_append)
      qed
    qed
  qed
next
  fix c' b
  assume b: "b \<in> set (acquirers (cp_store pc' c'))"
  show "page_cache (acq_store pc' b) \<and> current_page (acq_store pc' b) = Some c'"
  proof (cases "b = a")
    case True
    have "c' = c"
    proof (rule ccontr)
      assume "c' \<noteq> c"
      then show False using b True qo [of c'] fresh [of c'] by simp
    qed
    then show ?thesis using True a by simp
  next
    case False
    then have "b \<in> set (acquirers (cp_store pc c'))"
      using b qc qo [of c'] by (cases "c' = c") auto
    then show ?thesis
      using fifo_invD(3,4) [OF inv, of b c'] False pcache cpage by simp
  qed
next
  fix b
  assume "\<not> page_cache (acq_store pc' b)"
  then have "b \<noteq> a" using a by auto
  then show "\<not> read_cond (acq_store pc' b)"
    using fifo_invD(5) [OF inv, of b] \<open>\<not> page_cache (acq_store pc' b)\<close> pcache rc by simp
qed

text \<open>
  \<open>add_acquirer\<close> assigns the version, does its bookkeeping on the transactions, appends
  the acquirer and pulses: what the state is like before the pulsing.
\<close>

lemma add_acquirer_decompose:
  assumes "add_acquirer c a pc = Inr pc'"
  shows "\<exists>pcq. pulse_pulsables c a pcq = Inr pc'
      \<and> acquirers (cp_store pcq c) = acquirers (cp_store pc c) @ [a]
      \<and> (\<forall>c'. c' \<noteq> c \<longrightarrow> cp_store pcq c' = cp_store pc c')
      \<and> (\<forall>b. access (acq_store pcq b) = access (acq_store pc b)
             \<and> read_cond (acq_store pcq b) = read_cond (acq_store pc b)
             \<and> page_cache (acq_store pcq b) = page_cache (acq_store pc b)
             \<and> current_page (acq_store pcq b) = current_page (acq_store pc b)
             \<and> (b \<noteq> a \<longrightarrow> block_version (acq_store pcq b) = block_version (acq_store pc b)))
      \<and> block_version (acq_store pcq a)
          = (if access (acq_store pc a) = access_write
             then subsequent (last_write_acquirer_version (cp_store pc c))
             else last_write_acquirer_version (cp_store pc c))
      \<and> last_write_acquirer_version (cp_store pcq c) = block_version (acq_store pcq a)
      \<and> block_id (cp_store pcq c) = block_id (cp_store pc c)
      \<and> is_deleted (cp_store pcq c) = is_deleted (cp_store pc c)
      \<and> current_pages pcq = current_pages pc \<and> next_cp pcq = next_cp pc"
  using assms
  unfolding add_acquirer_def Let_def
  by (auto simp add: update_acq_def update_cp_def update_txn_def
      split: if_splits option.splits sum.splits)

subsection \<open>Operations that leave the queues alone\<close>

lemma same_queues_update_acq:
  assumes "\<And>x. access (f x) = access x" "\<And>x. read_cond (f x) = read_cond x"
    "\<And>x. page_cache (f x) = page_cache x" "\<And>x. current_page (f x) = current_page x"
  shows "same_queues pc (update_acq a f pc)"
  by (simp add: same_queues_def update_acq_def assms)

lemma same_queues_update_cp:
  assumes "\<And>x. acquirers (f x) = acquirers x"
  shows "same_queues pc (update_cp c f pc)"
  by (simp add: same_queues_def update_cp_def assms)

lemma same_queues_txn_store: "same_queues pc (pc\<lparr> txn_store := h \<rparr>)"
  by (simp add: same_queues_def)

lemma same_queues_reset_page_ptr: "same_queues pc (reset_page_ptr po pc)"
  by (cases po) (simp_all add: same_queues_def reset_page_ptr_def)

lemma same_queues_current_pages: "same_queues pc (pc\<lparr> current_pages := m \<rparr>)"
  by (simp add: same_queues_def)

lemma same_queues_reset: "same_queues pc (reset nb c pc)"
proof -
  have "same_queues pc (reset_page_ptr (page (cp_store pc c)) pc)"
    by (rule same_queues_reset_page_ptr)
  then show ?thesis
    by (simp add: same_queues_def reset_def Let_def)
qed

lemma same_queues_consider_evicting:
  "same_queues pc (consider_evicting_current_page nb b pc)"
proof -
  have "same_queues pc (reset nb c (pc\<lparr> current_pages := m \<rparr>))" for c m
    using same_queues_trans [OF same_queues_current_pages same_queues_reset] .
  then show ?thesis
    by (simp add: consider_evicting_current_page_def same_queues_refl split: option.splits)
qed

lemma txn_remove_acquirer_txn_store:
  "txn_remove_acquirer t a pc = Inr pc' \<Longrightarrow> pc' = pc\<lparr> txn_store := txn_store pc' \<rparr>"
  unfolding txn_remove_acquirer_def Let_def
  by (auto simp add: update_txn_def split: if_splits)

lemma txn_remove_acquirer_same_queues:
  "txn_remove_acquirer t a pc = Inr pc' \<Longrightarrow> same_queues pc pc'"
  using txn_remove_acquirer_txn_store [of t a pc pc'] same_queues_txn_store [of pc "txn_store pc'"]
  by simp

lemma same_queues_release_snapshot: "same_queues pc (release_snapshot a pc)"
  unfolding release_snapshot_def
  by (rule same_queues_trans [OF same_queues_reset_page_ptr same_queues_update_acq]) simp_all

lemma remove_keepalive_same_queues:
  "remove_keepalive c pc = Inr pc' \<Longrightarrow> same_queues pc pc'"
  unfolding remove_keepalive_def
  by (auto split: if_splits intro: same_queues_update_cp)

lemma remove_keepalive_release_same_queues:
  "remove_keepalive c (release_snapshot a pc) = Inr pc' \<Longrightarrow> same_queues pc pc'"
  using same_queues_trans [OF same_queues_release_snapshot remove_keepalive_same_queues] .

subsection \<open>Joining and leaving a queue\<close>

lemma add_acquirer_fifo_inv:
  assumes run: "add_acquirer c a pc = Inr pc'" and inv: "fifo_inv pc"
    and fresh: "\<And>c'. a \<notin> set (acquirers (cp_store pc c'))"
    and a: "page_cache (acq_store pc a)" "current_page (acq_store pc a) = Some c"
      "\<not> read_cond (acq_store pc a)"
  shows "fifo_inv pc'"
proof -
  from add_acquirer_decompose [OF run] obtain pcq where
    d: "pulse_pulsables c a pcq = Inr pc'
      \<and> acquirers (cp_store pcq c) = acquirers (cp_store pc c) @ [a]
      \<and> (\<forall>c'. c' \<noteq> c \<longrightarrow> cp_store pcq c' = cp_store pc c')
      \<and> (\<forall>b. access (acq_store pcq b) = access (acq_store pc b)
             \<and> read_cond (acq_store pcq b) = read_cond (acq_store pc b)
             \<and> page_cache (acq_store pcq b) = page_cache (acq_store pc b)
             \<and> current_page (acq_store pcq b) = current_page (acq_store pc b)
             \<and> (b \<noteq> a \<longrightarrow> block_version (acq_store pcq b) = block_version (acq_store pc b)))
      \<and> block_version (acq_store pcq a)
          = (if access (acq_store pc a) = access_write
             then subsequent (last_write_acquirer_version (cp_store pc c))
             else last_write_acquirer_version (cp_store pc c))
      \<and> last_write_acquirer_version (cp_store pcq c) = block_version (acq_store pcq a)
      \<and> block_id (cp_store pcq c) = block_id (cp_store pc c)
      \<and> is_deleted (cp_store pcq c) = is_deleted (cp_store pc c)
      \<and> current_pages pcq = current_pages pc \<and> next_cp pcq = next_cp pc" ..
  have p: "pulse_pulsables c a pcq = Inr pc'"
    and qc: "acquirers (cp_store pcq c) = acquirers (cp_store pc c) @ [a]"
    and qo: "\<And>c'. c' \<noteq> c \<Longrightarrow> cp_store pcq c' = cp_store pc c'"
    and v: "\<And>b. access (acq_store pcq b) = access (acq_store pc b)"
      "\<And>b. read_cond (acq_store pcq b) = read_cond (acq_store pc b)"
      "\<And>b. page_cache (acq_store pcq b) = page_cache (acq_store pc b)"
      "\<And>b. current_page (acq_store pcq b) = current_page (acq_store pc b)"
    using d by simp_all
  have "fifo_inv pcq"
    using inv fresh qc
  proof (rule fifo_inv_appended)
    show "\<And>c'. c' \<noteq> c \<Longrightarrow> acquirers (cp_store pcq c') = acquirers (cp_store pc c')"
      using qo by simp
  qed (simp_all add: v a)
  then show ?thesis by (rule pulse_pulsables_fifo_inv [OF p])
qed

lemma remove_acquirer_fifo_inv:
  assumes run: "remove_acquirer c a pc = Inr pc'" and inv: "fifo_inv pc"
  shows "fifo_inv pc'"
proof -
  define q where "q = acquirers (cp_store pc c)"
  define i where "i = list_index q a"
  define pc1 where "pc1 = update_cp c (\<lambda>cp. cp\<lparr> acquirers := remove_nth i (acquirers cp) \<rparr>) pc"
  have i: "i < length q"
  proof (rule ccontr)
    assume "\<not> i < length q"
    then have "remove_acquirer c a pc = Inl Not_in_list"
      by (simp add: remove_acquirer_def Let_def q_def [symmetric] i_def [symmetric])
    then show False using run by simp
  qed
  have inv1: "fifo_inv pc1"
    using inv i [unfolded q_def] by (rule fifo_inv_removed) (simp_all add: pc1_def update_cp_def)
  have e: "remove_acquirer c a pc =
      (case (if Suc i < length q then Some (q ! Suc i) else None) of
         None \<Rightarrow> Inr pc1 | Some n \<Rightarrow> pulse_pulsables c n pc1)"
    using i by (simp add: remove_acquirer_def Let_def q_def [symmetric] i_def [symmetric] pc1_def)
  show ?thesis
  proof (cases "Suc i < length q")
    case True
    then have "pulse_pulsables c (q ! Suc i) pc1 = Inr pc'" using run e by simp
    then show ?thesis using inv1 by (rule pulse_pulsables_fifo_inv)
  next
    case False
    then have "pc' = pc1" using run e by simp
    then show ?thesis using inv1 by simp
  qed
qed

lemma fifo_inv_readonly:
  assumes inv: "fifo_inv pc"
  shows "fifo_inv (update_acq a (\<lambda>acq. acq\<lparr> access := access_read \<rparr>) pc)"
proof -
  define pc1 where "pc1 = update_acq a (\<lambda>acq. acq\<lparr> access := access_read \<rparr>) pc"
  have q: "\<And>c. acquirers (cp_store pc1 c) = acquirers (cp_store pc c)"
    and rc: "\<And>b. read_cond (acq_store pc1 b) = read_cond (acq_store pc b)"
    and pcache: "\<And>b. page_cache (acq_store pc1 b) = page_cache (acq_store pc b)"
    and cpage: "\<And>b. current_page (acq_store pc1 b) = current_page (acq_store pc b)"
    and acc: "\<And>b. access (acq_store pc1 b) = access_write \<Longrightarrow> access (acq_store pc b) = access_write"
    by (simp_all add: pc1_def update_acq_def split: if_splits)
  have "fifo_inv pc1"
  proof (rule fifo_invI)
    fix c
    show "no_read_behind_write pc1 c"
      using fifo_invD(2) [OF inv, of c] acc
      unfolding no_read_behind_write_def q rc by blast
    show "distinct (acquirers (cp_store pc1 c))" using fifo_invD(1) [OF inv, of c] by (simp add: q)
  next
    fix c b
    assume "b \<in> set (acquirers (cp_store pc1 c))"
    then show "page_cache (acq_store pc1 b) \<and> current_page (acq_store pc1 b) = Some c"
      using fifo_invD(3,4) [OF inv, of b c] by (simp add: q pcache cpage)
  next
    fix b
    assume "\<not> page_cache (acq_store pc1 b)"
    then show "\<not> read_cond (acq_store pc1 b)"
      using fifo_invD(5) [OF inv, of b] by (simp add: rc pcache)
  qed
  then show ?thesis by (simp add: pc1_def)
qed

lemma declare_readonly_fifo_inv:
  assumes run: "declare_readonly a pc = Inr pc'" and inv: "fifo_inv pc"
  shows "fifo_inv pc'"
proof -
  define pc1 where "pc1 = update_acq a (\<lambda>acq. acq\<lparr> access := access_read \<rparr>) pc"
  have inv1: "fifo_inv pc1" unfolding pc1_def using inv by (rule fifo_inv_readonly)
  have e: "declare_readonly a pc =
      (case current_page (acq_store pc1 a) of None \<Rightarrow> Inr pc1
       | Some c \<Rightarrow> pulse_pulsables c a pc1)"
    by (simp only: declare_readonly_def Let_def pc1_def)
  show ?thesis
  proof (cases "current_page (acq_store pc1 a)")
    case None
    then have "pc' = pc1" using run e by simp
    then show ?thesis using inv1 by simp
  next
    case (Some c)
    then have "pulse_pulsables c a pc1 = Inr pc'" using run e by simp
    then show ?thesis using inv1 by (rule pulse_pulsables_fifo_inv)
  qed
qed

lemma declare_snapshotted_fifo_inv:
  assumes run: "declare_snapshotted a pc = Inr pc'" and inv: "fifo_inv pc"
  shows "fifo_inv pc'"
proof (cases "declared_snapshotted (acq_store pc a)")
  case True then show ?thesis using run inv by (simp add: declare_snapshotted_def)
next
  case False
  define pc1 where "pc1 = update_acq a (\<lambda>acq. acq\<lparr> declared_snapshotted := True \<rparr>) pc"
  have e: "declare_snapshotted a pc =
      (case current_page (acq_store pc1 a) of None \<Rightarrow> Inl Null_dereference
       | Some c \<Rightarrow> pulse_pulsables c a (add_keepalive c pc1))"
    using False by (simp only: declare_snapshotted_def Let_def pc1_def if_True simp_thms)
  obtain c where c: "current_page (acq_store pc1 a) = Some c"
    using run e by (cases "current_page (acq_store pc1 a)") simp_all
  have p: "pulse_pulsables c a (add_keepalive c pc1) = Inr pc'" using run e c by simp
  have "same_queues pc pc1" unfolding pc1_def by (rule same_queues_update_acq) simp_all
  moreover have "same_queues pc1 (add_keepalive c pc1)"
    unfolding add_keepalive_def by (rule same_queues_update_cp) simp
  ultimately have "same_queues pc (add_keepalive c pc1)" by (rule same_queues_trans)
  then have "fifo_inv (add_keepalive c pc1)" using inv by (rule same_queues_fifo_inv)
  then show ?thesis by (rule pulse_pulsables_fifo_inv [OF p])
qed

subsection \<open>The constructor and the destructor of an acquirer\<close>

lemma and_then_Inr: "and_then r f = Inr y \<longleftrightarrow> (\<exists>x. r = Inr x \<and> f x = Inr y)"
  by (cases r) (simp_all add: and_then_def)

lemma destroy_Inr:
  "destroy nb a pc = Inr pc' \<longleftrightarrow>
     (if \<not> page_cache (acq_store pc a) then pc' = pc
      else \<exists>pc1 c pc2 pc3.
             destroy_txn_part a pc = Inr pc1
             \<and> current_page (acq_store pc1 a) = Some c
             \<and> destroy_queue_part c a pc1 = Inr pc2
             \<and> destroy_snapshot_part c a pc2 = Inr pc3
             \<and> pc' = consider_evicting_current_page nb (acq_block_id (acq_store pc3 a)) pc3)"
proof (cases "page_cache (acq_store pc a)")
  case False then show ?thesis by (auto simp add: destroy_def)
next
  case True
  have "destroy nb a pc = Inr pc' \<longleftrightarrow>
     (\<exists>pc1. destroy_txn_part a pc = Inr pc1
        \<and> (case current_page (acq_store pc1 a) of
               None \<Rightarrow> Inl Null_dereference
             | Some c \<Rightarrow>
                 and_then (destroy_queue_part c a pc1)
                   (\<lambda>pc.
                      and_then (destroy_snapshot_part c a pc)
                        (\<lambda>pc.
                           Inr (consider_evicting_current_page nb
                                  (acq_block_id (acq_store pc a)) pc)))) = Inr pc')"
    using True by (simp add: destroy_def and_then_Inr)
  also have "\<dots> \<longleftrightarrow> (\<exists>pc1 c pc2 pc3.
             destroy_txn_part a pc = Inr pc1
             \<and> current_page (acq_store pc1 a) = Some c
             \<and> destroy_queue_part c a pc1 = Inr pc2
             \<and> destroy_snapshot_part c a pc2 = Inr pc3
             \<and> pc' = consider_evicting_current_page nb (acq_block_id (acq_store pc3 a)) pc3)"
  proof (rule ex_cong1)
    fix pc1
    show "(destroy_txn_part a pc = Inr pc1
        \<and> (case current_page (acq_store pc1 a) of
               None \<Rightarrow> Inl Null_dereference
             | Some c \<Rightarrow>
                 and_then (destroy_queue_part c a pc1)
                   (\<lambda>pc.
                      and_then (destroy_snapshot_part c a pc)
                        (\<lambda>pc.
                           Inr (consider_evicting_current_page nb
                                  (acq_block_id (acq_store pc a)) pc)))) = Inr pc')
      \<longleftrightarrow> (\<exists>c pc2 pc3.
             destroy_txn_part a pc = Inr pc1
             \<and> current_page (acq_store pc1 a) = Some c
             \<and> destroy_queue_part c a pc1 = Inr pc2
             \<and> destroy_snapshot_part c a pc2 = Inr pc3
             \<and> pc' = consider_evicting_current_page nb (acq_block_id (acq_store pc3 a)) pc3)"
      by (cases "current_page (acq_store pc1 a)") (auto simp add: and_then_Inr)
  qed
  finally show ?thesis using True by simp
qed

lemma destroy_fifo_inv:
  assumes run: "destroy nb a pc = Inr pc'" and inv: "fifo_inv pc"
  shows "fifo_inv pc'"
proof (cases "page_cache (acq_store pc a)")
  case False then show ?thesis using run inv by (simp add: destroy_Inr)
next
  case True
  have "\<exists>pc1 c pc2 pc3. destroy_txn_part a pc = Inr pc1
    \<and> current_page (acq_store pc1 a) = Some c
    \<and> destroy_queue_part c a pc1 = Inr pc2
    \<and> destroy_snapshot_part c a pc2 = Inr pc3
    \<and> pc' = consider_evicting_current_page nb (acq_block_id (acq_store pc3 a)) pc3"
    using run True by (simp add: destroy_Inr)
  then obtain pc1 c pc2 pc3 where
    s1: "destroy_txn_part a pc = Inr pc1"
    and s2: "destroy_queue_part c a pc1 = Inr pc2"
    and s3: "destroy_snapshot_part c a pc2 = Inr pc3"
    and s4: "pc' = consider_evicting_current_page nb (acq_block_id (acq_store pc3 a)) pc3"
    by blast
  have inv1: "fifo_inv pc1"
  proof (cases "the_txn (acq_store pc a)")
    case None then show ?thesis using s1 inv by (simp add: destroy_txn_part_def)
  next
    case (Some t)
    then have "txn_remove_acquirer t a pc = Inr pc1" using s1 by (simp add: destroy_txn_part_def)
    then have "same_queues pc pc1" by (rule txn_remove_acquirer_same_queues)
    then show ?thesis using inv by (rule same_queues_fifo_inv)
  qed
  have inv2: "fifo_inv pc2"
  proof (cases "a \<in> set (acquirers (cp_store pc1 c))")
    case True
    then have "remove_acquirer c a pc1 = Inr pc2" using s2 by (simp add: destroy_queue_part_def)
    then show ?thesis using inv1 by (rule remove_acquirer_fifo_inv)
  next
    case False then show ?thesis using s2 inv1 by (simp add: destroy_queue_part_def)
  qed
  have inv3: "fifo_inv pc3"
  proof (cases "declared_snapshotted (acq_store pc2 a)")
    case True
    then have "remove_keepalive c (release_snapshot a pc2) = Inr pc3"
      using s3 by (simp add: destroy_snapshot_part_def)
    then have "same_queues pc2 pc3" by (rule remove_keepalive_release_same_queues)
    then show ?thesis using inv2 by (rule same_queues_fifo_inv)
  next
    case False then show ?thesis using s3 inv2 by (simp add: destroy_snapshot_part_def)
  qed
  show ?thesis
    unfolding s4 using same_queues_consider_evicting inv3 by (rule same_queues_fifo_inv)
qed

text \<open>Updating an acquirer that is in no queue, without pulsing its read signal.\<close>

lemma fifo_inv_update_outsider:
  assumes inv: "fifo_inv pc"
    and out: "\<And>c. a \<notin> set (acquirers (cp_store pc c))"
    and rc: "\<not> read_cond (f (acq_store pc a))"
  shows "fifo_inv (update_acq a f pc)"
proof -
  define pc1 where "pc1 = update_acq a f pc"
  have q: "\<And>c. acquirers (cp_store pc1 c) = acquirers (cp_store pc c)"
    and same: "\<And>b. b \<noteq> a \<Longrightarrow> acq_store pc1 b = acq_store pc b"
    and a: "acq_store pc1 a = f (acq_store pc a)"
    by (simp_all add: pc1_def update_acq_def)
  have "fifo_inv pc1"
  proof (rule fifo_invI)
    fix c
    show "distinct (acquirers (cp_store pc1 c))" using fifo_invD(1) [OF inv, of c] by (simp add: q)
    have "\<And>k. k < length (acquirers (cp_store pc c)) \<Longrightarrow>
        acq_store pc1 (acquirers (cp_store pc c) ! k) = acq_store pc (acquirers (cp_store pc c) ! k)"
      using out [of c] same by (metis nth_mem)
    then show "no_read_behind_write pc1 c"
      using fifo_invD(2) [OF inv, of c]
      unfolding no_read_behind_write_def q by auto
  next
    fix c b
    assume b: "b \<in> set (acquirers (cp_store pc1 c))"
    then have "b \<noteq> a" using out [of c] by (auto simp add: q)
    then show "page_cache (acq_store pc1 b) \<and> current_page (acq_store pc1 b) = Some c"
      using fifo_invD(3,4) [OF inv, of b c] b by (simp add: q same)
  next
    fix b
    assume "\<not> page_cache (acq_store pc1 b)"
    then show "\<not> read_cond (acq_store pc1 b)"
      using fifo_invD(5) [OF inv, of b] rc by (cases "b = a") (simp_all add: same a)
  qed
  then show ?thesis by (simp add: pc1_def)
qed

text \<open>A new current page starts with an empty queue.\<close>

lemma fifo_inv_new_cp:
  assumes inv: "fifo_inv pc" and e: "acquirers cp = []"
  shows "fifo_inv (pc\<lparr> cp_store := (cp_store pc)(n := cp) \<rparr>)"
proof (rule fifo_invI)
  fix c
  show "distinct (acquirers (cp_store (pc\<lparr> cp_store := (cp_store pc)(n := cp) \<rparr>) c))"
    using fifo_invD(1) [OF inv, of c] e by simp
  show "no_read_behind_write (pc\<lparr> cp_store := (cp_store pc)(n := cp) \<rparr>) c"
  proof (cases "c = n")
    case True then show ?thesis using e by (simp add: no_read_behind_write_def)
  next
    case False
    have "no_read_behind_write (pc\<lparr> cp_store := (cp_store pc)(n := cp) \<rparr>) c
        = no_read_behind_write pc c"
      using False by (intro no_read_behind_write_cong) simp_all
    then show ?thesis using fifo_invD(2) [OF inv, of c] by simp
  qed
next
  fix c b
  assume "b \<in> set (acquirers (cp_store (pc\<lparr> cp_store := (cp_store pc)(n := cp) \<rparr>) c))"
  then have "b \<in> set (acquirers (cp_store pc c))" using e by (simp split: if_splits)
  then show "page_cache (acq_store (pc\<lparr> cp_store := (cp_store pc)(n := cp) \<rparr>) b)
      \<and> current_page (acq_store (pc\<lparr> cp_store := (cp_store pc)(n := cp) \<rparr>) b) = Some c"
    using fifo_invD(3,4) [OF inv, of b c] by simp
next
  fix b
  assume "\<not> page_cache (acq_store (pc\<lparr> cp_store := (cp_store pc)(n := cp) \<rparr>) b)"
  then show "\<not> read_cond (acq_store (pc\<lparr> cp_store := (cp_store pc)(n := cp) \<rparr>) b)"
    using fifo_invD(5) [OF inv, of b] by simp
qed

lemma same_queues_next_cp: "same_queues pc (pc\<lparr> next_cp := n \<rparr>)"
  by (simp add: same_queues_def)

lemma same_queues_page_store: "same_queues pc (pc\<lparr> page_store := ps \<rparr>)"
  by (simp add: same_queues_def)

lemma same_queues_next_page: "same_queues pc (pc\<lparr> next_page := n \<rparr>)"
  by (simp add: same_queues_def)

lemma same_queues_recencies: "same_queues pc (pc\<lparr> recencies := r \<rparr>)"
  by (simp add: same_queues_def)

text \<open>
  Looking up or creating the current page of a block keeps the invariant, and keeps an
  acquirer that is in no queue out of every queue.
\<close>

lemma page_for_block_id_fifo_inv:
  assumes "page_for_block_id b pc = (c, pc1)" and inv: "fifo_inv pc"
  shows "fifo_inv pc1
      \<and> (\<forall>a. acq_store pc1 a = acq_store pc a)
      \<and> (\<forall>a. (\<forall>c'. a \<notin> set (acquirers (cp_store pc c')))
              \<longrightarrow> (\<forall>c'. a \<notin> set (acquirers (cp_store pc1 c'))))"
proof (cases "current_pages pc b")
  case (Some c0)
  then have "pc1 = pc" using assms(1) by (simp add: page_for_block_id_def)
  then show ?thesis using inv by simp
next
  case None
  define pc0 where "pc0 = pc\<lparr> cp_store := (cp_store pc)(next_cp pc := new_current_page_t b None) \<rparr>"
  have pc1: "pc1 = pc0\<lparr> next_cp := Suc (next_cp pc), current_pages := (current_pages pc)(b \<mapsto> next_cp pc) \<rparr>"
    using assms(1) None by (auto simp add: page_for_block_id_def alloc_current_page_def pc0_def)
  have inv0: "fifo_inv pc0"
    unfolding pc0_def using inv by (rule fifo_inv_new_cp) (simp add: new_current_page_t_def)
  have "same_queues pc0 pc1" by (simp add: pc1 same_queues_def)
  then have "fifo_inv pc1" using inv0 by (rule same_queues_fifo_inv)
  moreover have "\<forall>a. acq_store pc1 a = acq_store pc a" by (simp add: pc1 pc0_def)
  moreover have "\<forall>a. (\<forall>c'. a \<notin> set (acquirers (cp_store pc c')))
              \<longrightarrow> (\<forall>c'. a \<notin> set (acquirers (cp_store pc1 c')))"
    by (simp add: pc1 pc0_def new_current_page_t_def)
  ultimately show ?thesis by simp
qed

lemma page_for_new_chosen_block_id_fifo_inv:
  assumes "page_for_new_chosen_block_id is_aux b pc = Inr (c, pc1)" and inv: "fifo_inv pc"
  shows "fifo_inv pc1
      \<and> (\<forall>a. acq_store pc1 a = acq_store pc a)
      \<and> (\<forall>a. (\<forall>c'. a \<notin> set (acquirers (cp_store pc c')))
              \<longrightarrow> (\<forall>c'. a \<notin> set (acquirers (cp_store pc1 c'))))"
proof -
  define pcr where "pcr = (if \<not> is_aux b then set_recency_for_block_id b distant_past pc else pc)"
  define pcp where "pcp = page_ptr_init (next_page pcr) (snd (new_page_t True pcr))"
  define pc0 where "pc0 = pcp\<lparr> cp_store := (cp_store pcp)(next_cp pcp := new_current_page_t b (Some (next_page pcr))) \<rparr>"
  have sq: "same_queues pc pcp"
    by (simp add: same_queues_def pcp_def pcr_def set_recency_for_block_id_def new_page_t_def
        page_ptr_init_def)
  have acqs: "acq_store pcp = acq_store pc" "cp_store pcp = cp_store pc"
    by (simp_all add: pcp_def pcr_def set_recency_for_block_id_def new_page_t_def page_ptr_init_def)
  have pc1: "pc1 = pc0\<lparr> next_cp := Suc (next_cp pcp), current_pages := (current_pages pcp)(b \<mapsto> next_cp pcp) \<rparr>"
    using assms(1)
    by (auto simp add: page_for_new_chosen_block_id_def alloc_current_page_buf_def Let_def
        pcr_def [symmetric] new_page_t_def pcp_def pc0_def page_ptr_init_def split: if_splits)
  have invp: "fifo_inv pcp" using sq inv by (rule same_queues_fifo_inv)
  have inv0: "fifo_inv pc0"
    unfolding pc0_def using invp by (rule fifo_inv_new_cp) (simp add: new_current_page_t_def)
  have "same_queues pc0 pc1" by (simp add: pc1 same_queues_def)
  then have "fifo_inv pc1" using inv0 by (rule same_queues_fifo_inv)
  moreover have "\<forall>a. acq_store pc1 a = acq_store pc a" by (simp add: pc1 pc0_def acqs)
  moreover have "\<forall>a. (\<forall>c'. a \<notin> set (acquirers (cp_store pc c')))
              \<longrightarrow> (\<forall>c'. a \<notin> set (acquirers (cp_store pc1 c')))"
    by (simp add: pc1 pc0_def acqs new_current_page_t_def)
  ultimately show ?thesis by simp
qed

text \<open>
  The common end of the two \<open>init\<close> functions: the acquirer, initialised and in no
  queue, is given its current page and joins the queue of that page.
\<close>

lemma init_join_fifo_inv:
  assumes inv: "fifo_inv pc"
    and out: "\<And>c'. a \<notin> set (acquirers (cp_store pc c'))"
    and a: "page_cache (acq_store pc a)" "\<not> read_cond (acq_store pc a)"
    and cps: "cp_store pcj = cp_store pc"
    and acqs: "acq_store pcj = (acq_store pc)(a := (acq_store pc a)\<lparr> current_page := Some c \<rparr>)"
    and run: "add_acquirer c a pcj = Inr pc'"
  shows "fifo_inv pc'"
proof -
  define pc1 where "pc1 = update_acq a (\<lambda>acq. acq\<lparr> current_page := Some c \<rparr>) pc"
  have inv1: "fifo_inv pc1"
    unfolding pc1_def using inv out by (rule fifo_inv_update_outsider) (simp add: a)
  have "same_queues pc1 pcj"
    by (simp add: same_queues_def cps acqs pc1_def update_acq_def)
  then have invj: "fifo_inv pcj" using inv1 by (rule same_queues_fifo_inv)
  show ?thesis
    using run invj
  proof (rule add_acquirer_fifo_inv)
    show "\<And>c'. a \<notin> set (acquirers (cp_store pcj c'))" using out by (simp add: cps)
  qed (simp_all add: acqs a)
qed

lemma fifo_inv_init_fields:
  assumes inv: "fifo_inv pc" and un: "\<not> page_cache (acq_store pc a)"
  shows "fifo_inv (update_acq a (init_fields t acc b) pc)"
    and "\<And>c'. a \<notin> set (acquirers (cp_store (update_acq a (init_fields t acc b) pc) c'))"
    and "page_cache (acq_store (update_acq a (init_fields t acc b) pc) a)"
    and "\<not> read_cond (acq_store (update_acq a (init_fields t acc b) pc) a)"
proof -
  have out: "\<And>c'. a \<notin> set (acquirers (cp_store pc c'))"
    using fifo_invD(3) [OF inv] un by blast
  have rc: "\<not> read_cond (acq_store pc a)" using fifo_invD(5) [OF inv un] .
  show "fifo_inv (update_acq a (init_fields t acc b) pc)"
    using inv out by (rule fifo_inv_update_outsider) (simp add: init_fields_def rc)
  show "\<And>c'. a \<notin> set (acquirers (cp_store (update_acq a (init_fields t acc b) pc) c'))"
    using out by (simp add: update_acq_def)
  show "page_cache (acq_store (update_acq a (init_fields t acc b) pc) a)"
    by (simp add: update_acq_def init_fields_def)
  show "\<not> read_cond (acq_store (update_acq a (init_fields t acc b) pc) a)"
    using rc by (simp add: update_acq_def init_fields_def)
qed

lemma init_read_fifo_inv:
  assumes run: "init_read a b pc = Inr pc'" and inv: "fifo_inv pc"
  shows "fifo_inv pc'"
proof -
  have un: "\<not> page_cache (acq_store pc a)"
  proof
    assume "page_cache (acq_store pc a)"
    then have "init_read a b pc = Inl Guarantee_failed" by (simp add: init_read_def)
    then show False using run by simp
  qed
  define pc1 where "pc1 = update_acq a (init_fields None access_read b) pc"
  obtain c pc2 where p: "page_for_block_id b pc1 = (c, pc2)" by (cases "page_for_block_id b pc1")
  define pcj where "pcj = update_acq a (\<lambda>acq. acq\<lparr> current_page := Some c \<rparr>) pc2"
  have "init_read a b pc = add_acquirer c a pcj"
    unfolding init_read_def Let_def pc1_def [symmetric] pcj_def using un p by simp
  then have r: "add_acquirer c a pcj = Inr pc'" using run by simp
  note f = fifo_inv_init_fields [OF inv un, of None access_read b, folded pc1_def]
  note g = page_for_block_id_fifo_inv [OF p f(1)]
  have inv2: "fifo_inv pc2" and same: "\<And>x. acq_store pc2 x = acq_store pc1 x"
    and out2: "\<And>c'. a \<notin> set (acquirers (cp_store pc2 c'))"
    using g f(2) by auto
  show ?thesis
    using inv2 out2 _ _ _ _ r
    by (rule init_join_fifo_inv) (simp_all add: same f pcj_def update_acq_def)
qed

lemma init_fifo_inv:
  assumes run: "init is_aux a t b acc create pc = Inr pc'" and inv: "fifo_inv pc"
  shows "fifo_inv pc'"
proof (cases "acc = access_read")
  case True
  then have "init_read a b pc = Inr pc'" using run by (simp add: init_def)
  then show ?thesis using inv by (rule init_read_fifo_inv)
next
  case False
  have un: "\<not> page_cache (acq_store pc a)"
  proof
    assume "page_cache (acq_store pc a)"
    then have "init is_aux a t b acc create pc = Inl Guarantee_failed"
      using False by (simp add: init_def)
    then show False using run by simp
  qed
  define pc1 where "pc1 = update_acq a (init_fields (Some t) acc b) pc"
  note f = fifo_inv_init_fields [OF inv un, of "Some t" acc b, folded pc1_def]
  define r where "r = (if create then page_for_new_chosen_block_id is_aux b pc1
                 else Inr (page_for_block_id b pc1))"
  have e: "init is_aux a t b acc create pc =
      (case r of Inl e \<Rightarrow> Inl e
       | Inr (c, pc) \<Rightarrow>
           add_acquirer c a
             (update_txn t (\<lambda>t. t\<lparr> live_acqs := Suc (live_acqs t) \<rparr>)
               (update_acq a (\<lambda>acq. acq\<lparr> current_page := Some c \<rparr>) pc)))"
    unfolding init_def Let_def pc1_def [symmetric] r_def [symmetric] using False un by simp
  obtain c pc2 where r2: "r = Inr (c, pc2)"
    using run e by (cases r) auto
  define pcj where "pcj = update_txn t (\<lambda>t. t\<lparr> live_acqs := Suc (live_acqs t) \<rparr>)
               (update_acq a (\<lambda>acq. acq\<lparr> current_page := Some c \<rparr>) pc2)"
  have rj: "add_acquirer c a pcj = Inr pc'" using run e r2 by (simp add: pcj_def)
  have g: "fifo_inv pc2
      \<and> (\<forall>a. acq_store pc2 a = acq_store pc1 a)
      \<and> (\<forall>a. (\<forall>c'. a \<notin> set (acquirers (cp_store pc1 c')))
              \<longrightarrow> (\<forall>c'. a \<notin> set (acquirers (cp_store pc2 c'))))"
  proof (cases create)
    case True
    then have "page_for_new_chosen_block_id is_aux b pc1 = Inr (c, pc2)" using r2 by (simp add: r_def)
    then show ?thesis using f(1) by (rule page_for_new_chosen_block_id_fifo_inv)
  next
    case False
    then have "page_for_block_id b pc1 = (c, pc2)" using r2 by (simp add: r_def)
    then show ?thesis using f(1) by (rule page_for_block_id_fifo_inv)
  qed
  have inv2: "fifo_inv pc2" and same: "\<And>x. acq_store pc2 x = acq_store pc1 x"
    and out2: "\<And>c'. a \<notin> set (acquirers (cp_store pc2 c'))"
    using g f(2) by auto
  show ?thesis
    using inv2 out2 _ _ _ _ rj
    by (rule init_join_fifo_inv) (simp_all add: same f pcj_def update_acq_def update_txn_def)
qed

lemma call_fifo_inv:
  assumes "call hdr x pc = Inr pc'" and "fifo_inv pc"
  shows "fifo_inv pc'"
proof (cases x)
  case (Init a t b acc create)
  then show ?thesis using assms init_fifo_inv by simp
next
  case (Init_read a b)
  then show ?thesis using assms init_read_fifo_inv by simp
next
  case (Destroy a)
  then show ?thesis using assms destroy_fifo_inv by simp
next
  case (Declare_readonly a)
  then show ?thesis using assms declare_readonly_fifo_inv by simp
next
  case (Declare_snapshotted a)
  then show ?thesis using assms declare_snapshotted_fifo_inv by simp
qed

lemma run_fifo_inv:
  "run hdr xs pc = Inr pc' \<Longrightarrow> fifo_inv pc \<Longrightarrow> fifo_inv pc'"
proof (induction xs arbitrary: pc)
  case Nil then show ?case by simp
next
  case (Cons x xs)
  from Cons.prems(1) obtain pc1 where c: "call hdr x pc = Inr pc1" and r: "run hdr xs pc1 = Inr pc'"
    by (auto simp add: and_then_Inr)
  have "fifo_inv pc1" using c Cons.prems(2) by (rule call_fifo_inv)
  then show ?case using r Cons.IH by blast
qed

lemma fifo_inv_new_page_cache: "fifo_inv (new_page_cache_t ra rec)"
  by (simp add: fifo_inv_def no_read_behind_write_def new_page_cache_t_def
      new_current_page_t_def default_current_page_acq_t_def)

subsection \<open>The order in a queue\<close>

lemma stands_before_mem: "stands_before q x y \<Longrightarrow> x \<in> set q \<and> y \<in> set q"
  unfolding stands_before_def by (metis nth_mem order_less_trans)

lemma stands_before_append: "stands_before q x y \<Longrightarrow> stands_before (q @ [a]) x y"
proof -
  assume "stands_before q x y"
  then obtain i j where "i < j" "j < length q" "q ! i = x" "q ! j = y"
    unfolding stands_before_def by blast
  then have "i < j \<and> j < length (q @ [a]) \<and> (q @ [a]) ! i = x \<and> (q @ [a]) ! j = y"
    by (simp add: nth_append)
  then show ?thesis unfolding stands_before_def by blast
qed

lemma stands_before_remove_nth:
  assumes b: "stands_before q x y" and i: "i < length q" and ne: "x \<noteq> q ! i" "y \<noteq> q ! i"
  shows "stands_before (remove_nth i q) x y"
proof -
  obtain k j where kj: "k < j" "j < length q" "q ! k = x" "q ! j = y"
    using b unfolding stands_before_def by blast
  have n: "k \<noteq> i" "j \<noteq> i" using ne kj by auto
  define k' where "k' = (if k < i then k else k - 1)"
  define j' where "j' = (if j < i then j else j - 1)"
  have o: "k' < j'" using kj n by (auto simp add: k'_def j'_def)
  have l: "j' < length q - 1" using kj n i by (auto simp add: j'_def)
  then have lk: "k' < length q - 1" using o by simp
  have "remove_nth i q ! k' = x"
    using kj n lk by (auto simp add: nth_remove_nth k'_def)
  moreover have "remove_nth i q ! j' = y"
    using kj n l by (auto simp add: nth_remove_nth j'_def)
  moreover have "j' < length (remove_nth i q)" using l i by (simp add: length_remove_nth)
  ultimately show ?thesis using o unfolding stands_before_def by blast
qed

lemma stands_before_nth:
  assumes "distinct q" and "i < length q" and "stands_before q w (q ! i)"
  shows "\<exists>k<i. q ! k = w"
proof -
  obtain k j where kj: "k < j" "j < length q" "q ! k = w" "q ! j = q ! i"
    using assms(3) unfolding stands_before_def by blast
  then have "j = i" using assms(1,2) by (simp add: nth_eq_iff_index_eq)
  then show ?thesis using kj by blast
qed

lemma nth_notin_remove_nth:
  assumes "distinct q" and "i < length q"
  shows "q ! i \<notin> set (remove_nth i q)"
proof -
  have "q = take i q @ q ! i # drop (Suc i) q" using assms(2) by (rule id_take_nth_drop)
  then have "distinct (take i q @ q ! i # drop (Suc i) q)" using assms(1) by simp
  then show ?thesis by (simp add: remove_nth_def)
qed

lemma fifo_inv_blocked:
  assumes "fifo_inv pc" and "stands_before (acquirers (cp_store pc c)) a1 a2"
    and "access (acq_store pc a1) = access_write"
  shows "\<not> read_cond (acq_store pc a2)"
proof -
  obtain i j where "i < j" "j < length (acquirers (cp_store pc c))"
    "acquirers (cp_store pc c) ! i = a1" "acquirers (cp_store pc c) ! j = a2"
    using assms(2) unfolding stands_before_def by blast
  then show ?thesis
    using fifo_invD(2) [OF assms(1), of c] assms(3) unfolding no_read_behind_write_def by blast
qed

subsection \<open>What the pulsing loop changes\<close>

lemma pulse_loop_rel:
  assumes run: "pulse_loop r c i pc = Inr pc'"
    and refl: "\<And>s. R s s" and trans: "\<And>s t u. R s t \<Longrightarrow> R t u \<Longrightarrow> R s u"
    and rd: "\<And>s a. R s (pulse_read_available a s)"
    and wr: "\<And>s a. R s (pulse_write_available a s)"
    and sn: "\<And>s r c k. R s (snapshot_and_remove r c k s)"
  shows "R pc pc'"
  using run
proof (induction r c i pc rule: pulse_loop.induct)
  case (1 r c i pc)
  show ?case
  proof (cases "length (acquirers (cp_store pc c)) \<le> i")
    case True
    then have "pc' = pc" using "1.prems" by (simp add: pulse_loop.simps [of r c i pc])
    then show ?thesis by (simp add: refl)
  next
    case False
    define cur where "cur = acquirers (cp_store pc c) ! i"
    define pc1 where "pc1 = pulse_read_available cur pc"
    have s1: "R pc pc1" unfolding pc1_def by (rule rd)
    show ?thesis
    proof (cases "access (acq_store pc1 cur) = access_read")
      case True
      note rdr = True
      show ?thesis
      proof (cases "declared_snapshotted (acq_store pc1 cur)")
        case True
        have run: "pulse_loop r c i (snapshot_and_remove r c i pc1) = Inr pc'"
          using "1.prems" False rdr True
          by (simp add: pulse_loop.simps [of r c i pc] cur_def [symmetric] pc1_def [symmetric] Let_def)
        have "R (snapshot_and_remove r c i pc1) pc'"
          using "1.IH"(1) [OF False cur_def pc1_def rdr True run] .
        then have "R pc1 pc'" using sn trans by blast
        then show ?thesis using s1 trans by blast
      next
        case False
        note ns = False
        have run: "pulse_loop r c (Suc i) pc1 = Inr pc'"
          using "1.prems" \<open>\<not> length (acquirers (cp_store pc c)) \<le> i\<close> rdr False
          by (simp add: pulse_loop.simps [of r c i pc] cur_def [symmetric] pc1_def [symmetric] Let_def)
        have "R pc1 pc'"
          using "1.IH"(2) [OF \<open>\<not> length (acquirers (cp_store pc c)) \<le> i\<close> cur_def pc1_def rdr ns run] .
        then show ?thesis using s1 trans by blast
      qed
    next
      case False
      have "pc' = pc1 \<or> pc' = pulse_write_available cur pc1"
        using "1.prems" \<open>\<not> length (acquirers (cp_store pc c)) \<le> i\<close> False
        by (auto simp add: pulse_loop.simps [of r c i pc] cur_def [symmetric]
            pc1_def [symmetric] Let_def split: if_splits)
      then have "R pc1 pc'" using refl wr by auto
      then show ?thesis using s1 trans by blast
    qed
  qed
qed

lemma snapshot_and_remove_fields:
  "acquirers (cp_store (snapshot_and_remove r c k pc) c')
     = (if c' = c then remove_nth k (acquirers (cp_store pc c)) else acquirers (cp_store pc c'))"
  "access (acq_store (snapshot_and_remove r c k pc) x) = access (acq_store pc x)"
  "read_cond (acq_store (snapshot_and_remove r c k pc) x) = read_cond (acq_store pc x)"
  "page_cache (acq_store (snapshot_and_remove r c k pc) x) = page_cache (acq_store pc x)"
  by (simp_all add: snapshot_and_remove_def the_page_for_read_or_deleted_def tpp_init_def
      convert_from_serializer_if_necessary_def new_page_t_def page_ptr_init_def
      update_acq_def update_cp_def Let_def split: option.splits prod.splits)

text \<open>The loop takes acquirers out of the queues only, and leaves every access as it is.\<close>

lemma pulse_loop_frame:
  assumes "pulse_loop r c i pc = Inr pc'"
  shows "(\<forall>c'. set (acquirers (cp_store pc' c')) \<subseteq> set (acquirers (cp_store pc c')))
       \<and> (\<forall>x. access (acq_store pc' x) = access (acq_store pc x)
              \<and> page_cache (acq_store pc' x) = page_cache (acq_store pc x))"
  using assms
proof (rule pulse_loop_rel)
  fix s a
  show "(\<forall>c'. set (acquirers (cp_store (pulse_read_available a s) c')) \<subseteq> set (acquirers (cp_store s c')))
       \<and> (\<forall>x. access (acq_store (pulse_read_available a s) x) = access (acq_store s x)
              \<and> page_cache (acq_store (pulse_read_available a s) x) = page_cache (acq_store s x))"
    by (simp add: pulse_read_available_def update_acq_def)
  show "(\<forall>c'. set (acquirers (cp_store (pulse_write_available a s) c')) \<subseteq> set (acquirers (cp_store s c')))
       \<and> (\<forall>x. access (acq_store (pulse_write_available a s) x) = access (acq_store s x)
              \<and> page_cache (acq_store (pulse_write_available a s) x) = page_cache (acq_store s x))"
    by (simp add: pulse_write_available_def update_acq_def)
next
  fix s r c k
  show "(\<forall>c'. set (acquirers (cp_store (snapshot_and_remove r c k s) c')) \<subseteq> set (acquirers (cp_store s c')))
       \<and> (\<forall>x. access (acq_store (snapshot_and_remove r c k s) x) = access (acq_store s x)
              \<and> page_cache (acq_store (snapshot_and_remove r c k s) x) = page_cache (acq_store s x))"
    using set_remove_nth [of k "acquirers (cp_store s c)"]
    by (simp add: snapshot_and_remove_fields)
next
  fix s t u :: page_cache_t
  assume "(\<forall>c'. set (acquirers (cp_store t c')) \<subseteq> set (acquirers (cp_store s c')))
       \<and> (\<forall>x. access (acq_store t x) = access (acq_store s x)
              \<and> page_cache (acq_store t x) = page_cache (acq_store s x))"
    and "(\<forall>c'. set (acquirers (cp_store u c')) \<subseteq> set (acquirers (cp_store t c')))
       \<and> (\<forall>x. access (acq_store u x) = access (acq_store t x)
              \<and> page_cache (acq_store u x) = page_cache (acq_store t x))"
  then show "(\<forall>c'. set (acquirers (cp_store u c')) \<subseteq> set (acquirers (cp_store s c')))
       \<and> (\<forall>x. access (acq_store u x) = access (acq_store s x)
              \<and> page_cache (acq_store u x) = page_cache (acq_store s x))"
    by (metis subset_trans)
qed simp

lemma pulse_pulsables_frame:
  assumes "pulse_pulsables c a pc = Inr pc'"
  shows "(\<forall>c'. set (acquirers (cp_store pc' c')) \<subseteq> set (acquirers (cp_store pc c')))
       \<and> (\<forall>x. access (acq_store pc' x) = access (acq_store pc x)
              \<and> page_cache (acq_store pc' x) = page_cache (acq_store pc x))"
proof (cases "pc' = pc")
  case True then show ?thesis by simp
next
  case False
  then have "\<exists>r i. pulse_loop r c i pc = Inr pc'"
    using assms by (auto simp add: pulse_pulsables_def Let_def split: if_splits)
  then show ?thesis using pulse_loop_frame by blast
qed

text \<open>
  The loop pulses the read signal of an acquirer of the queue before which no acquirer
  with write access stands.
\<close>

lemma pulse_loop_new_pulse:
  "pulse_loop r c i pc = Inr pc' \<Longrightarrow> distinct (acquirers (cp_store pc c)) \<Longrightarrow>
   \<forall>k<i. access (acq_store pc (acquirers (cp_store pc c) ! k)) = access_read \<Longrightarrow>
   \<not> read_cond (acq_store pc y) \<Longrightarrow> read_cond (acq_store pc' y) \<Longrightarrow>
   y \<in> set (acquirers (cp_store pc c))
   \<and> (\<forall>w. stands_before (acquirers (cp_store pc c)) w y \<longrightarrow> access (acq_store pc w) = access_read)"
proof (induction r c i pc rule: pulse_loop.induct)
  case (1 r c i pc)
  define q where "q = acquirers (cp_store pc c)"
  have d: "distinct q" using "1.prems"(2) by (simp add: q_def)
  have readers: "\<And>k. k < i \<Longrightarrow> access (acq_store pc (q ! k)) = access_read"
    using "1.prems"(3) by (simp add: q_def)
  show ?case
  proof (cases "length q \<le> i")
    case True
    then have "pc' = pc" using "1.prems"(1) by (simp add: pulse_loop.simps [of r c i pc] q_def)
    then show ?thesis using "1.prems"(4,5) by simp
  next
    case False
    define cur where "cur = q ! i"
    define pc1 where "pc1 = pulse_read_available cur pc"
    have i: "i < length q" using False by simp
    have nl: "\<not> length (acquirers (cp_store pc c)) \<le> i" using False by (simp add: q_def)
    have q1: "acquirers (cp_store pc1 c) = q"
      by (simp add: pc1_def q_def pulse_read_available_def update_acq_def)
    have acc1: "access (acq_store pc1 a) = access (acq_store pc a)" for a
      by (simp add: pc1_def pulse_read_available_def update_acq_def)
    have rc1: "read_cond (acq_store pc1 a) = (a = cur \<or> read_cond (acq_store pc a))" for a
      by (simp add: pc1_def pulse_read_available_def update_acq_def)
    show ?thesis
    proof (cases "y = cur")
      case True
      have "y \<in> set q" using True i by (simp add: cur_def)
      moreover have "access (acq_store pc w) = access_read" if "stands_before q w y" for w
      proof -
        have "stands_before q w (q ! i)" using that True by (simp add: cur_def)
        then have "\<exists>k<i. q ! k = w" using d i by (intro stands_before_nth)
        then obtain k where "k < i" "q ! k = w" by blast
        then show ?thesis using readers by auto
      qed
      ultimately show ?thesis by (simp add: q_def)
    next
      case False
      note yc = False
      have nrc1: "\<not> read_cond (acq_store pc1 y)" using "1.prems"(4) False by (simp add: rc1)
      show ?thesis
      proof (cases "access (acq_store pc1 cur) = access_read")
        case True
        note rd = True
        show ?thesis
        proof (cases "declared_snapshotted (acq_store pc1 cur)")
          case True
          define pc2 where "pc2 = snapshot_and_remove r c i pc1"
          have run: "pulse_loop r c i pc2 = Inr pc'"
            using "1.prems"(1) \<open>\<not> length q \<le> i\<close> rd True
            by (simp add: pulse_loop.simps [of r c i pc] q_def [symmetric] cur_def [symmetric]
                pc1_def [symmetric] pc2_def Let_def)
          have q2: "acquirers (cp_store pc2 c) = remove_nth i q"
            by (simp add: pc2_def snapshot_and_remove_fields q1)
          have acc2: "access (acq_store pc2 a) = access (acq_store pc a)" for a
            by (simp add: pc2_def snapshot_and_remove_fields acc1)
          have d2: "distinct (acquirers (cp_store pc2 c))"
            using d by (simp add: q2 distinct_remove_nth)
          have readers2: "\<forall>k<i. access (acq_store pc2 (acquirers (cp_store pc2 c) ! k)) = access_read"
            using readers i by (simp add: q2 acc2 nth_remove_nth)
          have nrc2: "\<not> read_cond (acq_store pc2 y)"
            using nrc1 by (simp add: pc2_def snapshot_and_remove_fields)
          have ih: "y \<in> set (acquirers (cp_store pc2 c))
              \<and> (\<forall>w. stands_before (acquirers (cp_store pc2 c)) w y
                    \<longrightarrow> access (acq_store pc2 w) = access_read)"
            using "1.IH"(1) [OF nl cur_def [unfolded q_def] pc1_def rd True
                run [unfolded pc2_def] d2 [unfolded pc2_def] readers2 [unfolded pc2_def]
                nrc2 [unfolded pc2_def] "1.prems"(5)]
            by (simp add: pc2_def)
          have "y \<in> set q" using ih set_remove_nth [of i q] by (auto simp add: q2)
          moreover have "access (acq_store pc w) = access_read" if "stands_before q w y" for w
          proof (cases "w = cur")
            case True then show ?thesis using rd by (simp add: acc1)
          next
            case False
            then have "stands_before (remove_nth i q) w y"
              using that i yc by (intro stands_before_remove_nth) (simp_all add: cur_def)
            then show ?thesis using ih by (simp add: q2 acc2)
          qed
          ultimately show ?thesis by (simp add: q_def)
        next
          case False
          note ns = False
          have run: "pulse_loop r c (Suc i) pc1 = Inr pc'"
            using "1.prems"(1) \<open>\<not> length q \<le> i\<close> rd False
            by (simp add: pulse_loop.simps [of r c i pc] q_def [symmetric] cur_def [symmetric]
                pc1_def [symmetric] Let_def)
          have readers': "\<forall>k<Suc i. access (acq_store pc1 (acquirers (cp_store pc1 c) ! k)) = access_read"
            using readers rd by (auto simp add: q1 acc1 cur_def less_Suc_eq)
          have d1: "distinct (acquirers (cp_store pc1 c))" using d by (simp add: q1)
          have "y \<in> set (acquirers (cp_store pc1 c))
              \<and> (\<forall>w. stands_before (acquirers (cp_store pc1 c)) w y
                    \<longrightarrow> access (acq_store pc1 w) = access_read)"
            using "1.IH"(2) [OF nl cur_def [unfolded q_def] pc1_def rd ns
                run d1 readers' nrc1 "1.prems"(5)] .
          then show ?thesis by (simp add: q1 acc1 q_def)
        qed
      next
        case False
        have "pc' = pc1 \<or> pc' = pulse_write_available cur pc1"
          using "1.prems"(1) \<open>\<not> length q \<le> i\<close> False
          by (auto simp add: pulse_loop.simps [of r c i pc] q_def [symmetric] cur_def [symmetric]
              pc1_def [symmetric] Let_def split: if_splits)
        moreover have "read_cond (acq_store (pulse_write_available cur pc1) y)
            = read_cond (acq_store pc1 y)"
          by (simp add: pulse_write_available_def update_acq_def)
        ultimately have "read_cond (acq_store pc' y) = read_cond (acq_store pc1 y)"
          by auto
        then show ?thesis using nrc1 "1.prems"(5) by simp
      qed
    qed
  qed
qed

lemma pulse_pulsables_new_pulse:
  assumes run: "pulse_pulsables c a pc = Inr pc'" and inv: "fifo_inv pc"
    and n: "\<not> read_cond (acq_store pc y)" and p: "read_cond (acq_store pc' y)"
  shows "y \<in> set (acquirers (cp_store pc c))
   \<and> (\<forall>w. stands_before (acquirers (cp_store pc c)) w y \<longrightarrow> access (acq_store pc w) = access_read)"
proof -
  define q where "q = acquirers (cp_store pc c)"
  define i where "i = list_index q a"
  have ne: "pc' \<noteq> pc" using n p by auto
  have i: "i < length q"
    and prev: "i = 0 \<or> (access (acq_store pc (q ! (i - 1))) = access_read
                  \<and> read_cond (acq_store pc (q ! (i - 1))))"
    and loop: "pulse_loop (recency_for_block_id pc (acq_block_id (acq_store pc a))) c i pc = Inr pc'"
    using run ne
    by (auto simp add: pulse_pulsables_def Let_def q_def [symmetric] i_def [symmetric]
        split: if_splits)
  have readers: "\<forall>k<i. access (acq_store pc (acquirers (cp_store pc c) ! k)) = access_read"
  proof (intro allI impI)
    fix k assume k: "k < i"
    then have i0: "i \<noteq> 0" by simp
    then have pr: "access (acq_store pc (q ! (i - 1))) = access_read"
      "read_cond (acq_store pc (q ! (i - 1)))" using prev by simp_all
    show "access (acq_store pc (acquirers (cp_store pc c) ! k)) = access_read"
    proof (cases "k = i - 1")
      case True then show ?thesis using pr by (simp add: q_def)
    next
      case False
      then have "k < i - 1" "i - 1 < length q" using k i by simp_all
      then have "access (acq_store pc (q ! k)) \<noteq> access_write"
        using fifo_invD(2) [OF inv, of c] pr(2)
        unfolding no_read_behind_write_def q_def [symmetric] by blast
      then show ?thesis by (cases "access (acq_store pc (q ! k))") (simp_all add: q_def)
    qed
  qed
  show ?thesis
    using loop fifo_invD(1) [OF inv, of c] readers n p by (rule pulse_loop_new_pulse)
qed

subsection \<open>The parts of a call that pulse no read signal\<close>

lemma quiet_same_queues: "same_queues pc pc' \<Longrightarrow> quiet pc pc'"
  by (simp add: quiet_def same_queues_def)

lemma quiet_refl: "quiet pc pc"
  by (simp add: quiet_def)

lemma quietD:
  assumes "quiet pc pc'"
  shows "read_cond (acq_store pc' x) = read_cond (acq_store pc x)"
    and "page_cache (acq_store pc x) \<Longrightarrow> page_cache (acq_store pc' x)"
    and "x \<in> set (acquirers (cp_store pc' c)) \<Longrightarrow> page_cache (acq_store pc x)
          \<Longrightarrow> x \<in> set (acquirers (cp_store pc c))"
    and "stands_before (acquirers (cp_store pc c)) x y
          \<Longrightarrow> x \<in> set (acquirers (cp_store pc' c)) \<Longrightarrow> y \<in> set (acquirers (cp_store pc' c))
          \<Longrightarrow> stands_before (acquirers (cp_store pc' c)) x y"
    and "page_cache (acq_store pc x) \<Longrightarrow> access (acq_store pc' x) = access_write
          \<Longrightarrow> access (acq_store pc x) = access_write"
  using assms unfolding quiet_def by blast+

lemma quiet_trans:
  assumes q1: "quiet pc pc1" and q2: "quiet pc1 pc2" and inv: "fifo_inv pc"
  shows "quiet pc pc2"
  unfolding quiet_def
proof (intro conjI allI impI)
  fix x
  show "read_cond (acq_store pc2 x) = read_cond (acq_store pc x)"
    using quietD(1) [OF q1, of x] quietD(1) [OF q2, of x] by simp
next
  fix x assume "page_cache (acq_store pc x)"
  then show "page_cache (acq_store pc2 x)" using quietD(2) [OF q1] quietD(2) [OF q2] by blast
next
  fix c x assume a: "x \<in> set (acquirers (cp_store pc2 c)) \<and> page_cache (acq_store pc x)"
  then have "page_cache (acq_store pc1 x)" using quietD(2) [OF q1] by blast
  then have "x \<in> set (acquirers (cp_store pc1 c))" using a quietD(3) [OF q2] by blast
  then show "x \<in> set (acquirers (cp_store pc c))" using a quietD(3) [OF q1] by blast
next
  fix x assume a: "page_cache (acq_store pc x) \<and> access (acq_store pc2 x) = access_write"
  then have "page_cache (acq_store pc1 x)" using quietD(2) [OF q1] by blast
  then have "access (acq_store pc1 x) = access_write" using a quietD(5) [OF q2] by blast
  then show "access (acq_store pc x) = access_write" using a quietD(5) [OF q1] by blast
next
  fix c x y
  assume a: "stands_before (acquirers (cp_store pc c)) x y
      \<and> x \<in> set (acquirers (cp_store pc2 c)) \<and> y \<in> set (acquirers (cp_store pc2 c))"
  then have m: "x \<in> set (acquirers (cp_store pc c))" "y \<in> set (acquirers (cp_store pc c))"
    using stands_before_mem by fastforce+
  then have "page_cache (acq_store pc x)" "page_cache (acq_store pc y)"
    using fifo_invD(3) [OF inv] by blast+
  then have "page_cache (acq_store pc1 x)" "page_cache (acq_store pc1 y)"
    using quietD(2) [OF q1] by blast+
  then have m1: "x \<in> set (acquirers (cp_store pc1 c))" "y \<in> set (acquirers (cp_store pc1 c))"
    using a quietD(3) [OF q2] by blast+
  then have "stands_before (acquirers (cp_store pc1 c)) x y" using a quietD(4) [OF q1] by blast
  then show "stands_before (acquirers (cp_store pc2 c)) x y" using a quietD(4) [OF q2] by blast
qed

lemma quiet_removed:
  assumes inv: "fifo_inv pc" and i: "i < length (acquirers (cp_store pc c))"
    and qc: "acquirers (cp_store pc' c) = remove_nth i (acquirers (cp_store pc c))"
    and qo: "\<And>c'. c' \<noteq> c \<Longrightarrow> acquirers (cp_store pc' c') = acquirers (cp_store pc c')"
    and rc: "\<And>a. read_cond (acq_store pc' a) = read_cond (acq_store pc a)"
    and pcache: "\<And>a. page_cache (acq_store pc' a) = page_cache (acq_store pc a)"
    and acc: "\<And>a. access (acq_store pc' a) = access (acq_store pc a)"
  shows "quiet pc pc'"
  unfolding quiet_def
proof (intro conjI allI impI)
  fix x
  show "read_cond (acq_store pc' x) = read_cond (acq_store pc x)" by (rule rc)
next
  fix x assume "page_cache (acq_store pc x)"
  then show "page_cache (acq_store pc' x)" by (simp add: pcache)
next
  fix x assume "page_cache (acq_store pc x) \<and> access (acq_store pc' x) = access_write"
  then show "access (acq_store pc x) = access_write" by (simp add: acc)
next
  fix c' x assume a: "x \<in> set (acquirers (cp_store pc' c')) \<and> page_cache (acq_store pc x)"
  show "x \<in> set (acquirers (cp_store pc c'))"
  proof (cases "c' = c")
    case True
    then show ?thesis using a set_remove_nth [of i "acquirers (cp_store pc c)"] by (auto simp add: qc)
  next
    case False then show ?thesis using a by (simp add: qo)
  qed
next
  fix c' x y
  assume a: "stands_before (acquirers (cp_store pc c')) x y
      \<and> x \<in> set (acquirers (cp_store pc' c')) \<and> y \<in> set (acquirers (cp_store pc' c'))"
  show "stands_before (acquirers (cp_store pc' c')) x y"
  proof (cases "c' = c")
    case True
    have d: "distinct (acquirers (cp_store pc c))" using fifo_invD(1) [OF inv] .
    have n: "acquirers (cp_store pc c) ! i \<notin> set (remove_nth i (acquirers (cp_store pc c)))"
      using d i by (rule nth_notin_remove_nth)
    have "x \<noteq> acquirers (cp_store pc c) ! i" "y \<noteq> acquirers (cp_store pc c) ! i"
      using a n True by (auto simp add: qc)
    then show ?thesis
      using a i True by (simp add: qc stands_before_remove_nth)
  next
    case False then show ?thesis using a by (simp add: qo)
  qed
qed

lemma quiet_grown:
  assumes inv: "fifo_inv pc" and un: "\<not> page_cache (acq_store pc a)"
    and rc: "\<And>x. read_cond (acq_store pc' x) = read_cond (acq_store pc x)"
    and pcm: "\<And>x. page_cache (acq_store pc x) \<Longrightarrow> page_cache (acq_store pc' x)"
    and accm: "\<And>x. page_cache (acq_store pc x) \<Longrightarrow> access (acq_store pc' x) = access (acq_store pc x)"
    and qs: "\<And>c. acquirers (cp_store pc' c) = acquirers (cp_store pc c)
                \<or> acquirers (cp_store pc' c) = []
                \<or> acquirers (cp_store pc' c) = acquirers (cp_store pc c) @ [a]
                \<or> acquirers (cp_store pc' c) = [a]"
  shows "quiet pc pc'"
  unfolding quiet_def
proof (intro conjI allI impI)
  fix x
  show "read_cond (acq_store pc' x) = read_cond (acq_store pc x)" by (rule rc)
next
  fix x assume "page_cache (acq_store pc x)"
  then show "page_cache (acq_store pc' x)" by (rule pcm)
next
  fix x assume "page_cache (acq_store pc x) \<and> access (acq_store pc' x) = access_write"
  then show "access (acq_store pc x) = access_write" using accm [of x] by simp
next
  fix c x assume a: "x \<in> set (acquirers (cp_store pc' c)) \<and> page_cache (acq_store pc x)"
  then have "x \<noteq> a" using un by auto
  then show "x \<in> set (acquirers (cp_store pc c))" using a qs [of c] by auto
next
  fix c x y
  assume a: "stands_before (acquirers (cp_store pc c)) x y
      \<and> x \<in> set (acquirers (cp_store pc' c)) \<and> y \<in> set (acquirers (cp_store pc' c))"
  then have "x \<in> set (acquirers (cp_store pc c))" using stands_before_mem by fastforce
  then have "page_cache (acq_store pc x)" using fifo_invD(3) [OF inv] by blast
  then have xa: "x \<noteq> a" using un by auto
  consider "acquirers (cp_store pc' c) = acquirers (cp_store pc c)"
    | "acquirers (cp_store pc' c) = []"
    | "acquirers (cp_store pc' c) = acquirers (cp_store pc c) @ [a]"
    | "acquirers (cp_store pc' c) = [a]"
    using qs [of c] by blast
  then show "stands_before (acquirers (cp_store pc' c)) x y"
  proof cases
    case 1 then show ?thesis using a by simp
  next
    case 2 then show ?thesis using a by simp
  next
    case 3 then show ?thesis using a by (simp add: stands_before_append)
  next
    case 4 then show ?thesis using a xa by simp
  qed
qed

subsection \<open>A call pulses behind no writer that stays\<close>

lemma admission_step:
  assumes inv: "fifo_inv pc" and ph: "phases pc pc'"
    and bef: "stands_before (acquirers (cp_store pc c)) a1 a2"
    and wr: "access (acq_store pc a1) = access_write"
    and rc: "read_cond (acq_store pc' a2)"
  shows "a1 \<notin> set (acquirers (cp_store pc' c)) \<or> access (acq_store pc' a1) = access_read"
proof (rule ccontr)
  assume "\<not> (a1 \<notin> set (acquirers (cp_store pc' c)) \<or> access (acq_store pc' a1) = access_read)"
  then have a1': "a1 \<in> set (acquirers (cp_store pc' c))" "access (acq_store pc' a1) = access_write"
    by (simp, cases "access (acq_store pc' a1)") simp_all
  from ph obtain pcq pcp where
    q: "quiet pc pcq" and invq: "fifo_inv pcq"
    and pu: "pcp = pcq \<or> (\<exists>c b. pulse_pulsables c b pcq = Inr pcp)"
    and sq: "same_queues pcp pc'"
    unfolding phases_def by blast
  have n0: "\<not> read_cond (acq_store pc a2)" using inv bef wr by (rule fifo_inv_blocked)
  then have nq: "\<not> read_cond (acq_store pcq a2)" using quietD(1) [OF q, of a2] by simp
  have rp: "read_cond (acq_store pcp a2)" using rc sq by (simp add: same_queues_def)
  have a1p: "a1 \<in> set (acquirers (cp_store pcp c))" "access (acq_store pcp a1) = access_write"
    using a1' sq by (simp_all add: same_queues_def)
  have "pcp \<noteq> pcq" using nq rp by auto
  then obtain c' b where p: "pulse_pulsables c' b pcq = Inr pcp" using pu by blast
  from pulse_pulsables_new_pulse [OF p invq nq rp]
  have y: "a2 \<in> set (acquirers (cp_store pcq c'))"
    and nw: "\<And>w. stands_before (acquirers (cp_store pcq c')) w a2
              \<Longrightarrow> access (acq_store pcq w) = access_read"
    by blast+
  have m: "a1 \<in> set (acquirers (cp_store pc c))" "a2 \<in> set (acquirers (cp_store pc c))"
    using bef stands_before_mem by fastforce+
  have pc2: "page_cache (acq_store pc a2)" "current_page (acq_store pc a2) = Some c"
    using fifo_invD(3,4) [OF inv m(2)] by simp_all
  have "a2 \<in> set (acquirers (cp_store pc c'))" using quietD(3) [OF q y pc2(1)] .
  then have "current_page (acq_store pc a2) = Some c'" using fifo_invD(4) [OF inv] by blast
  then have cc: "c' = c" using pc2(2) by simp
  have fr: "set (acquirers (cp_store pcp c)) \<subseteq> set (acquirers (cp_store pcq c))"
    "access (acq_store pcp a1) = access (acq_store pcq a1)"
    using pulse_pulsables_frame [OF p] by simp_all
  have a1q: "a1 \<in> set (acquirers (cp_store pcq c))" "access (acq_store pcq a1) = access_write"
    using a1p fr by auto
  have "stands_before (acquirers (cp_store pcq c)) a1 a2"
    using quietD(4) [OF q bef a1q(1)] y cc by simp
  then have "access (acq_store pcq a1) = access_read" using nw cc by simp
  then show False using a1q(2) by simp
qed

lemma phases_same: "fifo_inv pc \<Longrightarrow> phases pc pc"
  unfolding phases_def using quiet_refl same_queues_refl by blast

lemma phasesI:
  assumes "quiet pc pcq" and "fifo_inv pcq"
    and "pcp = pcq \<or> (\<exists>c b. pulse_pulsables c b pcq = Inr pcp)"
    and "same_queues pcp pc'"
  shows "phases pc pc'"
  unfolding phases_def using assms by blast

lemma declare_readonly_phases:
  assumes run: "declare_readonly a pc = Inr pc'" and inv: "fifo_inv pc"
  shows "phases pc pc'"
proof -
  define pc1 where "pc1 = update_acq a (\<lambda>acq. acq\<lparr> access := access_read \<rparr>) pc"
  have inv1: "fifo_inv pc1" unfolding pc1_def using inv by (rule fifo_inv_readonly)
  have q: "quiet pc pc1" by (simp add: quiet_def pc1_def update_acq_def)
  have e: "declare_readonly a pc =
      (case current_page (acq_store pc1 a) of None \<Rightarrow> Inr pc1
       | Some c \<Rightarrow> pulse_pulsables c a pc1)"
    by (simp only: declare_readonly_def Let_def pc1_def)
  have "pc' = pc1 \<or> (\<exists>c b. pulse_pulsables c b pc1 = Inr pc')"
    using run e by (cases "current_page (acq_store pc1 a)") auto
  with q inv1 show ?thesis using same_queues_refl by (rule phasesI)
qed

lemma declare_snapshotted_phases:
  assumes run: "declare_snapshotted a pc = Inr pc'" and inv: "fifo_inv pc"
  shows "phases pc pc'"
proof (cases "declared_snapshotted (acq_store pc a)")
  case True
  then have "pc' = pc" using run by (simp add: declare_snapshotted_def)
  then show ?thesis using inv by (simp add: phases_same)
next
  case False
  define pc1 where "pc1 = update_acq a (\<lambda>acq. acq\<lparr> declared_snapshotted := True \<rparr>) pc"
  have e: "declare_snapshotted a pc =
      (case current_page (acq_store pc1 a) of None \<Rightarrow> Inl Null_dereference
       | Some c \<Rightarrow> pulse_pulsables c a (add_keepalive c pc1))"
    using False by (simp only: declare_snapshotted_def Let_def pc1_def if_True simp_thms)
  obtain c where c: "current_page (acq_store pc1 a) = Some c"
    using run e by (cases "current_page (acq_store pc1 a)") simp_all
  have p: "pulse_pulsables c a (add_keepalive c pc1) = Inr pc'" using run e c by simp
  have "same_queues pc pc1" unfolding pc1_def by (rule same_queues_update_acq) simp_all
  moreover have "same_queues pc1 (add_keepalive c pc1)"
    unfolding add_keepalive_def by (rule same_queues_update_cp) simp
  ultimately have sq: "same_queues pc (add_keepalive c pc1)" by (rule same_queues_trans)
  have "quiet pc (add_keepalive c pc1)" using sq by (rule quiet_same_queues)
  moreover have "fifo_inv (add_keepalive c pc1)" using sq inv by (rule same_queues_fifo_inv)
  moreover have "pc' = add_keepalive c pc1 \<or> (\<exists>c' b. pulse_pulsables c' b (add_keepalive c pc1) = Inr pc')"
    using p by blast
  ultimately show ?thesis using same_queues_refl by (rule phasesI)
qed

lemma remove_acquirer_phases:
  assumes run: "remove_acquirer c a pc = Inr pc'" and inv: "fifo_inv pc"
  shows "\<exists>pcq. quiet pc pcq \<and> fifo_inv pcq
      \<and> (pc' = pcq \<or> (\<exists>c b. pulse_pulsables c b pcq = Inr pc'))"
proof -
  define q where "q = acquirers (cp_store pc c)"
  define i where "i = list_index q a"
  define pc1 where "pc1 = update_cp c (\<lambda>cp. cp\<lparr> acquirers := remove_nth i (acquirers cp) \<rparr>) pc"
  have i: "i < length q"
  proof (rule ccontr)
    assume "\<not> i < length q"
    then have "remove_acquirer c a pc = Inl Not_in_list"
      by (simp add: remove_acquirer_def Let_def q_def [symmetric] i_def [symmetric])
    then show False using run by simp
  qed
  have inv1: "fifo_inv pc1"
    using inv i [unfolded q_def] by (rule fifo_inv_removed) (simp_all add: pc1_def update_cp_def)
  have q1: "quiet pc pc1"
    using inv i [unfolded q_def] by (rule quiet_removed) (simp_all add: pc1_def update_cp_def)
  have e: "remove_acquirer c a pc =
      (case (if Suc i < length q then Some (q ! Suc i) else None) of
         None \<Rightarrow> Inr pc1 | Some n \<Rightarrow> pulse_pulsables c n pc1)"
    using i by (simp add: remove_acquirer_def Let_def q_def [symmetric] i_def [symmetric] pc1_def)
  have "pc' = pc1 \<or> (\<exists>c b. pulse_pulsables c b pc1 = Inr pc')"
    using run e by (cases "Suc i < length q") auto
  then show ?thesis using q1 inv1 by blast
qed

lemma destroy_phases:
  assumes run: "destroy nb a pc = Inr pc'" and inv: "fifo_inv pc"
  shows "phases pc pc'"
proof (cases "page_cache (acq_store pc a)")
  case False
  then have "pc' = pc" using run by (simp add: destroy_Inr)
  then show ?thesis using inv by (simp add: phases_same)
next
  case True
  have "\<exists>pc1 c pc2 pc3. destroy_txn_part a pc = Inr pc1
    \<and> current_page (acq_store pc1 a) = Some c
    \<and> destroy_queue_part c a pc1 = Inr pc2
    \<and> destroy_snapshot_part c a pc2 = Inr pc3
    \<and> pc' = consider_evicting_current_page nb (acq_block_id (acq_store pc3 a)) pc3"
    using run True by (simp add: destroy_Inr)
  then obtain pc1 c pc2 pc3 where
    s1: "destroy_txn_part a pc = Inr pc1"
    and s2: "destroy_queue_part c a pc1 = Inr pc2"
    and s3: "destroy_snapshot_part c a pc2 = Inr pc3"
    and s4: "pc' = consider_evicting_current_page nb (acq_block_id (acq_store pc3 a)) pc3"
    by blast
  have sq1: "same_queues pc pc1"
  proof (cases "the_txn (acq_store pc a)")
    case None then show ?thesis using s1 by (simp add: destroy_txn_part_def same_queues_refl)
  next
    case (Some t)
    then have "txn_remove_acquirer t a pc = Inr pc1" using s1 by (simp add: destroy_txn_part_def)
    then show ?thesis by (rule txn_remove_acquirer_same_queues)
  qed
  have inv1: "fifo_inv pc1" using sq1 inv by (rule same_queues_fifo_inv)
  have "\<exists>pcq. quiet pc1 pcq \<and> fifo_inv pcq
      \<and> (pc2 = pcq \<or> (\<exists>c b. pulse_pulsables c b pcq = Inr pc2))"
  proof (cases "a \<in> set (acquirers (cp_store pc1 c))")
    case True
    then have "remove_acquirer c a pc1 = Inr pc2" using s2 by (simp add: destroy_queue_part_def)
    then show ?thesis using inv1 by (rule remove_acquirer_phases)
  next
    case False
    then have "pc2 = pc1" using s2 by (simp add: destroy_queue_part_def)
    then show ?thesis using inv1 quiet_refl by blast
  qed
  then obtain pcq where q: "quiet pc1 pcq" and invq: "fifo_inv pcq"
    and pu: "pc2 = pcq \<or> (\<exists>c b. pulse_pulsables c b pcq = Inr pc2)"
    by blast
  have q0: "quiet pc pcq" using quiet_same_queues [OF sq1] q inv by (rule quiet_trans)
  have sq3: "same_queues pc2 pc3"
  proof (cases "declared_snapshotted (acq_store pc2 a)")
    case True
    then have "remove_keepalive c (release_snapshot a pc2) = Inr pc3"
      using s3 by (simp add: destroy_snapshot_part_def)
    then show ?thesis by (rule remove_keepalive_release_same_queues)
  next
    case False then show ?thesis using s3 by (simp add: destroy_snapshot_part_def same_queues_refl)
  qed
  have "same_queues pc3 pc'" unfolding s4 by (rule same_queues_consider_evicting)
  then have "same_queues pc2 pc'" using sq3 same_queues_trans by blast
  with q0 invq pu show ?thesis by (rule phasesI)
qed

lemma page_for_block_id_queues:
  assumes "page_for_block_id b pc = (c, pc1)"
  shows "acquirers (cp_store pc1 c') = acquirers (cp_store pc c')
       \<or> acquirers (cp_store pc1 c') = []"
  using assms
  by (auto simp add: page_for_block_id_def alloc_current_page_def new_current_page_t_def
      split: option.splits)

lemma page_for_new_chosen_block_id_queues:
  assumes "page_for_new_chosen_block_id is_aux b pc = Inr (c, pc1)"
  shows "acquirers (cp_store pc1 c') = acquirers (cp_store pc c')
       \<or> acquirers (cp_store pc1 c') = []"
  using assms
  by (auto simp add: page_for_new_chosen_block_id_def alloc_current_page_buf_def
      set_recency_for_block_id_def new_page_t_def page_ptr_init_def new_current_page_t_def
      Let_def split: if_splits)

lemma init_Inr:
  assumes run: "init is_aux a t b acc create pc = Inr pc'"
  shows "\<exists>tx c pc2 pcj.
      \<not> page_cache (acq_store pc a)
      \<and> (page_for_block_id b (update_acq a (init_fields tx acc b) pc) = (c, pc2)
         \<or> page_for_new_chosen_block_id is_aux b (update_acq a (init_fields tx acc b) pc)
             = Inr (c, pc2))
      \<and> cp_store pcj = cp_store pc2
      \<and> acq_store pcj = (acq_store pc2)(a := (acq_store pc2 a)\<lparr> current_page := Some c \<rparr>)
      \<and> add_acquirer c a pcj = Inr pc'"
proof (cases "acc = access_read")
  case True
  then have r: "init_read a b pc = Inr pc'" using run by (simp add: init_def)
  have un: "\<not> page_cache (acq_store pc a)"
  proof
    assume "page_cache (acq_store pc a)"
    then have "init_read a b pc = Inl Guarantee_failed" by (simp add: init_read_def)
    then show False using r by simp
  qed
  define pc1 where "pc1 = update_acq a (init_fields None acc b) pc"
  obtain c pc2 where p: "page_for_block_id b pc1 = (c, pc2)" by (cases "page_for_block_id b pc1")
  define pcj where "pcj = update_acq a (\<lambda>acq. acq\<lparr> current_page := Some c \<rparr>) pc2"
  have "init_read a b pc = add_acquirer c a pcj"
    unfolding init_read_def Let_def True [symmetric] pc1_def [symmetric] pcj_def using un p by simp
  then have rj: "add_acquirer c a pcj = Inr pc'" using r by simp
  have "cp_store pcj = cp_store pc2"
    "acq_store pcj = (acq_store pc2)(a := (acq_store pc2 a)\<lparr> current_page := Some c \<rparr>)"
    by (simp_all add: pcj_def update_acq_def)
  then show ?thesis using un p rj unfolding pc1_def by blast
next
  case False
  have un: "\<not> page_cache (acq_store pc a)"
  proof
    assume "page_cache (acq_store pc a)"
    then have "init is_aux a t b acc create pc = Inl Guarantee_failed"
      using False by (simp add: init_def)
    then show False using run by simp
  qed
  define pc1 where "pc1 = update_acq a (init_fields (Some t) acc b) pc"
  define r where "r = (if create then page_for_new_chosen_block_id is_aux b pc1
                 else Inr (page_for_block_id b pc1))"
  have e: "init is_aux a t b acc create pc =
      (case r of Inl e \<Rightarrow> Inl e
       | Inr (c, pc) \<Rightarrow>
           add_acquirer c a
             (update_txn t (\<lambda>t. t\<lparr> live_acqs := Suc (live_acqs t) \<rparr>)
               (update_acq a (\<lambda>acq. acq\<lparr> current_page := Some c \<rparr>) pc)))"
    unfolding init_def Let_def pc1_def [symmetric] r_def [symmetric] using False un by simp
  obtain c pc2 where r2: "r = Inr (c, pc2)"
    using run e by (cases r) auto
  define pcj where "pcj = update_txn t (\<lambda>t. t\<lparr> live_acqs := Suc (live_acqs t) \<rparr>)
               (update_acq a (\<lambda>acq. acq\<lparr> current_page := Some c \<rparr>) pc2)"
  have rj: "add_acquirer c a pcj = Inr pc'" using run e r2 by (simp add: pcj_def)
  have p: "page_for_block_id b pc1 = (c, pc2)
         \<or> page_for_new_chosen_block_id is_aux b pc1 = Inr (c, pc2)"
    using r2 by (cases create) (simp_all add: r_def)
  have "cp_store pcj = cp_store pc2"
    "acq_store pcj = (acq_store pc2)(a := (acq_store pc2 a)\<lparr> current_page := Some c \<rparr>)"
    by (simp_all add: pcj_def update_acq_def update_txn_def)
  then show ?thesis using un p rj unfolding pc1_def by blast
qed

lemma init_phases:
  assumes run: "init is_aux a t b acc create pc = Inr pc'" and inv: "fifo_inv pc"
  shows "phases pc pc'"
proof -
  from init_Inr [OF run] obtain tx c pc2 pcj where
    un: "\<not> page_cache (acq_store pc a)"
    and p: "page_for_block_id b (update_acq a (init_fields tx acc b) pc) = (c, pc2)
         \<or> page_for_new_chosen_block_id is_aux b (update_acq a (init_fields tx acc b) pc)
             = Inr (c, pc2)"
    and cj: "cp_store pcj = cp_store pc2"
    and aj: "acq_store pcj = (acq_store pc2)(a := (acq_store pc2 a)\<lparr> current_page := Some c \<rparr>)"
    and rj: "add_acquirer c a pcj = Inr pc'"
    by blast
  define pc1 where "pc1 = update_acq a (init_fields tx acc b) pc"
  note f = fifo_inv_init_fields [OF inv un, of tx acc b, folded pc1_def]
  have g: "fifo_inv pc2
      \<and> (\<forall>a. acq_store pc2 a = acq_store pc1 a)
      \<and> (\<forall>a. (\<forall>c'. a \<notin> set (acquirers (cp_store pc1 c')))
              \<longrightarrow> (\<forall>c'. a \<notin> set (acquirers (cp_store pc2 c'))))"
    using p page_for_block_id_fifo_inv [OF _ f(1)] page_for_new_chosen_block_id_fifo_inv [OF _ f(1)]
    unfolding pc1_def [symmetric] by blast
  have inv2: "fifo_inv pc2" and same: "\<And>x. acq_store pc2 x = acq_store pc1 x"
    and out2: "\<And>c'. a \<notin> set (acquirers (cp_store pc2 c'))"
    using g f(2) by auto
  have q2: "\<And>c'. acquirers (cp_store pc2 c') = acquirers (cp_store pc1 c')
       \<or> acquirers (cp_store pc2 c') = []"
    using p page_for_block_id_queues page_for_new_chosen_block_id_queues
    unfolding pc1_def [symmetric] by blast
  define pc3 where "pc3 = update_acq a (\<lambda>acq. acq\<lparr> current_page := Some c \<rparr>) pc2"
  have inv3: "fifo_inv pc3"
    unfolding pc3_def using inv2 out2 by (rule fifo_inv_update_outsider) (simp add: same f)
  have "same_queues pc3 pcj"
    by (simp add: same_queues_def cj aj pc3_def update_acq_def)
  then have invj: "fifo_inv pcj" using inv3 by (rule same_queues_fifo_inv)
  have aj': "page_cache (acq_store pcj a)" "current_page (acq_store pcj a) = Some c"
    "\<not> read_cond (acq_store pcj a)"
    using f(3,4) by (simp_all add: aj same)
  have outj: "\<And>c'. a \<notin> set (acquirers (cp_store pcj c'))" using out2 by (simp add: cj)
  from add_acquirer_decompose [OF rj] obtain pcq where
    pu: "pulse_pulsables c a pcq = Inr pc'"
    and qc: "acquirers (cp_store pcq c) = acquirers (cp_store pcj c) @ [a]"
    and qo: "\<And>c'. c' \<noteq> c \<Longrightarrow> cp_store pcq c' = cp_store pcj c'"
    and v: "\<And>x. access (acq_store pcq x) = access (acq_store pcj x)"
      "\<And>x. read_cond (acq_store pcq x) = read_cond (acq_store pcj x)"
      "\<And>x. page_cache (acq_store pcq x) = page_cache (acq_store pcj x)"
      "\<And>x. current_page (acq_store pcq x) = current_page (acq_store pcj x)"
    by blast
  have invq: "fifo_inv pcq"
    using invj outj qc
  proof (rule fifo_inv_appended)
    show "\<And>c'. c' \<noteq> c \<Longrightarrow> acquirers (cp_store pcq c') = acquirers (cp_store pcj c')"
      using qo by simp
  qed (simp_all add: v aj')
  have rcq: "read_cond (acq_store pcq x) = read_cond (acq_store pc x)" for x
    by (simp add: v aj same pc1_def update_acq_def init_fields_def)
  have pcm: "page_cache (acq_store pc x) \<Longrightarrow> page_cache (acq_store pcq x)" for x
    by (simp add: v aj same pc1_def update_acq_def init_fields_def)
  have q1: "acquirers (cp_store pc1 c') = acquirers (cp_store pc c')" for c'
    by (simp add: pc1_def update_acq_def)
  have qs: "acquirers (cp_store pcq c') = acquirers (cp_store pc c')
                \<or> acquirers (cp_store pcq c') = []
                \<or> acquirers (cp_store pcq c') = acquirers (cp_store pc c') @ [a]
                \<or> acquirers (cp_store pcq c') = [a]" for c'
  proof (cases "c' = c")
    case True
    then show ?thesis using qc q2 [of c] by (auto simp add: cj q1)
  next
    case False
    then show ?thesis using qo [OF False] q2 [of c'] by (auto simp add: cj q1)
  qed
  have accm: "page_cache (acq_store pc x) \<Longrightarrow> access (acq_store pcq x) = access (acq_store pc x)" for x
    using un by (auto simp add: v aj same pc1_def update_acq_def init_fields_def)
  have "quiet pc pcq" using inv un rcq pcm accm qs by (rule quiet_grown)
  moreover note invq
  moreover have "pc' = pcq \<or> (\<exists>c b. pulse_pulsables c b pcq = Inr pc')" using pu by blast
  ultimately show ?thesis using same_queues_refl by (rule phasesI)
qed

lemma call_phases:
  assumes "call hdr x pc = Inr pc'" and "fifo_inv pc"
  shows "phases pc pc'"
proof (cases x)
  case (Init a t b acc create)
  then show ?thesis using assms init_phases by simp
next
  case (Init_read a b)
  then have "init (is_aux_block_id hdr) a 0 b access_read False pc = Inr pc'"
    using assms by (simp add: init_def)
  then show ?thesis using assms(2) by (rule init_phases)
next
  case (Destroy a)
  then show ?thesis using assms destroy_phases by simp
next
  case (Declare_readonly a)
  then show ?thesis using assms declare_readonly_phases by simp
next
  case (Declare_snapshotted a)
  then show ?thesis using assms declare_snapshotted_phases by simp
qed

subsection \<open>The order of the acquirers that stay\<close>

lemma order_kept_refl: "order_kept pc pc"
  by (simp add: order_kept_def)

lemma order_kept_same:
  "(\<And>c. acquirers (cp_store pc' c) = acquirers (cp_store pc c)) \<Longrightarrow> order_kept pc pc'"
  by (simp add: order_kept_def)

lemma order_kept_trans:
  assumes "order_kept s t" and "order_kept t u"
  shows "order_kept s u"
  unfolding order_kept_def
proof (intro impI)
  assume d: "\<forall>c. distinct (acquirers (cp_store s c))"
  then have t: "\<forall>c. distinct (acquirers (cp_store t c))"
    "\<forall>c. set (acquirers (cp_store t c)) \<subseteq> set (acquirers (cp_store s c))"
    "\<forall>c x y. stands_before (acquirers (cp_store s c)) x y
                    \<and> x \<in> set (acquirers (cp_store t c))
                    \<and> y \<in> set (acquirers (cp_store t c))
               \<longrightarrow> stands_before (acquirers (cp_store t c)) x y"
    using assms(1) unfolding order_kept_def by blast+
  then have u: "\<forall>c. distinct (acquirers (cp_store u c))"
    "\<forall>c. set (acquirers (cp_store u c)) \<subseteq> set (acquirers (cp_store t c))"
    "\<forall>c x y. stands_before (acquirers (cp_store t c)) x y
                    \<and> x \<in> set (acquirers (cp_store u c))
                    \<and> y \<in> set (acquirers (cp_store u c))
               \<longrightarrow> stands_before (acquirers (cp_store u c)) x y"
    using assms(2) unfolding order_kept_def by blast+
  have "\<forall>c x y. stands_before (acquirers (cp_store s c)) x y
                    \<and> x \<in> set (acquirers (cp_store u c))
                    \<and> y \<in> set (acquirers (cp_store u c))
               \<longrightarrow> stands_before (acquirers (cp_store u c)) x y"
  proof (intro allI impI)
    fix c x y
    assume a: "stands_before (acquirers (cp_store s c)) x y
                    \<and> x \<in> set (acquirers (cp_store u c))
                    \<and> y \<in> set (acquirers (cp_store u c))"
    then have "x \<in> set (acquirers (cp_store t c))" "y \<in> set (acquirers (cp_store t c))"
      using u(2) by blast+
    then have "stands_before (acquirers (cp_store t c)) x y" using a t(3) by blast
    then show "stands_before (acquirers (cp_store u c)) x y" using a u(3) by blast
  qed
  moreover have "\<forall>c. set (acquirers (cp_store u c)) \<subseteq> set (acquirers (cp_store s c))"
    using t(2) u(2) by blast
  ultimately show "(\<forall>c. distinct (acquirers (cp_store u c)))
        \<and> (\<forall>c. set (acquirers (cp_store u c)) \<subseteq> set (acquirers (cp_store s c)))
        \<and> (\<forall>c x y. stands_before (acquirers (cp_store s c)) x y
                    \<and> x \<in> set (acquirers (cp_store u c))
                    \<and> y \<in> set (acquirers (cp_store u c))
               \<longrightarrow> stands_before (acquirers (cp_store u c)) x y)"
    using u(1) by blast
qed

lemma remove_nth_beyond: "length q \<le> k \<Longrightarrow> remove_nth k q = q"
  by (simp add: remove_nth_def)

lemma order_kept_snapshot_and_remove: "order_kept s (snapshot_and_remove r c k s)"
  unfolding order_kept_def
proof (intro impI conjI allI)
  assume d: "\<forall>c. distinct (acquirers (cp_store s c))"
  define q where "q = acquirers (cp_store s c)"
  have dq: "distinct q" using d by (simp add: q_def)
  {
    fix c'
    show "distinct (acquirers (cp_store (snapshot_and_remove r c k s) c'))"
      using d distinct_remove_nth [OF dq, of k]
      by (simp add: snapshot_and_remove_fields q_def)
    show "set (acquirers (cp_store (snapshot_and_remove r c k s) c')) \<subseteq> set (acquirers (cp_store s c'))"
      using set_remove_nth [of k q] by (simp add: snapshot_and_remove_fields q_def)
  }
  {
    fix c' x y
    assume a: "stands_before (acquirers (cp_store s c')) x y
        \<and> x \<in> set (acquirers (cp_store (snapshot_and_remove r c k s) c'))
        \<and> y \<in> set (acquirers (cp_store (snapshot_and_remove r c k s) c'))"
    show "stands_before (acquirers (cp_store (snapshot_and_remove r c k s) c')) x y"
    proof (cases "c' = c \<and> k < length q")
      case False
      then have "acquirers (cp_store (snapshot_and_remove r c k s) c') = acquirers (cp_store s c')"
        using remove_nth_beyond [of q k] by (auto simp add: snapshot_and_remove_fields q_def)
      then show ?thesis using a by simp
    next
      case True
      then have e: "acquirers (cp_store (snapshot_and_remove r c k s) c') = remove_nth k q"
        by (simp add: snapshot_and_remove_fields q_def)
      have n: "q ! k \<notin> set (remove_nth k q)" using dq True by (intro nth_notin_remove_nth) simp_all
      have "x \<noteq> q ! k" "y \<noteq> q ! k" using a n unfolding e by auto
      moreover have "stands_before q x y" using a True by (simp add: q_def)
      ultimately show ?thesis unfolding e using True by (intro stands_before_remove_nth) simp_all
    qed
  }
qed

lemma pulse_loop_order:
  assumes "pulse_loop r c i pc = Inr pc'"
  shows "order_kept pc pc'"
  using assms
proof (rule pulse_loop_rel)
  fix s a
  show "order_kept s (pulse_read_available a s)"
    by (rule order_kept_same) (simp add: pulse_read_available_def update_acq_def)
  show "order_kept s (pulse_write_available a s)"
    by (rule order_kept_same) (simp add: pulse_write_available_def update_acq_def)
next
  fix s r c k
  show "order_kept s (snapshot_and_remove r c k s)" by (rule order_kept_snapshot_and_remove)
next
  fix s t u
  assume "order_kept s t" "order_kept t u"
  then show "order_kept s u" by (rule order_kept_trans)
qed (rule order_kept_refl)

lemma pulse_pulsables_order:
  assumes "pulse_pulsables c a pc = Inr pc'"
  shows "order_kept pc pc'"
proof (cases "pc' = pc")
  case True then show ?thesis by (simp add: order_kept_refl)
next
  case False
  then have "\<exists>r i. pulse_loop r c i pc = Inr pc'"
    using assms by (auto simp add: pulse_pulsables_def Let_def split: if_splits)
  then show ?thesis using pulse_loop_order by blast
qed

subsection \<open>What a call does to the queues\<close>

lemma phases_facts:
  assumes inv: "fifo_inv pc" and ph: "phases pc pc'"
  shows "page_cache (acq_store pc x) \<Longrightarrow> page_cache (acq_store pc' x)"
    and "x \<in> set (acquirers (cp_store pc' c)) \<Longrightarrow> page_cache (acq_store pc x)
          \<Longrightarrow> x \<in> set (acquirers (cp_store pc c))"
    and "page_cache (acq_store pc x) \<Longrightarrow> access (acq_store pc' x) = access_write
          \<Longrightarrow> access (acq_store pc x) = access_write"
    and "stands_before (acquirers (cp_store pc c)) x y
          \<Longrightarrow> x \<in> set (acquirers (cp_store pc' c)) \<Longrightarrow> y \<in> set (acquirers (cp_store pc' c))
          \<Longrightarrow> stands_before (acquirers (cp_store pc' c)) x y"
    and "\<not> read_cond (acq_store pc x) \<Longrightarrow> read_cond (acq_store pc' x)
          \<Longrightarrow> page_cache (acq_store pc x) \<Longrightarrow> \<exists>c'. x \<in> set (acquirers (cp_store pc c'))"
proof -
  from ph obtain pcq pcp where
    q: "quiet pc pcq" and invq: "fifo_inv pcq"
    and pu: "pcp = pcq \<or> (\<exists>c b. pulse_pulsables c b pcq = Inr pcp)"
    and sq: "same_queues pcp pc'"
    unfolding phases_def by blast
  have dq: "\<forall>c. distinct (acquirers (cp_store pcq c))" using fifo_invD(1) [OF invq] by simp
  have fr: "(\<forall>c'. set (acquirers (cp_store pcp c')) \<subseteq> set (acquirers (cp_store pcq c')))
       \<and> (\<forall>x. access (acq_store pcp x) = access (acq_store pcq x)
              \<and> page_cache (acq_store pcp x) = page_cache (acq_store pcq x))"
  proof (cases "pcp = pcq")
    case True then show ?thesis by simp
  next
    case False
    then obtain c b where "pulse_pulsables c b pcq = Inr pcp" using pu by blast
    then show ?thesis by (rule pulse_pulsables_frame)
  qed
  have ok: "order_kept pcq pcp"
  proof (cases "pcp = pcq")
    case True then show ?thesis by (simp add: order_kept_refl)
  next
    case False
    then obtain c b where "pulse_pulsables c b pcq = Inr pcp" using pu by blast
    then show ?thesis by (rule pulse_pulsables_order)
  qed
  have ord: "\<And>c x y. stands_before (acquirers (cp_store pcq c)) x y
              \<Longrightarrow> x \<in> set (acquirers (cp_store pcp c)) \<Longrightarrow> y \<in> set (acquirers (cp_store pcp c))
              \<Longrightarrow> stands_before (acquirers (cp_store pcp c)) x y"
    using ok dq unfolding order_kept_def by blast
  have np: "\<And>y. \<not> read_cond (acq_store pcq y) \<Longrightarrow> read_cond (acq_store pcp y)
              \<Longrightarrow> \<exists>c'. y \<in> set (acquirers (cp_store pcq c'))"
  proof -
    fix y assume n: "\<not> read_cond (acq_store pcq y)" and p: "read_cond (acq_store pcp y)"
    then have "pcp \<noteq> pcq" by auto
    then obtain c' b where "pulse_pulsables c' b pcq = Inr pcp" using pu by blast
    then show "\<exists>c'. y \<in> set (acquirers (cp_store pcq c'))"
      using pulse_pulsables_new_pulse [OF _ invq n p] by blast
  qed
  have s: "\<And>c. acquirers (cp_store pc' c) = acquirers (cp_store pcp c)"
    "\<And>x. access (acq_store pc' x) = access (acq_store pcp x)"
    "\<And>x. read_cond (acq_store pc' x) = read_cond (acq_store pcp x)"
    "\<And>x. page_cache (acq_store pc' x) = page_cache (acq_store pcp x)"
    using sq by (simp_all add: same_queues_def)
  show "page_cache (acq_store pc x) \<Longrightarrow> page_cache (acq_store pc' x)"
    using quietD(2) [OF q, of x] fr by (simp add: s)
  show m: "x \<in> set (acquirers (cp_store pc' c)) \<Longrightarrow> page_cache (acq_store pc x)
          \<Longrightarrow> x \<in> set (acquirers (cp_store pc c))" for x c
  proof -
    assume "x \<in> set (acquirers (cp_store pc' c))" and p: "page_cache (acq_store pc x)"
    then have "x \<in> set (acquirers (cp_store pcq c))" using fr by (auto simp add: s)
    then show ?thesis using p by (rule quietD(3) [OF q])
  qed
  show "page_cache (acq_store pc x) \<Longrightarrow> access (acq_store pc' x) = access_write
          \<Longrightarrow> access (acq_store pc x) = access_write"
    using quietD(5) [OF q, of x] fr by (simp add: s)
  show "stands_before (acquirers (cp_store pc c)) x y
          \<Longrightarrow> x \<in> set (acquirers (cp_store pc' c)) \<Longrightarrow> y \<in> set (acquirers (cp_store pc' c))
          \<Longrightarrow> stands_before (acquirers (cp_store pc' c)) x y"
  proof -
    assume b: "stands_before (acquirers (cp_store pc c)) x y"
      and x: "x \<in> set (acquirers (cp_store pc' c))" and y: "y \<in> set (acquirers (cp_store pc' c))"
    have xp: "x \<in> set (acquirers (cp_store pcp c))" and yp: "y \<in> set (acquirers (cp_store pcp c))"
      using x y by (simp_all add: s)
    then have xq: "x \<in> set (acquirers (cp_store pcq c))" and yq: "y \<in> set (acquirers (cp_store pcq c))"
      using fr by auto
    have "stands_before (acquirers (cp_store pcq c)) x y" using quietD(4) [OF q b xq yq] .
    then have "stands_before (acquirers (cp_store pcp c)) x y" using xp yp by (rule ord)
    then show ?thesis by (simp add: s)
  qed
  show "\<not> read_cond (acq_store pc x) \<Longrightarrow> read_cond (acq_store pc' x)
          \<Longrightarrow> page_cache (acq_store pc x) \<Longrightarrow> \<exists>c'. x \<in> set (acquirers (cp_store pc c'))"
  proof -
    assume n: "\<not> read_cond (acq_store pc x)" and p: "read_cond (acq_store pc' x)"
      and i: "page_cache (acq_store pc x)"
    have "\<not> read_cond (acq_store pcq x)" using n quietD(1) [OF q, of x] by simp
    moreover have "read_cond (acq_store pcp x)" using p by (simp add: s)
    ultimately obtain c' where "x \<in> set (acquirers (cp_store pcq c'))" using np by blast
    then have "x \<in> set (acquirers (cp_store pc c'))" using i by (rule quietD(3) [OF q])
    then show ?thesis by blast
  qed
qed

lemma waits_behind_call:
  assumes w: "waits_behind pc c a1 a2" and step: "call hdr x pc = Inr pc'"
  shows "waits_behind pc' c a1 a2"
proof -
  have inv: "fifo_inv pc" and p1: "page_cache (acq_store pc a1)"
    and p2: "page_cache (acq_store pc a2)"
    using w by (simp_all add: waits_behind_def)
  have inv': "fifo_inv pc'" using step inv by (rule call_fifo_inv)
  have ph: "phases pc pc'" using step inv by (rule call_phases)
  note f = phases_facts [OF inv ph]
  have p1': "page_cache (acq_store pc' a1)" using f(1) p1 .
  have p2': "page_cache (acq_store pc' a2)" using f(1) p2 .
  consider
    (front) "stands_before (acquirers (cp_store pc c)) a1 a2"
        "access (acq_store pc a1) = access_write"
    | (gone) "\<not> (a1 \<in> set (acquirers (cp_store pc c)) \<and> access (acq_store pc a1) = access_write)"
    | (left) "\<not> read_cond (acq_store pc a2)" "\<forall>c'. a2 \<notin> set (acquirers (cp_store pc c'))"
    using w unfolding waits_behind_def by blast
  then have "(stands_before (acquirers (cp_store pc' c)) a1 a2
           \<and> access (acq_store pc' a1) = access_write)
         \<or> \<not> (a1 \<in> set (acquirers (cp_store pc' c))
                \<and> access (acq_store pc' a1) = access_write)
         \<or> (\<not> read_cond (acq_store pc' a2)
              \<and> (\<forall>c'. a2 \<notin> set (acquirers (cp_store pc' c'))))"
  proof cases
    case front
    show ?thesis
    proof (cases "a1 \<in> set (acquirers (cp_store pc' c)) \<and> access (acq_store pc' a1) = access_write")
      case False then show ?thesis by simp
    next
      case True
      have nr: "\<not> read_cond (acq_store pc' a2)"
        using admission_step [OF inv ph front] True by auto
      show ?thesis
      proof (cases "a2 \<in> set (acquirers (cp_store pc' c))")
        case True
        then have "stands_before (acquirers (cp_store pc' c)) a1 a2"
          using f(4) [OF front(1)] \<open>a1 \<in> set (acquirers (cp_store pc' c)) \<and> _\<close> by simp
        then show ?thesis using \<open>a1 \<in> set (acquirers (cp_store pc' c)) \<and> _\<close> by simp
      next
        case False
        have m2: "a2 \<in> set (acquirers (cp_store pc c))"
          using front(1) stands_before_mem by fastforce
        have "a2 \<notin> set (acquirers (cp_store pc' c'))" for c'
        proof
          assume "a2 \<in> set (acquirers (cp_store pc' c'))"
          then have "a2 \<in> set (acquirers (cp_store pc c'))" using p2 by (rule f(2))
          then have "current_page (acq_store pc a2) = Some c'" using fifo_invD(4) [OF inv] by blast
          moreover have "current_page (acq_store pc a2) = Some c"
            using fifo_invD(4) [OF inv m2] .
          ultimately show False using False \<open>a2 \<in> set (acquirers (cp_store pc' c'))\<close> by simp
        qed
        then show ?thesis using nr by simp
      qed
    qed
  next
    case gone
    have "\<not> (a1 \<in> set (acquirers (cp_store pc' c)) \<and> access (acq_store pc' a1) = access_write)"
    proof
      assume a: "a1 \<in> set (acquirers (cp_store pc' c)) \<and> access (acq_store pc' a1) = access_write"
      then have "a1 \<in> set (acquirers (cp_store pc c))" using f(2) p1 by blast
      moreover have "access (acq_store pc a1) = access_write" using a f(3) p1 by blast
      ultimately show False using gone by simp
    qed
    then show ?thesis by simp
  next
    case left
    have out: "a2 \<notin> set (acquirers (cp_store pc' c'))" for c'
      using f(2) [of a2 c'] p2 left(2) by blast
    have "\<not> read_cond (acq_store pc' a2)"
      using f(5) [of a2] left p2 by blast
    then show ?thesis using out by simp
  qed
  then show ?thesis using inv' p1' p2' by (simp add: waits_behind_def)
qed

lemma waits_behind_run:
  "waits_behind pc c a1 a2 \<Longrightarrow> run hdr xs pc = Inr pc' \<Longrightarrow> waits_behind pc' c a1 a2"
proof (induction xs arbitrary: pc)
  case Nil then show ?case by simp
next
  case (Cons x xs)
  from Cons.prems(2) obtain pc1 where c: "call hdr x pc = Inr pc1" and r: "run hdr xs pc1 = Inr pc'"
    by (auto simp add: and_then_Inr)
  have "waits_behind pc1 c a1 a2" using Cons.prems(1) c by (rule waits_behind_call)
  then show ?case using r by (rule Cons.IH)
qed

subsection \<open>Evaluating the calls on a concrete state\<close>

lemmas eval_defs =
  write_then_read_def example_header_def and_then_def
  init_def init_read_def init_fields_def page_for_block_id_def alloc_current_page_def
  add_acquirer_def pulse_pulsables_def list_index_def remove_nth_def
  pulse_read_available_def pulse_write_available_def
  update_acq_def update_cp_def update_txn_def
  new_page_cache_t_def new_current_page_t_def new_page_txn_t_def
  default_current_page_acq_t_def default_throttler_acq_t_def
  connect_preceder_def recency_for_block_id_def subsequent_def distant_past_def
  destroy_def destroy_txn_part_def destroy_queue_part_def destroy_snapshot_part_def
  txn_remove_acquirer_def remove_acquirer_def consider_evicting_current_page_def
  should_be_evicted_def


lemma write_then_read_run:
  "\<exists>pc'. run example_header write_then_read (new_page_cache_t False (\<lambda>_. distant_past)) = Inr pc'
      \<and> acquirers (cp_store pc' 0) = [1, 2]
      \<and> access (acq_store pc' 1) = access_write"
  by (simp add: eval_defs pulse_loop.simps Let_def)

lemma write_then_read_destroy:
  "\<exists>pc pc'. run example_header write_then_read (new_page_cache_t False (\<lambda>_. distant_past)) = Inr pc
      \<and> run example_header [Init_read 3 7, Destroy 1] pc = Inr pc'
      \<and> acquirers (cp_store pc 0) = [1, 2]
      \<and> access (acq_store pc 1) = access_write
      \<and> \<not> read_cond (acq_store pc 2)
      \<and> read_cond (acq_store pc' 2)
      \<and> acquirers (cp_store pc' 0) = [2, 3]"
  by (simp add: eval_defs pulse_loop.simps Let_def)

subsection \<open>Readers wait behind a writer\<close>

text \<open>
  C4. Take a state \<open>pc\<close> that the calls on acquirers reach from a state in which the
  invariant of the queues holds (a new page cache is one), and in it an acquirer \<open>a1\<close>
  with write access that stands before an acquirer \<open>a2\<close> in the queue of a current page
  \<open>c\<close>. Then in no state \<open>pc'\<close> that further calls reach from \<open>pc\<close> is the read signal of
  \<open>a2\<close> pulsed while \<open>a1\<close> is in the queue of \<open>c\<close> with write access, whether \<open>a2\<close> is still
  in the queue or has been taken out of it: the read signal of \<open>a2\<close> is pulsed only when
  \<open>a1\<close> has left the queue or has declared itself readonly. With no further call, the
  read signal of \<open>a2\<close> is not pulsed in \<open>pc\<close>.
\<close>

theorem fifo_admission:
  assumes inv: "fifo_inv pc0"
    and reach: "run hdr calls0 pc0 = Inr pc"
    and bef: "stands_before (acquirers (cp_store pc c)) a1 a2"
    and wr: "access (acq_store pc a1) = access_write"
    and run: "run hdr calls pc = Inr pc'"
  shows "\<not> (read_cond (acq_store pc' a2)
            \<and> a1 \<in> set (acquirers (cp_store pc' c))
            \<and> access (acq_store pc' a1) = access_write)"
proof -
  have i: "fifo_inv pc" using reach inv by (rule run_fifo_inv)
  have m: "a1 \<in> set (acquirers (cp_store pc c))" "a2 \<in> set (acquirers (cp_store pc c))"
    using bef stands_before_mem by fastforce+
  have "page_cache (acq_store pc a1)" "page_cache (acq_store pc a2)"
    using fifo_invD(3) [OF i] m by blast+
  then have "waits_behind pc c a1 a2" using i bef wr by (simp add: waits_behind_def)
  then have w: "waits_behind pc' c a1 a2" using run by (rule waits_behind_run)
  then have i': "fifo_inv pc'" by (simp add: waits_behind_def)
  show ?thesis
  proof
    assume a: "read_cond (acq_store pc' a2)
            \<and> a1 \<in> set (acquirers (cp_store pc' c))
            \<and> access (acq_store pc' a1) = access_write"
    then have "stands_before (acquirers (cp_store pc' c)) a1 a2"
      using w unfolding waits_behind_def by blast
    moreover have "access (acq_store pc' a1) = access_write" using a by simp
    ultimately have "\<not> read_cond (acq_store pc' a2)" by (rule fifo_inv_blocked [OF i'])
    then show False using a by simp
  qed
qed

text \<open>
  On a new page cache, acquirer 1 takes block 7 for writing and acquirer 2 takes it for
  reading: acquirer 1 stands before acquirer 2 and the read signal of acquirer 2 is not
  pulsed. After a third acquirer has joined and acquirer 1 has been destroyed, the read
  signal of acquirer 2 is pulsed, and acquirer 1 has left the queue.
\<close>

theorem fifo_admission_witness:
  "\<exists>pc pc'. run example_header write_then_read (new_page_cache_t False (\<lambda>_. distant_past)) = Inr pc
      \<and> run example_header [Init_read 3 7, Destroy 1] pc = Inr pc'
      \<and> stands_before (acquirers (cp_store pc 0)) 1 2
      \<and> access (acq_store pc 1) = access_write
      \<and> \<not> read_cond (acq_store pc 2)
      \<and> read_cond (acq_store pc' 2)
      \<and> \<not> (1 \<in> set (acquirers (cp_store pc' 0)) \<and> access (acq_store pc' 1) = access_write)"
proof -
  from write_then_read_destroy obtain pc pc' where
    r: "run example_header write_then_read (new_page_cache_t False (\<lambda>_. distant_past)) = Inr pc"
    and s: "run example_header [Init_read 3 7, Destroy 1] pc = Inr pc'"
    and q: "acquirers (cp_store pc 0) = [1, 2]"
    and w: "access (acq_store pc 1) = access_write"
    and n: "\<not> read_cond (acq_store pc 2)"
    and p: "read_cond (acq_store pc' 2)"
    by blast
  have "0 < (1::nat) \<and> 1 < length [1::nat, 2] \<and> [1::nat, 2] ! 0 = 1 \<and> [1::nat, 2] ! 1 = 2" by simp
  then have b: "stands_before (acquirers (cp_store pc 0)) 1 2"
    unfolding stands_before_def q by blast
  have "\<not> (1 \<in> set (acquirers (cp_store pc' 0)) \<and> access (acq_store pc' 1) = access_write)"
    using fifo_admission [OF fifo_inv_new_page_cache r b w s] p by blast
  then show ?thesis using r s b w n p by blast
qed

section \<open>Block versions\<close>

subsection \<open>Operations that leave the versions alone\<close>

lemma same_versions_refl: "same_versions pc pc"
  by (simp add: same_versions_def)

lemma same_versions_trans:
  "same_versions pc pc1 \<Longrightarrow> same_versions pc1 pc2 \<Longrightarrow> same_versions pc pc2"
  by (simp add: same_versions_def)

lemma same_versions_update_acq:
  assumes "\<And>x. block_version (f x) = block_version x" "\<And>x. current_page (f x) = current_page x"
    "\<And>x. page_cache (f x) = page_cache x"
  shows "same_versions pc (update_acq a f pc)"
  by (simp add: same_versions_def update_acq_def assms)

lemma same_versions_update_cp:
  assumes "\<And>x. last_write_acquirer_version (f x) = last_write_acquirer_version x"
    "\<And>x. block_id (f x) = block_id x"
  shows "same_versions pc (update_cp c f pc)"
  by (simp add: same_versions_def update_cp_def assms)

lemma same_versions_txn_store: "same_versions pc (pc\<lparr> txn_store := h \<rparr>)"
  by (simp add: same_versions_def)

lemma same_versions_reset_page_ptr: "same_versions pc (reset_page_ptr po pc)"
  by (cases po) (simp_all add: same_versions_def reset_page_ptr_def)

lemma same_versions_the_page:
  "same_versions pc (snd (the_page_for_read_or_deleted c pc))"
  by (simp add: same_versions_def the_page_for_read_or_deleted_def
      convert_from_serializer_if_necessary_def new_page_t_def page_ptr_init_def update_cp_def Let_def)

lemma same_versions_tpp_init: "same_versions pc (snd (tpp_init r po pc))"
  by (cases po) (simp_all add: same_versions_def tpp_init_def page_ptr_init_def)

lemma same_versions_snapshot_and_remove: "same_versions pc (snapshot_and_remove r c i pc)"
proof -
  define pc1 where "pc1 = snd (the_page_for_read_or_deleted c pc)"
  define pg where "pg = fst (the_page_for_read_or_deleted c pc)"
  define pc2 where "pc2 = snd (tpp_init r pg pc1)"
  define tpp where "tpp = fst (tpp_init r pg pc1)"
  define pc3 where "pc3 = update_acq (acquirers (cp_store pc c) ! i) (\<lambda>acq. acq\<lparr> snapshotted_page := tpp \<rparr>) pc2"
  have e: "snapshot_and_remove r c i pc
      = update_cp c (\<lambda>cp. cp\<lparr> acquirers := remove_nth i (acquirers cp) \<rparr>) pc3"
    by (simp add: snapshot_and_remove_def Let_def case_prod_beta pc1_def pg_def pc2_def tpp_def pc3_def)
  have "same_versions pc pc1" unfolding pc1_def by (rule same_versions_the_page)
  moreover have "same_versions pc1 pc2" unfolding pc2_def by (rule same_versions_tpp_init)
  moreover have "same_versions pc2 pc3" unfolding pc3_def by (rule same_versions_update_acq) simp_all
  moreover have "same_versions pc3 (update_cp c (\<lambda>cp. cp\<lparr> acquirers := remove_nth i (acquirers cp) \<rparr>) pc3)"
    by (rule same_versions_update_cp) simp_all
  ultimately show ?thesis unfolding e by (blast intro: same_versions_trans)
qed

lemma same_versions_pulse_read: "same_versions pc (pulse_read_available a pc)"
  unfolding pulse_read_available_def by (rule same_versions_update_acq) simp_all

lemma same_versions_pulse_write: "same_versions pc (pulse_write_available a pc)"
  unfolding pulse_write_available_def by (rule same_versions_update_acq) simp_all

lemma pulse_loop_same_versions:
  "pulse_loop r c i pc = Inr pc' \<Longrightarrow> same_versions pc pc'"
proof (induction r c i pc rule: pulse_loop.induct)
  case (1 r c i pc)
  show ?case
  proof (cases "length (acquirers (cp_store pc c)) \<le> i")
    case True
    then have "pc' = pc" using "1.prems" by (simp add: pulse_loop.simps [of r c i pc])
    then show ?thesis by (simp add: same_versions_refl)
  next
    case False
    define cur where "cur = acquirers (cp_store pc c) ! i"
    define pc1 where "pc1 = pulse_read_available cur pc"
    have s1: "same_versions pc pc1" unfolding pc1_def by (rule same_versions_pulse_read)
    show ?thesis
    proof (cases "access (acq_store pc1 cur) = access_read")
      case True
      note rd = True
      show ?thesis
      proof (cases "declared_snapshotted (acq_store pc1 cur)")
        case True
        have run: "pulse_loop r c i (snapshot_and_remove r c i pc1) = Inr pc'"
          using "1.prems" False rd True
          by (simp add: pulse_loop.simps [of r c i pc] cur_def [symmetric] pc1_def [symmetric] Let_def)
        have "same_versions (snapshot_and_remove r c i pc1) pc'"
          using "1.IH"(1) [OF False cur_def pc1_def rd True run] .
        then show ?thesis
          using s1 same_versions_snapshot_and_remove [of pc1 r c i]
          by (blast intro: same_versions_trans)
      next
        case False
        note ns = False
        have run: "pulse_loop r c (Suc i) pc1 = Inr pc'"
          using "1.prems" \<open>\<not> length (acquirers (cp_store pc c)) \<le> i\<close> rd False
          by (simp add: pulse_loop.simps [of r c i pc] cur_def [symmetric] pc1_def [symmetric] Let_def)
        have "same_versions pc1 pc'"
          using "1.IH"(2) [OF \<open>\<not> length (acquirers (cp_store pc c)) \<le> i\<close> cur_def pc1_def rd ns run] .
        then show ?thesis using s1 by (blast intro: same_versions_trans)
      qed
    next
      case False
      have "pc' = pc1 \<or> pc' = pulse_write_available cur pc1"
        using "1.prems" \<open>\<not> length (acquirers (cp_store pc c)) \<le> i\<close> False
        by (auto simp add: pulse_loop.simps [of r c i pc] cur_def [symmetric]
            pc1_def [symmetric] Let_def split: if_splits)
      then show ?thesis
        using s1 same_versions_pulse_write [of pc1 cur] by (auto intro: same_versions_trans)
    qed
  qed
qed

lemma pulse_pulsables_same_versions:
  assumes "pulse_pulsables c a pc = Inr pc'"
  shows "same_versions pc pc'"
proof (cases "pc' = pc")
  case True then show ?thesis by (simp add: same_versions_refl)
next
  case False
  then have "\<exists>r i. pulse_loop r c i pc = Inr pc'"
    using assms by (auto simp add: pulse_pulsables_def Let_def split: if_splits)
  then show ?thesis using pulse_loop_same_versions by blast
qed

lemma versions_stepsD:
  assumes "versions_steps X n pc pc'"
  shows "table_ok pc'" and "next_cp pc \<le> next_cp pc'"
    and "c < next_cp pc \<Longrightarrow> current_pages pc' b = Some c \<Longrightarrow> current_pages pc b = Some c"
    and "c < next_cp pc \<Longrightarrow> current_pages pc' b = Some c \<Longrightarrow>
         \<exists>k\<le>n. last_write_acquirer_version (cp_store pc' c)
                        = last_write_acquirer_version (cp_store pc c) + of_nat k"
    and "a \<notin> X \<Longrightarrow> page_cache (acq_store pc a) \<Longrightarrow> page_cache (acq_store pc' a)"
    and "a \<notin> X \<Longrightarrow> page_cache (acq_store pc a) \<Longrightarrow>
         block_version (acq_store pc' a) = block_version (acq_store pc a)"
    and "a \<notin> X \<Longrightarrow> page_cache (acq_store pc a) \<Longrightarrow>
         current_page (acq_store pc' a) = current_page (acq_store pc a)"
  using assms by (simp_all add: versions_steps_def)

lemma versions_steps_trans:
  assumes "versions_steps X m pc pc1" and "versions_steps X n pc1 pc2"
  shows "versions_steps X (m + n) pc pc2"
  unfolding versions_steps_def
proof (intro conjI allI impI)
  show "table_ok pc2" using assms(2) by (rule versions_stepsD(1))
  show "next_cp pc \<le> next_cp pc2"
    using versions_stepsD(2) [OF assms(1)] versions_stepsD(2) [OF assms(2)] by simp
next
  fix b c assume c: "c < next_cp pc \<and> current_pages pc2 b = Some c"
  then have c0: "c < next_cp pc" and t2: "current_pages pc2 b = Some c" by simp_all
  have c1: "c < next_cp pc1" using c0 versions_stepsD(2) [OF assms(1)] by simp
  have t1: "current_pages pc1 b = Some c" using assms(2) c1 t2 by (rule versions_stepsD(3))
  have k1: "\<exists>k\<le>n. last_write_acquirer_version (cp_store pc2 c)
                        = last_write_acquirer_version (cp_store pc1 c) + of_nat k"
    using assms(2) c1 t2 by (rule versions_stepsD(4))
  show "current_pages pc b = Some c" using assms(1) c0 t1 by (rule versions_stepsD(3))
  have k0: "\<exists>k\<le>m. last_write_acquirer_version (cp_store pc1 c)
                        = last_write_acquirer_version (cp_store pc c) + of_nat k"
    using assms(1) c0 t1 by (rule versions_stepsD(4))
  obtain k j where "k \<le> n" "j \<le> m"
    "last_write_acquirer_version (cp_store pc2 c)
       = last_write_acquirer_version (cp_store pc1 c) + of_nat k"
    "last_write_acquirer_version (cp_store pc1 c)
       = last_write_acquirer_version (cp_store pc c) + of_nat j"
    using k1 k0 by blast
  then have "j + k \<le> m + n \<and> last_write_acquirer_version (cp_store pc2 c)
       = last_write_acquirer_version (cp_store pc c) + of_nat (j + k)"
    by simp
  then show "\<exists>k\<le>m + n. last_write_acquirer_version (cp_store pc2 c)
       = last_write_acquirer_version (cp_store pc c) + of_nat k" by blast
next
  fix a assume a: "a \<notin> X \<and> page_cache (acq_store pc a)"
  then have ax: "a \<notin> X" and a0: "page_cache (acq_store pc a)" by simp_all
  have a1: "page_cache (acq_store pc1 a)" using assms(1) ax a0 by (rule versions_stepsD(5))
  show "page_cache (acq_store pc2 a)" using assms(2) ax a1 by (rule versions_stepsD(5))
  show "block_version (acq_store pc2 a) = block_version (acq_store pc a)"
    using versions_stepsD(6) [OF assms(1) ax a0] versions_stepsD(6) [OF assms(2) ax a1] by simp
  show "current_page (acq_store pc2 a) = current_page (acq_store pc a)"
    using versions_stepsD(7) [OF assms(1) ax a0] versions_stepsD(7) [OF assms(2) ax a1] by simp
qed

lemma versions_steps_mono: "versions_steps X m pc pc' \<Longrightarrow> m \<le> n \<Longrightarrow> versions_steps X n pc pc'"
  unfolding versions_steps_def by (meson order_trans)

lemma versions_steps_table_ok: "versions_steps X n pc pc' \<Longrightarrow> table_ok pc'"
  by (simp add: versions_steps_def)

lemma same_versions_steps:
  assumes "table_ok pc" and "same_versions pc pc'"
  shows "versions_steps X 0 pc pc'"
  using assms by (simp add: versions_steps_def same_versions_def table_ok_def)

lemma versions_steps_update_exempt:
  assumes "table_ok pc"
  shows "versions_steps {a} 0 pc (update_acq a f pc)"
  using assms by (simp add: versions_steps_def table_ok_def update_acq_def)

lemma versions_steps_unexempt:
  assumes "versions_steps {a} n pc pc'" and "\<not> page_cache (acq_store pc a)"
  shows "versions_steps X n pc pc'"
  using assms unfolding versions_steps_def by auto

subsection \<open>The version that an acquirer is given\<close>

lemma add_acquirer_versions:
  assumes "add_acquirer c a pc = Inr pc'"
  shows "current_pages pc' = current_pages pc" and "next_cp pc' = next_cp pc"
    and "block_id (cp_store pc' c') = block_id (cp_store pc c')"
    and "c' \<noteq> c \<Longrightarrow> last_write_acquirer_version (cp_store pc' c')
                       = last_write_acquirer_version (cp_store pc c')"
    and "block_version (acq_store pc' a)
          = (if access (acq_store pc a) = access_write
             then subsequent (last_write_acquirer_version (cp_store pc c))
             else last_write_acquirer_version (cp_store pc c))"
    and "last_write_acquirer_version (cp_store pc' c) = block_version (acq_store pc' a)"
    and "page_cache (acq_store pc' x) = page_cache (acq_store pc x)"
    and "current_page (acq_store pc' x) = current_page (acq_store pc x)"
    and "x \<noteq> a \<Longrightarrow> block_version (acq_store pc' x) = block_version (acq_store pc x)"
proof -
  from add_acquirer_decompose [OF assms] obtain pcq where
    p: "pulse_pulsables c a pcq = Inr pc'"
    and o: "\<And>c'. c' \<noteq> c \<Longrightarrow> cp_store pcq c' = cp_store pc c'"
    and b: "\<And>b. page_cache (acq_store pcq b) = page_cache (acq_store pc b)"
      "\<And>b. current_page (acq_store pcq b) = current_page (acq_store pc b)"
      "\<And>b. b \<noteq> a \<Longrightarrow> block_version (acq_store pcq b) = block_version (acq_store pc b)"
    and v: "block_version (acq_store pcq a)
          = (if access (acq_store pc a) = access_write
             then subsequent (last_write_acquirer_version (cp_store pc c))
             else last_write_acquirer_version (cp_store pc c))"
    and l: "last_write_acquirer_version (cp_store pcq c) = block_version (acq_store pcq a)"
    and i: "block_id (cp_store pcq c) = block_id (cp_store pc c)"
    and t: "current_pages pcq = current_pages pc" "next_cp pcq = next_cp pc"
    by blast
  have sv: "same_versions pcq pc'" using p by (rule pulse_pulsables_same_versions)
  have s: "current_pages pc' = current_pages pcq" "next_cp pc' = next_cp pcq"
    "\<And>c. last_write_acquirer_version (cp_store pc' c) = last_write_acquirer_version (cp_store pcq c)"
    "\<And>c. block_id (cp_store pc' c) = block_id (cp_store pcq c)"
    "\<And>a. block_version (acq_store pc' a) = block_version (acq_store pcq a)"
    "\<And>a. current_page (acq_store pc' a) = current_page (acq_store pcq a)"
    "\<And>a. page_cache (acq_store pc' a) = page_cache (acq_store pcq a)"
    using sv by (simp_all add: same_versions_def)
  show "current_pages pc' = current_pages pc" using s(1) t(1) by simp
  show "next_cp pc' = next_cp pc" using s(2) t(2) by simp
  show "block_id (cp_store pc' c') = block_id (cp_store pc c')"
    using s(4) [of c'] i o [of c'] by (cases "c' = c") simp_all
  show "c' \<noteq> c \<Longrightarrow> last_write_acquirer_version (cp_store pc' c')
                       = last_write_acquirer_version (cp_store pc c')"
    using s(3) [of c'] o [of c'] by simp
  show "block_version (acq_store pc' a)
          = (if access (acq_store pc a) = access_write
             then subsequent (last_write_acquirer_version (cp_store pc c))
             else last_write_acquirer_version (cp_store pc c))"
    using s(5) [of a] v by simp
  show "last_write_acquirer_version (cp_store pc' c) = block_version (acq_store pc' a)"
    using s(3) [of c] s(5) [of a] l by simp
  show "page_cache (acq_store pc' x) = page_cache (acq_store pc x)" using s(7) [of x] b(1) by simp
  show "current_page (acq_store pc' x) = current_page (acq_store pc x)" using s(6) [of x] b(2) by simp
  show "x \<noteq> a \<Longrightarrow> block_version (acq_store pc' x) = block_version (acq_store pc x)"
    using s(5) [of x] b(3) [of x] by simp
qed

lemma add_acquirer_steps:
  assumes ok: "table_ok pc" and run: "add_acquirer c a pc = Inr pc'"
  shows "versions_steps {a} 1 pc pc'"
  unfolding versions_steps_def
proof (intro conjI allI impI)
  note f = add_acquirer_versions [OF run]
  show "table_ok pc'" using ok by (simp add: table_ok_def f(1,2,3))
  show "next_cp pc \<le> next_cp pc'" by (simp add: f(2))
  {
    fix b c' assume "c' < next_cp pc \<and> current_pages pc' b = Some c'"
    then show "current_pages pc b = Some c'" by (simp add: f(1))
    have "last_write_acquirer_version (cp_store pc' c')
            = last_write_acquirer_version (cp_store pc c') + of_nat 0
        \<or> last_write_acquirer_version (cp_store pc' c')
            = last_write_acquirer_version (cp_store pc c') + of_nat 1"
    proof (cases "c' = c")
      case False then show ?thesis using f(4) [of c'] by simp
    next
      case True then show ?thesis using f(5) f(6) by (simp add: subsequent_def)
    qed
    then show "\<exists>k\<le>1. last_write_acquirer_version (cp_store pc' c')
            = last_write_acquirer_version (cp_store pc c') + of_nat k"
      by (metis le_refl zero_le)
  }
  {
    fix x assume x: "x \<notin> {a} \<and> page_cache (acq_store pc x)"
    then show "page_cache (acq_store pc' x)" by (simp add: f(7))
    show "block_version (acq_store pc' x) = block_version (acq_store pc x)" using x f(9) [of x] by simp
    show "current_page (acq_store pc' x) = current_page (acq_store pc x)" by (simp add: f(8))
  }
qed

subsection \<open>The table of current pages\<close>

lemma table_okD:
  assumes "table_ok pc" and "current_pages pc b = Some c"
  shows "c < next_cp pc" and "block_id (cp_store pc c) = b"
  using assms by (simp_all add: table_ok_def)

lemma page_for_block_id_versions:
  assumes ok: "table_ok pc" and p: "page_for_block_id b pc = (c, pc')"
  shows "versions_steps X 0 pc pc'"
    and "current_pages pc' b = Some c"
    and "acq_store pc' = acq_store pc"
    and "last_write_acquirer_version (cp_store pc' c)
          = (case current_pages pc b of None \<Rightarrow> subsequent 0
             | Some c0 \<Rightarrow> last_write_acquirer_version (cp_store pc c0))"
    and "current_pages pc b = Some c0 \<Longrightarrow> c = c0"
proof -
  show "versions_steps X 0 pc pc'"
  proof (cases "current_pages pc b")
    case (Some c0)
    then have "pc' = pc" using p by (simp add: page_for_block_id_def)
    then show ?thesis using ok by (simp add: same_versions_steps same_versions_refl)
  next
    case None
    then have e: "c = next_cp pc"
      "pc' = pc\<lparr> cp_store := (cp_store pc)(next_cp pc := new_current_page_t b None),
                  next_cp := Suc (next_cp pc), current_pages := (current_pages pc)(b \<mapsto> next_cp pc) \<rparr>"
      using p by (auto simp add: page_for_block_id_def alloc_current_page_def)
    have t: "table_ok pc'"
      using ok unfolding table_ok_def e(2)
      by (auto simp add: new_current_page_t_def less_Suc_eq)
    show ?thesis
      unfolding versions_steps_def
    proof (intro conjI allI impI)
      show "table_ok pc'" by (rule t)
      show "next_cp pc \<le> next_cp pc'" by (simp add: e(2))
    next
      fix b' c' assume a: "c' < next_cp pc \<and> current_pages pc' b' = Some c'"
      then have "b' \<noteq> b" by (auto simp add: e(2))
      then show "current_pages pc b' = Some c'" using a by (simp add: e(2))
      have "last_write_acquirer_version (cp_store pc' c')
          = last_write_acquirer_version (cp_store pc c') + of_nat 0"
        using a by (simp add: e(2))
      then show "\<exists>k\<le>0. last_write_acquirer_version (cp_store pc' c')
          = last_write_acquirer_version (cp_store pc c') + of_nat k" by blast
    next
      fix a assume "a \<notin> X \<and> page_cache (acq_store pc a)"
      then show "page_cache (acq_store pc' a)"
        "block_version (acq_store pc' a) = block_version (acq_store pc a)"
        "current_page (acq_store pc' a) = current_page (acq_store pc a)"
        by (simp_all add: e(2))
    qed
  qed
  show "current_pages pc' b = Some c"
    using p by (auto simp add: page_for_block_id_def alloc_current_page_def split: option.splits)
  show "acq_store pc' = acq_store pc"
    using p by (auto simp add: page_for_block_id_def alloc_current_page_def split: option.splits)
  show "last_write_acquirer_version (cp_store pc' c)
          = (case current_pages pc b of None \<Rightarrow> subsequent 0
             | Some c0 \<Rightarrow> last_write_acquirer_version (cp_store pc c0))"
    using p by (auto simp add: page_for_block_id_def alloc_current_page_def new_current_page_t_def
        split: option.splits)
  show "current_pages pc b = Some c0 \<Longrightarrow> c = c0"
    using p by (auto simp add: page_for_block_id_def)
qed

lemma page_for_new_chosen_block_id_versions:
  assumes ok: "table_ok pc" and p: "page_for_new_chosen_block_id is_aux b pc = Inr (c, pc')"
  shows "versions_steps X 0 pc pc'"
    and "current_pages pc' b = Some c"
    and "acq_store pc' = acq_store pc"
    and "last_write_acquirer_version (cp_store pc' c)
          = (case current_pages pc b of None \<Rightarrow> subsequent 0
             | Some c0 \<Rightarrow> last_write_acquirer_version (cp_store pc c0))"
    and "current_pages pc b = Some c0 \<Longrightarrow> c = c0"
proof -
  have e: "current_pages pc b = None" "c = next_cp pc"
    "current_pages pc' = (current_pages pc)(b \<mapsto> next_cp pc)"
    "next_cp pc' = Suc (next_cp pc)"
    "acq_store pc' = acq_store pc"
    "cp_store pc' (next_cp pc) = new_current_page_t b (Some (next_page pc))"
    "\<And>c'. c' \<noteq> next_cp pc \<Longrightarrow> cp_store pc' c' = cp_store pc c'"
    using p
    by (auto simp add: page_for_new_chosen_block_id_def alloc_current_page_buf_def
        set_recency_for_block_id_def new_page_t_def page_ptr_init_def Let_def
        split: if_splits)
  have t: "table_ok pc'"
    unfolding table_ok_def
  proof (intro allI impI)
    fix b' c' assume a: "current_pages pc' b' = Some c'"
    show "c' < next_cp pc' \<and> block_id (cp_store pc' c') = b'"
    proof (cases "b' = b")
      case True
      then have "c' = next_cp pc" using a by (simp add: e)
      then have "c' < next_cp pc'" "cp_store pc' c' = new_current_page_t b (Some (next_page pc))"
        by (simp_all add: e)
      then show ?thesis using True by (simp add: new_current_page_t_def)
    next
      case False
      then have s: "current_pages pc b' = Some c'" using a by (simp add: e)
      have "c' < next_cp pc" "block_id (cp_store pc c') = b'"
        using table_okD [OF ok s] by simp_all
      then show ?thesis by (simp add: e)
    qed
  qed
  show "versions_steps X 0 pc pc'"
    unfolding versions_steps_def
  proof (intro conjI allI impI)
    show "table_ok pc'" by (rule t)
    show "next_cp pc \<le> next_cp pc'" by (simp add: e)
  next
    fix b' c' assume a: "c' < next_cp pc \<and> current_pages pc' b' = Some c'"
    then have "b' \<noteq> b" by (auto simp add: e)
    then show "current_pages pc b' = Some c'" using a by (simp add: e)
    have "last_write_acquirer_version (cp_store pc' c')
        = last_write_acquirer_version (cp_store pc c') + of_nat 0"
      using a by (simp add: e)
    then show "\<exists>k\<le>0. last_write_acquirer_version (cp_store pc' c')
        = last_write_acquirer_version (cp_store pc c') + of_nat k" by blast
  next
    fix a assume "a \<notin> X \<and> page_cache (acq_store pc a)"
    then show "page_cache (acq_store pc' a)"
      "block_version (acq_store pc' a) = block_version (acq_store pc a)"
      "current_page (acq_store pc' a) = current_page (acq_store pc a)"
      by (simp_all add: e)
  qed
  show "current_pages pc' b = Some c" by (simp add: e)
  show "acq_store pc' = acq_store pc" by (simp add: e)
  show "last_write_acquirer_version (cp_store pc' c)
          = (case current_pages pc b of None \<Rightarrow> subsequent 0
             | Some c0 \<Rightarrow> last_write_acquirer_version (cp_store pc c0))"
    by (simp add: e new_current_page_t_def)
  show "current_pages pc b = Some c0 \<Longrightarrow> c = c0" by (simp add: e)
qed

lemma reset_frame:
  "current_pages (reset nb c pc) = current_pages pc"
  "next_cp (reset nb c pc) = next_cp pc"
  "acq_store (reset nb c pc) = acq_store pc"
  "c' \<noteq> c \<Longrightarrow> cp_store (reset nb c pc) c' = cp_store pc c'"
  by (cases "page (cp_store pc c)"; simp add: reset_def reset_page_ptr_def Let_def)+

lemma consider_evicting_versions:
  assumes ok: "table_ok pc"
  shows "versions_steps X 0 pc (consider_evicting_current_page nb b pc)"
proof (cases "consider_evicting_current_page nb b pc = pc")
  case True
  then show ?thesis using ok by (simp add: same_versions_steps same_versions_refl)
next
  case False
  then obtain c where c: "current_pages pc b = Some c"
    and e: "consider_evicting_current_page nb b pc
              = reset nb c (pc\<lparr> current_pages := (current_pages pc)(b := None) \<rparr>)"
    by (auto simp add: consider_evicting_current_page_def split: if_splits option.splits)
  define pc' where "pc' = reset nb c (pc\<lparr> current_pages := (current_pages pc)(b := None) \<rparr>)"
  have f: "current_pages pc' = (current_pages pc)(b := None)" "next_cp pc' = next_cp pc"
    "acq_store pc' = acq_store pc" "\<And>c'. c' \<noteq> c \<Longrightarrow> cp_store pc' c' = cp_store pc c'"
    unfolding pc'_def by (simp_all add: reset_frame)
  have other: "c' \<noteq> c \<and> current_pages pc b' = Some c'" if "current_pages pc' b' = Some c'" for b' c'
  proof -
    have n: "b' \<noteq> b" using that by (auto simp add: f)
    then have s: "current_pages pc b' = Some c'" using that by (simp add: f)
    have "block_id (cp_store pc c') = b'" using table_okD(2) [OF ok s] .
    moreover have "block_id (cp_store pc c) = b" using table_okD(2) [OF ok c] .
    ultimately show ?thesis using n s by auto
  qed
  have "versions_steps X 0 pc pc'"
    unfolding versions_steps_def
  proof (intro conjI allI impI)
    show "table_ok pc'"
      unfolding table_ok_def
    proof (intro allI impI)
      fix b' c' assume "current_pages pc' b' = Some c'"
      then have o: "c' \<noteq> c" "current_pages pc b' = Some c'" using other by simp_all
      have "c' < next_cp pc" "block_id (cp_store pc c') = b'"
        using table_okD [OF ok o(2)] by simp_all
      then show "c' < next_cp pc' \<and> block_id (cp_store pc' c') = b'" using o by (simp add: f)
    qed
    show "next_cp pc \<le> next_cp pc'" by (simp add: f)
  next
    fix b' c' assume "c' < next_cp pc \<and> current_pages pc' b' = Some c'"
    then have "current_pages pc' b' = Some c'" by simp
    then have o: "c' \<noteq> c \<and> current_pages pc b' = Some c'" by (rule other)
    then show "current_pages pc b' = Some c'" by simp
    have "last_write_acquirer_version (cp_store pc' c')
        = last_write_acquirer_version (cp_store pc c') + of_nat 0"
      using o by (simp add: f)
    then show "\<exists>k\<le>0. last_write_acquirer_version (cp_store pc' c')
        = last_write_acquirer_version (cp_store pc c') + of_nat k" by blast
  next
    fix a assume "a \<notin> X \<and> page_cache (acq_store pc a)"
    then show "page_cache (acq_store pc' a)"
      "block_version (acq_store pc' a) = block_version (acq_store pc a)"
      "current_page (acq_store pc' a) = current_page (acq_store pc a)"
      by (simp_all add: f)
  qed
  then show ?thesis by (simp add: e pc'_def)
qed

subsection \<open>The calls and the versions\<close>

lemma page_for_block_id_acq_store:
  "page_for_block_id b pc = (c, pc') \<Longrightarrow> acq_store pc' = acq_store pc"
  by (auto simp add: page_for_block_id_def alloc_current_page_def split: option.splits)

lemma page_for_new_chosen_block_id_acq_store:
  "page_for_new_chosen_block_id is_aux b pc = Inr (c, pc') \<Longrightarrow> acq_store pc' = acq_store pc"
  by (auto simp add: page_for_new_chosen_block_id_def alloc_current_page_buf_def
        set_recency_for_block_id_def new_page_t_def page_ptr_init_def Let_def
        split: if_splits)

lemma init_decompose:
  assumes run: "init is_aux a t b acc create pc = Inr pc'"
  shows "\<exists>tx c pc2 pcj.
      \<not> page_cache (acq_store pc a)
      \<and> (page_for_block_id b (update_acq a (init_fields tx acc b) pc) = (c, pc2)
         \<or> page_for_new_chosen_block_id is_aux b (update_acq a (init_fields tx acc b) pc)
             = Inr (c, pc2))
      \<and> same_versions (update_acq a (\<lambda>acq. acq\<lparr> current_page := Some c \<rparr>) pc2) pcj
      \<and> access (acq_store pcj a) = acc
      \<and> add_acquirer c a pcj = Inr pc'"
proof (cases "acc = access_read")
  case True
  then have r: "init_read a b pc = Inr pc'" using run by (simp add: init_def)
  have un: "\<not> page_cache (acq_store pc a)"
  proof
    assume "page_cache (acq_store pc a)"
    then have "init_read a b pc = Inl Guarantee_failed" by (simp add: init_read_def)
    then show False using r by simp
  qed
  define pc1 where "pc1 = update_acq a (init_fields None acc b) pc"
  obtain c pc2 where p: "page_for_block_id b pc1 = (c, pc2)" by (cases "page_for_block_id b pc1")
  define pcj where "pcj = update_acq a (\<lambda>acq. acq\<lparr> current_page := Some c \<rparr>) pc2"
  have "init_read a b pc = add_acquirer c a pcj"
    unfolding init_read_def Let_def True [symmetric] pc1_def [symmetric] pcj_def using un p by simp
  then have rj: "add_acquirer c a pcj = Inr pc'" using r by simp
  have "acq_store pc2 = acq_store pc1" using p by (rule page_for_block_id_acq_store)
  then have acc: "access (acq_store pcj a) = acc"
    by (simp add: pcj_def pc1_def update_acq_def init_fields_def)
  have "same_versions (update_acq a (\<lambda>acq. acq\<lparr> current_page := Some c \<rparr>) pc2) pcj"
    unfolding pcj_def by (rule same_versions_refl)
  then show ?thesis using un p acc rj unfolding pc1_def by blast
next
  case False
  have un: "\<not> page_cache (acq_store pc a)"
  proof
    assume "page_cache (acq_store pc a)"
    then have "init is_aux a t b acc create pc = Inl Guarantee_failed"
      using False by (simp add: init_def)
    then show False using run by simp
  qed
  define pc1 where "pc1 = update_acq a (init_fields (Some t) acc b) pc"
  define r where "r = (if create then page_for_new_chosen_block_id is_aux b pc1
                 else Inr (page_for_block_id b pc1))"
  have e: "init is_aux a t b acc create pc =
      (case r of Inl e \<Rightarrow> Inl e
       | Inr (c, pc) \<Rightarrow>
           add_acquirer c a
             (update_txn t (\<lambda>t. t\<lparr> live_acqs := Suc (live_acqs t) \<rparr>)
               (update_acq a (\<lambda>acq. acq\<lparr> current_page := Some c \<rparr>) pc)))"
    unfolding init_def Let_def pc1_def [symmetric] r_def [symmetric] using False un by simp
  obtain c pc2 where r2: "r = Inr (c, pc2)"
    using run e by (cases r) auto
  define pc3 where "pc3 = update_acq a (\<lambda>acq. acq\<lparr> current_page := Some c \<rparr>) pc2"
  define pcj where "pcj = update_txn t (\<lambda>t. t\<lparr> live_acqs := Suc (live_acqs t) \<rparr>) pc3"
  have rj: "add_acquirer c a pcj = Inr pc'" using run e r2 by (simp add: pcj_def pc3_def)
  have p: "page_for_block_id b pc1 = (c, pc2)
         \<or> page_for_new_chosen_block_id is_aux b pc1 = Inr (c, pc2)"
    using r2 by (cases create) (simp_all add: r_def)
  have "acq_store pc2 = acq_store pc1"
    using p page_for_block_id_acq_store page_for_new_chosen_block_id_acq_store by blast
  then have acc: "access (acq_store pcj a) = acc"
    by (simp add: pcj_def pc3_def pc1_def update_acq_def update_txn_def init_fields_def)
  have "same_versions pc3 pcj"
    unfolding pcj_def update_txn_def by (rule same_versions_txn_store)
  then show ?thesis using un p acc rj unfolding pc1_def pc3_def by blast
qed

text \<open>
  What \<open>init\<close> does to the versions: the acquirer joins the current page of the block,
  and its version is the version of that page at that time, or the next one.
\<close>

lemma init_versions:
  assumes ok: "table_ok pc" and run: "init is_aux a t b acc create pc = Inr pc'"
  shows "versions_steps X 1 pc pc'
    \<and> \<not> page_cache (acq_store pc a) \<and> page_cache (acq_store pc' a)
    \<and> (\<exists>c pcj. add_acquirer c a pcj = Inr pc'
          \<and> access (acq_store pcj a) = acc
          \<and> last_write_acquirer_version (cp_store pcj c)
              = (case current_pages pc b of None \<Rightarrow> subsequent 0
                 | Some c0 \<Rightarrow> last_write_acquirer_version (cp_store pc c0))
          \<and> current_page (acq_store pc' a) = Some c
          \<and> current_pages pc' b = Some c
          \<and> (\<forall>c0. current_pages pc b = Some c0 \<longrightarrow> c = c0))"
proof -
  from init_decompose [OF run] obtain tx c pc2 pcj where
    un: "\<not> page_cache (acq_store pc a)"
    and p: "page_for_block_id b (update_acq a (init_fields tx acc b) pc) = (c, pc2)
         \<or> page_for_new_chosen_block_id is_aux b (update_acq a (init_fields tx acc b) pc)
             = Inr (c, pc2)"
    and sv: "same_versions (update_acq a (\<lambda>acq. acq\<lparr> current_page := Some c \<rparr>) pc2) pcj"
    and acc: "access (acq_store pcj a) = acc"
    and rj: "add_acquirer c a pcj = Inr pc'"
    by blast
  define pc1 where "pc1 = update_acq a (init_fields tx acc b) pc"
  define pc3 where "pc3 = update_acq a (\<lambda>acq. acq\<lparr> current_page := Some c \<rparr>) pc2"
  have s1: "versions_steps {a} 0 pc pc1"
    unfolding pc1_def using ok by (rule versions_steps_update_exempt)
  have ok1: "table_ok pc1" using s1 by (rule versions_steps_table_ok)
  have f1: "current_pages pc1 = current_pages pc" "cp_store pc1 = cp_store pc"
    "page_cache (acq_store pc1 a)"
    by (simp_all add: pc1_def update_acq_def init_fields_def)
  have g: "versions_steps {a} 0 pc1 pc2 \<and> current_pages pc2 b = Some c
      \<and> acq_store pc2 = acq_store pc1
      \<and> last_write_acquirer_version (cp_store pc2 c)
          = (case current_pages pc1 b of None \<Rightarrow> subsequent 0
             | Some c0 \<Rightarrow> last_write_acquirer_version (cp_store pc1 c0))
      \<and> (\<forall>c0. current_pages pc1 b = Some c0 \<longrightarrow> c = c0)"
  proof (cases "page_for_block_id b pc1 = (c, pc2)")
    case True
    show ?thesis
      using page_for_block_id_versions(1) [OF ok1 True, of "{a}"]
        page_for_block_id_versions(2-5) [OF ok1 True] by blast
  next
    case False
    then have n: "page_for_new_chosen_block_id is_aux b pc1 = Inr (c, pc2)"
      using p by (simp add: pc1_def)
    show ?thesis
      using page_for_new_chosen_block_id_versions(1) [OF ok1 n, of "{a}"]
        page_for_new_chosen_block_id_versions(2-5) [OF ok1 n] by blast
  qed
  then have s2: "versions_steps {a} 0 pc1 pc2" and t2: "current_pages pc2 b = Some c"
    and a2: "acq_store pc2 = acq_store pc1"
    and l2: "last_write_acquirer_version (cp_store pc2 c)
          = (case current_pages pc b of None \<Rightarrow> subsequent 0
             | Some c0 \<Rightarrow> last_write_acquirer_version (cp_store pc c0))"
    and u2: "\<And>c0. current_pages pc b = Some c0 \<Longrightarrow> c = c0"
    by (simp_all add: f1 cong: option.case_cong)
  have ok2: "table_ok pc2" using s2 by (rule versions_steps_table_ok)
  have s3: "versions_steps {a} 0 pc2 pc3"
    unfolding pc3_def using ok2 by (rule versions_steps_update_exempt)
  have ok3: "table_ok pc3" using s3 by (rule versions_steps_table_ok)
  have f3: "current_pages pc3 = current_pages pc2" "cp_store pc3 = cp_store pc2"
    "page_cache (acq_store pc3 a)" "current_page (acq_store pc3 a) = Some c"
    using f1(3) by (simp_all add: pc3_def update_acq_def a2)
  have s4: "versions_steps {a} 0 pc3 pcj"
    using ok3 sv unfolding pc3_def by (rule same_versions_steps)
  have ok4: "table_ok pcj" using s4 by (rule versions_steps_table_ok)
  have f4: "current_pages pcj = current_pages pc3"
    "last_write_acquirer_version (cp_store pcj c) = last_write_acquirer_version (cp_store pc3 c)"
    "page_cache (acq_store pcj a)" "current_page (acq_store pcj a) = Some c"
    using sv f3(3,4) unfolding pc3_def [symmetric] by (simp_all add: same_versions_def)
  have s5: "versions_steps {a} 1 pcj pc'" using ok4 rj by (rule add_acquirer_steps)
  note v = add_acquirer_versions [OF rj]
  have "versions_steps {a} (0 + 0) pc pc2" using s1 s2 by (rule versions_steps_trans)
  then have "versions_steps {a} (0 + 0 + 0) pc pc3" using s3 by (rule versions_steps_trans)
  then have "versions_steps {a} (0 + 0 + 0 + 0) pc pcj" using s4 by (rule versions_steps_trans)
  then have "versions_steps {a} (0 + 0 + 0 + 0 + 1) pc pc'" using s5 by (rule versions_steps_trans)
  then have "versions_steps {a} 1 pc pc'" by simp
  then have A: "versions_steps X 1 pc pc'" using un by (rule versions_steps_unexempt)
  have B: "page_cache (acq_store pc' a)" using v(7) [of a] f4(3) by simp
  have C: "last_write_acquirer_version (cp_store pcj c)
              = (case current_pages pc b of None \<Rightarrow> subsequent 0
                 | Some c0 \<Rightarrow> last_write_acquirer_version (cp_store pc c0))"
    using f4(2) f3(2) l2 by simp
  have D: "current_page (acq_store pc' a) = Some c" using v(8) [of a] f4(4) by simp
  have E: "current_pages pc' b = Some c" using v(1) f4(1) f3(1) t2 by simp
  show ?thesis using A un B rj acc C D E u2 by blast
qed

lemma remove_acquirer_same_versions:
  assumes run: "remove_acquirer c a pc = Inr pc'"
  shows "same_versions pc pc'"
proof -
  define q where "q = acquirers (cp_store pc c)"
  define i where "i = list_index q a"
  define pc1 where "pc1 = update_cp c (\<lambda>cp. cp\<lparr> acquirers := remove_nth i (acquirers cp) \<rparr>) pc"
  have i: "i < length q"
  proof (rule ccontr)
    assume "\<not> i < length q"
    then have "remove_acquirer c a pc = Inl Not_in_list"
      by (simp add: remove_acquirer_def Let_def q_def [symmetric] i_def [symmetric])
    then show False using run by simp
  qed
  have s1: "same_versions pc pc1" unfolding pc1_def by (rule same_versions_update_cp) simp_all
  have e: "remove_acquirer c a pc =
      (case (if Suc i < length q then Some (q ! Suc i) else None) of
         None \<Rightarrow> Inr pc1 | Some n \<Rightarrow> pulse_pulsables c n pc1)"
    using i by (simp add: remove_acquirer_def Let_def q_def [symmetric] i_def [symmetric] pc1_def)
  show ?thesis
  proof (cases "Suc i < length q")
    case True
    then have "pulse_pulsables c (q ! Suc i) pc1 = Inr pc'" using run e by simp
    then have "same_versions pc1 pc'" by (rule pulse_pulsables_same_versions)
    then show ?thesis using s1 same_versions_trans by blast
  next
    case False
    then have "pc' = pc1" using run e by simp
    then show ?thesis using s1 by simp
  qed
qed

lemma destroy_txn_part_same_versions:
  assumes "destroy_txn_part a pc = Inr pc'"
  shows "same_versions pc pc'"
proof (cases "the_txn (acq_store pc a)")
  case None
  then show ?thesis using assms by (simp add: destroy_txn_part_def same_versions_refl)
next
  case (Some t)
  then have "txn_remove_acquirer t a pc = Inr pc'" using assms by (simp add: destroy_txn_part_def)
  then have "pc' = pc\<lparr> txn_store := txn_store pc' \<rparr>" by (rule txn_remove_acquirer_txn_store)
  then show ?thesis using same_versions_txn_store [of pc "txn_store pc'"] by simp
qed

lemma destroy_queue_part_same_versions:
  assumes "destroy_queue_part c a pc = Inr pc'"
  shows "same_versions pc pc'"
proof (cases "a \<in> set (acquirers (cp_store pc c))")
  case True
  then have "remove_acquirer c a pc = Inr pc'" using assms by (simp add: destroy_queue_part_def)
  then show ?thesis by (rule remove_acquirer_same_versions)
next
  case False
  then show ?thesis using assms by (simp add: destroy_queue_part_def same_versions_refl)
qed

lemma destroy_snapshot_part_same_versions:
  assumes "destroy_snapshot_part c a pc = Inr pc'"
  shows "same_versions pc pc'"
proof (cases "declared_snapshotted (acq_store pc a)")
  case False
  then show ?thesis using assms by (simp add: destroy_snapshot_part_def same_versions_refl)
next
  case True
  define pc1 where "pc1 = reset_page_ptr (tpp_page (snapshotted_page (acq_store pc a))) pc"
  define pc2 where "pc2 = release_snapshot a pc"
  have s1: "same_versions pc pc1" unfolding pc1_def by (rule same_versions_reset_page_ptr)
  have "pc2 = update_acq a
       (\<lambda>acq. acq\<lparr> snapshotted_page := (snapshotted_page acq)\<lparr> tpp_page := None \<rparr> \<rparr>) pc1"
    by (simp add: pc2_def pc1_def release_snapshot_def)
  moreover have "same_versions pc1 (update_acq a
       (\<lambda>acq. acq\<lparr> snapshotted_page := (snapshotted_page acq)\<lparr> tpp_page := None \<rparr> \<rparr>) pc1)"
    by (rule same_versions_update_acq) simp_all
  ultimately have s2: "same_versions pc pc2" using s1 same_versions_trans by simp
  have r: "remove_keepalive c pc2 = Inr pc'"
    using assms True by (simp add: destroy_snapshot_part_def pc2_def)
  then have "pc' = update_cp c (\<lambda>cp. cp\<lparr> num_keepalives := num_keepalives cp - 1 \<rparr>) pc2"
    by (auto simp add: remove_keepalive_def split: if_splits)
  moreover have "same_versions pc2
      (update_cp c (\<lambda>cp. cp\<lparr> num_keepalives := num_keepalives cp - 1 \<rparr>) pc2)"
    by (rule same_versions_update_cp) simp_all
  ultimately show ?thesis using s2 same_versions_trans by simp
qed

lemma destroy_versions:
  assumes ok: "table_ok pc" and run: "destroy nb a pc = Inr pc'"
  shows "versions_steps X 0 pc pc'"
proof (cases "page_cache (acq_store pc a)")
  case False
  then have "pc' = pc" using run by (simp add: destroy_Inr)
  then show ?thesis using ok by (simp add: same_versions_steps same_versions_refl)
next
  case True
  then obtain pc1 c pc2 pc3 where
    d: "destroy_txn_part a pc = Inr pc1" "destroy_queue_part c a pc1 = Inr pc2"
      "destroy_snapshot_part c a pc2 = Inr pc3"
      "pc' = consider_evicting_current_page nb (acq_block_id (acq_store pc3 a)) pc3"
    using run by (auto simp add: destroy_Inr)
  have "same_versions pc pc1" using d(1) by (rule destroy_txn_part_same_versions)
  moreover have "same_versions pc1 pc2" using d(2) by (rule destroy_queue_part_same_versions)
  moreover have "same_versions pc2 pc3" using d(3) by (rule destroy_snapshot_part_same_versions)
  ultimately have "same_versions pc pc3" using same_versions_trans by blast
  then have s: "versions_steps X 0 pc pc3" using ok same_versions_steps by blast
  then have "table_ok pc3" by (rule versions_steps_table_ok)
  then have "versions_steps X 0 pc3 pc'" unfolding d(4) by (rule consider_evicting_versions)
  then have "versions_steps X (0 + 0) pc pc'" using s versions_steps_trans by blast
  then show ?thesis by simp
qed

lemma declare_readonly_same_versions:
  assumes run: "declare_readonly a pc = Inr pc'"
  shows "same_versions pc pc'"
proof -
  define pc1 where "pc1 = update_acq a (\<lambda>acq. acq\<lparr> access := access_read \<rparr>) pc"
  have s1: "same_versions pc pc1" unfolding pc1_def by (rule same_versions_update_acq) simp_all
  have e: "declare_readonly a pc =
      (case current_page (acq_store pc1 a) of None \<Rightarrow> Inr pc1
       | Some c \<Rightarrow> pulse_pulsables c a pc1)"
    by (simp only: declare_readonly_def Let_def pc1_def)
  show ?thesis
  proof (cases "current_page (acq_store pc1 a)")
    case None
    then have "pc' = pc1" using run e by simp
    then show ?thesis using s1 by simp
  next
    case (Some c)
    then have "pulse_pulsables c a pc1 = Inr pc'" using run e by simp
    then have "same_versions pc1 pc'" by (rule pulse_pulsables_same_versions)
    then show ?thesis using s1 same_versions_trans by blast
  qed
qed

lemma declare_snapshotted_same_versions:
  assumes run: "declare_snapshotted a pc = Inr pc'"
  shows "same_versions pc pc'"
proof (cases "declared_snapshotted (acq_store pc a)")
  case True then show ?thesis using run by (simp add: declare_snapshotted_def same_versions_refl)
next
  case False
  define pc1 where "pc1 = update_acq a (\<lambda>acq. acq\<lparr> declared_snapshotted := True \<rparr>) pc"
  have e: "declare_snapshotted a pc =
      (case current_page (acq_store pc1 a) of None \<Rightarrow> Inl Null_dereference
       | Some c \<Rightarrow> pulse_pulsables c a (add_keepalive c pc1))"
    using False by (simp only: declare_snapshotted_def Let_def pc1_def if_True simp_thms)
  obtain c where c: "current_page (acq_store pc1 a) = Some c"
    using run e by (cases "current_page (acq_store pc1 a)") simp_all
  have p: "pulse_pulsables c a (add_keepalive c pc1) = Inr pc'" using run e c by simp
  have "same_versions pc pc1" unfolding pc1_def by (rule same_versions_update_acq) simp_all
  moreover have "same_versions pc1 (add_keepalive c pc1)"
    unfolding add_keepalive_def by (rule same_versions_update_cp) simp_all
  moreover have "same_versions (add_keepalive c pc1) pc'"
    using p by (rule pulse_pulsables_same_versions)
  ultimately show ?thesis using same_versions_trans by blast
qed

lemma call_versions:
  assumes ok: "table_ok pc" and run: "call hdr x pc = Inr pc'"
  shows "versions_steps X 1 pc pc'"
proof (cases x)
  case (Init a t b acc create)
  then have "init (is_aux_block_id hdr) a t b acc create pc = Inr pc'" using run by simp
  then show ?thesis using init_versions [OF ok] by blast
next
  case (Init_read a b)
  then have "init (is_aux_block_id hdr) a 0 b access_read False pc = Inr pc'"
    using run by (simp add: init_def)
  then show ?thesis using init_versions [OF ok] by blast
next
  case (Destroy a)
  then have "destroy (NULL_BLOCK_ID hdr) a pc = Inr pc'" using run by simp
  then have "versions_steps X 0 pc pc'" using ok destroy_versions by blast
  then show ?thesis by (rule versions_steps_mono) simp
next
  case (Declare_readonly a)
  then have "declare_readonly a pc = Inr pc'" using run by simp
  then have "same_versions pc pc'" by (rule declare_readonly_same_versions)
  then have "versions_steps X 0 pc pc'" using ok same_versions_steps by blast
  then show ?thesis by (rule versions_steps_mono) simp
next
  case (Declare_snapshotted a)
  then have "declare_snapshotted a pc = Inr pc'" using run by simp
  then have "same_versions pc pc'" by (rule declare_snapshotted_same_versions)
  then have "versions_steps X 0 pc pc'" using ok same_versions_steps by blast
  then show ?thesis by (rule versions_steps_mono) simp
qed

lemma run_versions:
  "table_ok pc \<Longrightarrow> run hdr xs pc = Inr pc' \<Longrightarrow> versions_steps X (length xs) pc pc'"
proof (induction xs arbitrary: pc)
  case Nil
  then show ?case by (simp add: same_versions_steps same_versions_refl)
next
  case (Cons x xs)
  from Cons.prems(2) obtain pc1 where c: "call hdr x pc = Inr pc1" and r: "run hdr xs pc1 = Inr pc'"
    by (auto simp add: and_then_Inr)
  have s1: "versions_steps X 1 pc pc1" using Cons.prems(1) c by (rule call_versions)
  then have "table_ok pc1" by (rule versions_steps_table_ok)
  then have "versions_steps X (length xs) pc1 pc'" using r by (rule Cons.IH)
  then have "versions_steps X (1 + length xs) pc pc'" using s1 versions_steps_trans by blast
  then show ?case by simp
qed

lemma word64_advance:
  fixes v :: "64 word"
  assumes "unat v + k + 1 < 2 ^ 64"
  shows "v \<le> v + of_nat k" and "v < subsequent (v + of_nat k)"
proof -
  have k: "unat (of_nat k :: 64 word) = k" using assms by (simp add: unat_of_nat)
  have a: "unat (v + of_nat k) = unat v + k"
    using assms k by (simp add: unat_word_ariths)
  have b: "unat (v + of_nat k + 1) = unat v + k + 1"
    using assms a by (simp add: unat_word_ariths)
  show "v \<le> v + of_nat k" by (simp add: word_le_nat_alt a)
  show "v < subsequent (v + of_nat k)" by (simp add: word_less_nat_alt b subsequent_def)
qed

lemma init_assigns:
  assumes ok: "table_ok pc" and run: "init is_aux a t b acc create pc = Inr pc'"
    and c: "current_pages pc b = Some c"
  shows "current_page (acq_store pc' a) = Some c"
    and "block_version (acq_store pc' a)
          = (if acc = access_write then subsequent (last_write_acquirer_version (cp_store pc c))
             else last_write_acquirer_version (cp_store pc c))"
    and "last_write_acquirer_version (cp_store pc' c) = block_version (acq_store pc' a)"
    and "\<not> page_cache (acq_store pc a)"
    and "versions_steps X 1 pc pc'"
proof -
  from init_versions [OF ok run, of X] obtain c' pcj where
    s: "versions_steps X 1 pc pc'" and un: "\<not> page_cache (acq_store pc a)"
    and rj: "add_acquirer c' a pcj = Inr pc'"
    and acc: "access (acq_store pcj a) = acc"
    and l: "last_write_acquirer_version (cp_store pcj c')
              = (case current_pages pc b of None \<Rightarrow> subsequent 0
                 | Some c0 \<Rightarrow> last_write_acquirer_version (cp_store pc c0))"
    and cp: "current_page (acq_store pc' a) = Some c'"
    and u: "\<forall>c0. current_pages pc b = Some c0 \<longrightarrow> c' = c0"
    by blast
  have e: "c' = c" using u c by simp
  note v = add_acquirer_versions [OF rj]
  show "current_page (acq_store pc' a) = Some c" using cp e by simp
  show "block_version (acq_store pc' a)
          = (if acc = access_write then subsequent (last_write_acquirer_version (cp_store pc c))
             else last_write_acquirer_version (cp_store pc c))"
    using v(5) acc l c e by simp
  show "last_write_acquirer_version (cp_store pc' c) = block_version (acq_store pc' a)"
    using v(6) e by simp
  show "\<not> page_cache (acq_store pc a)" by (rule un)
  show "versions_steps X 1 pc pc'" by (rule s)
qed

lemma table_ok_new_page_cache: "table_ok (new_page_cache_t ra rec)"
  by (simp add: table_ok_def new_page_cache_t_def)


lemma two_writers_run:
  "\<exists>pc1 pc2 pc3.
     call example_header (Init 1 5 7 access_write False) (new_page_cache_t False (\<lambda>_. distant_past))
       = Inr pc1
     \<and> run example_header [Init_read 2 7] pc1 = Inr pc2
     \<and> call example_header (Init 3 6 7 access_write False) pc2 = Inr pc3
     \<and> block_version (acq_store pc1 1) = 2
     \<and> current_page (acq_store pc1 1) = Some 0
     \<and> current_pages pc2 7 = Some 0
     \<and> block_version (acq_store pc3 2) = 2
     \<and> block_version (acq_store pc3 3) = 3"
  by (simp add: eval_defs pulse_loop.simps Let_def)

subsection \<open>Successive writers of a current page\<close>

text \<open>
  C6. Let a write acquirer \<open>a1\<close> be initialised for block \<open>b\<close>, from a state with a well
  formed table of current pages. It joins the queue of the current page \<open>c\<close> of the
  block by a call of \<open>add_acquirer\<close> in a state \<open>pcj\<close>; its block version is the successor
  of the \<open>last_write_acquirer_version\<close> of \<open>c\<close> in \<open>pcj\<close> (the version of the page before the
  call, or that of a new current page), and \<open>last_write_acquirer_version\<close> is advanced to
  it. After any further calls on acquirers, as long as \<open>c\<close> is still the current page of
  the block and the 64-bit version has not wrapped around: the
  \<open>last_write_acquirer_version\<close> of \<open>c\<close> has not decreased; a next write acquirer of the
  block joins \<open>c\<close> and receives the successor of the version that \<open>c\<close> has then, which is
  greater than the version of \<open>a1\<close>; a read acquirer receives the version that \<open>c\<close> has
  then, and leaves it as it is.
\<close>

theorem block_versions_increase:
  assumes ok: "table_ok pc0"
    and first: "call hdr (Init a1 t1 b access_write cr1) pc0 = Inr pc1"
    and between: "run hdr calls pc1 = Inr pc2"
    and nowrap: "unat (block_version (acq_store pc1 a1)) + length calls + 1 < 2 ^ 64"
  shows "\<exists>c pcj.
      add_acquirer c a1 pcj = Inr pc1
      \<and> current_page (acq_store pc1 a1) = Some c \<and> current_pages pc1 b = Some c
      \<and> last_write_acquirer_version (cp_store pcj c)
          = (case current_pages pc0 b of None \<Rightarrow> subsequent 0
             | Some c0 \<Rightarrow> last_write_acquirer_version (cp_store pc0 c0))
      \<and> block_version (acq_store pc1 a1) = subsequent (last_write_acquirer_version (cp_store pcj c))
      \<and> last_write_acquirer_version (cp_store pc1 c) = block_version (acq_store pc1 a1)
      \<and> (current_pages pc2 b = Some c \<longrightarrow>
            last_write_acquirer_version (cp_store pc1 c)
              \<le> last_write_acquirer_version (cp_store pc2 c)
          \<and> (\<forall>a2 t2 cr2 pc3. call hdr (Init a2 t2 b access_write cr2) pc2 = Inr pc3 \<longrightarrow>
                 current_page (acq_store pc3 a2) = Some c
               \<and> block_version (acq_store pc3 a2)
                   = subsequent (last_write_acquirer_version (cp_store pc2 c))
               \<and> last_write_acquirer_version (cp_store pc3 c) = block_version (acq_store pc3 a2)
               \<and> block_version (acq_store pc3 a1) = block_version (acq_store pc1 a1)
               \<and> block_version (acq_store pc3 a1) < block_version (acq_store pc3 a2))
          \<and> (\<forall>a2 pc3. call hdr (Init_read a2 b) pc2 = Inr pc3 \<longrightarrow>
                 current_page (acq_store pc3 a2) = Some c
               \<and> block_version (acq_store pc3 a2) = last_write_acquirer_version (cp_store pc2 c)
               \<and> last_write_acquirer_version (cp_store pc3 c)
                   = last_write_acquirer_version (cp_store pc2 c)))"
proof -
  have i1: "init (is_aux_block_id hdr) a1 t1 b access_write cr1 pc0 = Inr pc1"
    using first by simp
  from init_versions [OF ok i1, of "{}"] obtain c pcj where
    s1: "versions_steps {} 1 pc0 pc1" and p1: "page_cache (acq_store pc1 a1)"
    and rj: "add_acquirer c a1 pcj = Inr pc1"
    and acc: "access (acq_store pcj a1) = access_write"
    and l: "last_write_acquirer_version (cp_store pcj c)
              = (case current_pages pc0 b of None \<Rightarrow> subsequent 0
                 | Some c0 \<Rightarrow> last_write_acquirer_version (cp_store pc0 c0))"
    and cp: "current_page (acq_store pc1 a1) = Some c"
    and t: "current_pages pc1 b = Some c"
    by blast
  note v = add_acquirer_versions [OF rj]
  have bv: "block_version (acq_store pc1 a1) = subsequent (last_write_acquirer_version (cp_store pcj c))"
    using v(5) acc by simp
  have lw: "last_write_acquirer_version (cp_store pc1 c) = block_version (acq_store pc1 a1)"
    by (rule v(6))
  have ok1: "table_ok pc1" using s1 by (rule versions_steps_table_ok)
  have c1: "c < next_cp pc1" using ok1 t by (rule table_okD(1))
  have s2: "versions_steps {} (length calls) pc1 pc2" using ok1 between by (rule run_versions)
  have ok2: "table_ok pc2" using s2 by (rule versions_steps_table_ok)
  have p2: "page_cache (acq_store pc2 a1)" using s2 _ p1 by (rule versions_stepsD(5)) simp
  have b2: "block_version (acq_store pc2 a1) = block_version (acq_store pc1 a1)"
    using s2 _ p1 by (rule versions_stepsD(6)) simp
  have rest: "last_write_acquirer_version (cp_store pc1 c)
              \<le> last_write_acquirer_version (cp_store pc2 c)
          \<and> (\<forall>a2 t2 cr2 pc3. call hdr (Init a2 t2 b access_write cr2) pc2 = Inr pc3 \<longrightarrow>
                 current_page (acq_store pc3 a2) = Some c
               \<and> block_version (acq_store pc3 a2)
                   = subsequent (last_write_acquirer_version (cp_store pc2 c))
               \<and> last_write_acquirer_version (cp_store pc3 c) = block_version (acq_store pc3 a2)
               \<and> block_version (acq_store pc3 a1) = block_version (acq_store pc1 a1)
               \<and> block_version (acq_store pc3 a1) < block_version (acq_store pc3 a2))
          \<and> (\<forall>a2 pc3. call hdr (Init_read a2 b) pc2 = Inr pc3 \<longrightarrow>
                 current_page (acq_store pc3 a2) = Some c
               \<and> block_version (acq_store pc3 a2) = last_write_acquirer_version (cp_store pc2 c)
               \<and> last_write_acquirer_version (cp_store pc3 c)
                   = last_write_acquirer_version (cp_store pc2 c))"
    if live: "current_pages pc2 b = Some c"
  proof (intro conjI allI impI)
    from versions_stepsD(4) [OF s2 c1 live] obtain k where
      k: "k \<le> length calls"
      and lk: "last_write_acquirer_version (cp_store pc2 c)
                = last_write_acquirer_version (cp_store pc1 c) + of_nat k"
      by blast
    have nw: "unat (last_write_acquirer_version (cp_store pc1 c)) + k + 1 < 2 ^ 64"
      using nowrap k lw by simp
    show "last_write_acquirer_version (cp_store pc1 c)
              \<le> last_write_acquirer_version (cp_store pc2 c)"
      unfolding lk using nw by (rule word64_advance(1))
    have lt: "last_write_acquirer_version (cp_store pc1 c)
              < subsequent (last_write_acquirer_version (cp_store pc2 c))"
      unfolding lk using nw by (rule word64_advance(2))
    {
      fix a2 t2 cr2 pc3
      assume "call hdr (Init a2 t2 b access_write cr2) pc2 = Inr pc3"
      then have i2: "init (is_aux_block_id hdr) a2 t2 b access_write cr2 pc2 = Inr pc3" by simp
      note w = init_assigns(1-4) [OF ok2 i2 live] init_assigns(5) [OF ok2 i2 live, of "{}"]
      show "current_page (acq_store pc3 a2) = Some c" by (rule w(1))
      show w2: "block_version (acq_store pc3 a2)
                   = subsequent (last_write_acquirer_version (cp_store pc2 c))"
        using w(2) by simp
      show "last_write_acquirer_version (cp_store pc3 c) = block_version (acq_store pc3 a2)"
        by (rule w(3))
      have "block_version (acq_store pc3 a1) = block_version (acq_store pc2 a1)"
        using w(5) _ p2 by (rule versions_stepsD(6)) simp
      then show b3: "block_version (acq_store pc3 a1) = block_version (acq_store pc1 a1)"
        using b2 by simp
      show "block_version (acq_store pc3 a1) < block_version (acq_store pc3 a2)"
        using lt b3 w2 lw by simp
    }
    {
      fix a2 pc3
      assume "call hdr (Init_read a2 b) pc2 = Inr pc3"
      then have i2: "init (is_aux_block_id hdr) a2 0 b access_read False pc2 = Inr pc3"
        by (simp add: init_def)
      note w = init_assigns(1-4) [OF ok2 i2 live] init_assigns(5) [OF ok2 i2 live, of "{}"]
      show "current_page (acq_store pc3 a2) = Some c" by (rule w(1))
      show w2: "block_version (acq_store pc3 a2) = last_write_acquirer_version (cp_store pc2 c)"
        using w(2) by simp
      show "last_write_acquirer_version (cp_store pc3 c)
                   = last_write_acquirer_version (cp_store pc2 c)"
        using w(3) w2 by simp
    }
  qed
  show ?thesis using rj cp t l bv lw rest by blast
qed

text \<open>
  On a new page cache: the write acquirer 1 of block 7 receives version 2, the read
  acquirer 2 receives version 2, and the next write acquirer 3 receives version 3.
\<close>

theorem block_versions_increase_witness:
  "\<exists>pc1 pc2 pc3.
     call example_header (Init 1 5 7 access_write False) (new_page_cache_t False (\<lambda>_. distant_past))
       = Inr pc1
     \<and> run example_header [Init_read 2 7] pc1 = Inr pc2
     \<and> call example_header (Init 3 6 7 access_write False) pc2 = Inr pc3
     \<and> block_version (acq_store pc3 1) = 2
     \<and> block_version (acq_store pc3 2) = 2
     \<and> block_version (acq_store pc3 3) = 3
     \<and> block_version (acq_store pc3 1) < block_version (acq_store pc3 3)"
proof -
  from two_writers_run obtain pc1 pc2 pc3 where
    c1: "call example_header (Init 1 5 7 access_write False)
           (new_page_cache_t False (\<lambda>_. distant_past)) = Inr pc1"
    and r: "run example_header [Init_read 2 7] pc1 = Inr pc2"
    and c3: "call example_header (Init 3 6 7 access_write False) pc2 = Inr pc3"
    and v1: "block_version (acq_store pc1 1) = 2"
    and p1: "current_page (acq_store pc1 1) = Some 0"
    and live: "current_pages pc2 7 = Some 0"
    and v2: "block_version (acq_store pc3 2) = 2"
    and v3: "block_version (acq_store pc3 3) = 3"
    by blast
  have nowrap: "unat (block_version (acq_store pc1 1)) + length [Init_read 2 7] + 1 < 2 ^ 64"
    using v1 by simp
  from block_versions_increase [OF table_ok_new_page_cache c1 r nowrap] obtain c where
    c: "current_page (acq_store pc1 1) = Some c"
    and rest: "current_pages pc2 7 = Some c \<longrightarrow>
         (\<forall>a2 t2 cr2 pc3. call example_header (Init a2 t2 7 access_write cr2) pc2 = Inr pc3 \<longrightarrow>
                 block_version (acq_store pc3 1) = block_version (acq_store pc1 1)
               \<and> block_version (acq_store pc3 1) < block_version (acq_store pc3 a2))"
    by blast
  have "c = 0" using c p1 by simp
  then have "block_version (acq_store pc3 1) = block_version (acq_store pc1 1)
               \<and> block_version (acq_store pc3 1) < block_version (acq_store pc3 3)"
    using rest live c3 by blast
  then show ?thesis using c1 r c3 v1 v2 v3 by auto
qed

end
